(* ===== verification/Prelude.thy ===== *)
theory Prelude
  imports Main "HOL-Library.Word"
begin

text \<open>
  Shared ground of the nvshare development.

  \<^item> \<open>fault\<close> and \<open>'a res\<close>: how a C function can end other than by returning. \<open>Exit\<close> is
    \<open>log_fatal\<close>, \<open>log_fatal_errno\<close> or a failed \<open>true_or_exit\<close> (\<open>src/src/common.h\<close>): the process
    ends on purpose. \<open>Blocked\<close> means that a system call has not answered: the recorded answers
    of the environment are used up, so the process is still inside the call. The other faults
    are undefined behaviour of C: an access through a freed pointer, through NULL, or past the
    end of an object; a \<open>va_arg\<close> that does not match the arguments passed; signed overflow.
  \<^item> \<open>bindR\<close> sequences such functions; \<open>wp\<close> is the weakest precondition under which a run either
    returns with the postcondition or ends in one of the two faults that are no undefined
    behaviour. Its rules are collected in \<open>wp\<close>.
  \<^item> The errno values the sources name, the two's-complement cast \<open>(int)\<close>, NUL-terminated
    buffers, and lemmas on lists and maps used by several components.
\<close>

section \<open>Results of C functions\<close>

datatype fault = Exit | Blocked | UseAfterFree | NullDeref | OutOfBounds | BadVarArg | SignedOverflow

type_synonym 'a res = "fault + 'a"

definition undefined_behaviour :: "fault \<Rightarrow> bool" where
  "undefined_behaviour f \<longleftrightarrow> f \<noteq> Exit \<and> f \<noteq> Blocked"

definition bindR :: "'a res \<Rightarrow> ('a \<Rightarrow> 'b res) \<Rightarrow> 'b res" where
  "bindR m f = (case m of Inl e \<Rightarrow> Inl e | Inr x \<Rightarrow> f x)"

lemma bindR_simps [simp]:
  "bindR (Inl e) f = Inl e"
  "bindR (Inr x) f = f x"
  by (simp_all add: bindR_def)

lemma bindR_Inr_iff: "bindR m f = Inr y \<longleftrightarrow> (\<exists>x. m = Inr x \<and> f x = Inr y)"
  by (cases m) simp_all

lemma bindR_Inl_iff: "bindR m f = Inl e \<longleftrightarrow> m = Inl e \<or> (\<exists>x. m = Inr x \<and> f x = Inl e)"
  by (cases m) simp_all

lemma bindR_cong [fundef_cong]:
  assumes "m = m'" and "\<And>x. m' = Inr x \<Longrightarrow> f x = f' x"
  shows "bindR m f = bindR m' f'"
  using assms by (cases m') simp_all

lemma bindR_assoc: "bindR (bindR m f) g = bindR m (\<lambda>x. bindR (f x) g)"
  by (cases m) simp_all

subsection \<open>Weakest preconditions\<close>

named_theorems wp \<open>rules that compute weakest preconditions\<close>

definition wp :: "'a res \<Rightarrow> ('a \<Rightarrow> bool) \<Rightarrow> bool" where
  "wp m P = (case m of Inl f \<Rightarrow> \<not> undefined_behaviour f | Inr x \<Rightarrow> P x)"

lemma wp_Inl [wp]: "wp (Inl f) P = (\<not> undefined_behaviour f)"
  by (simp add: wp_def)

lemma wp_Inr [wp]: "wp (Inr x) P = P x"
  by (simp add: wp_def)

lemma wp_bind [wp]: "wp (bindR m f) P = wp m (\<lambda>x. wp (f x) P)"
  by (cases m) (simp_all add: wp_def)

lemma wp_mono: "wp m P \<Longrightarrow> (\<And>x. P x \<Longrightarrow> Q x) \<Longrightarrow> wp m Q"
  by (cases m) (simp_all add: wp_def)

lemma wp_conj: "wp m P \<Longrightarrow> wp m Q \<Longrightarrow> wp m (\<lambda>x. P x \<and> Q x)"
  by (cases m) (simp_all add: wp_def)

lemma wp_D: "wp m P \<Longrightarrow> m = Inr x \<Longrightarrow> P x"
  by (simp add: wp_def)

lemma wp_no_ub: "wp m P \<Longrightarrow> m = Inl f \<Longrightarrow> \<not> undefined_behaviour f"
  by (simp add: wp_def)

lemma wp_trueI: "m = Inr x \<Longrightarrow> P x \<Longrightarrow> wp m P"
  by (simp add: wp_def)

text \<open>Partial correctness: the postcondition of a run that returns.\<close>

named_theorems post \<open>rules that compute preconditions for partial correctness\<close>

definition post :: "'a res \<Rightarrow> ('a \<Rightarrow> bool) \<Rightarrow> bool" where
  "post m P = (\<forall>x. m = Inr x \<longrightarrow> P x)"

lemma post_Inl [post]: "post (Inl f) P"
  by (simp add: post_def)

lemma post_Inr [post]: "post (Inr x) P = P x"
  by (simp add: post_def)

lemma post_bind [post]: "post (bindR m f) P = post m (\<lambda>x. post (f x) P)"
  by (cases m) (simp_all add: post_def)

lemma post_mono: "post m P \<Longrightarrow> (\<And>x. P x \<Longrightarrow> Q x) \<Longrightarrow> post m Q"
  by (simp add: post_def)

lemma post_D: "post m P \<Longrightarrow> m = Inr x \<Longrightarrow> P x"
  by (simp add: post_def)

lemma post_I: "(\<And>x. m = Inr x \<Longrightarrow> P x) \<Longrightarrow> post m P"
  by (simp add: post_def)

lemma wp_post: "wp m P \<Longrightarrow> post m P"
  by (auto simp: wp_def post_def)

lemma ub_simps [simp]:
  "\<not> undefined_behaviour Exit" "\<not> undefined_behaviour Blocked"
  "undefined_behaviour UseAfterFree" "undefined_behaviour NullDeref"
  "undefined_behaviour OutOfBounds" "undefined_behaviour BadVarArg" "undefined_behaviour SignedOverflow"
  by (simp_all add: undefined_behaviour_def)

section \<open>Integers\<close>

text \<open>The cast \<open>(int)\<close> of a wider value: the low 32 bits, read as two's complement.\<close>

definition to_int32 :: "int \<Rightarrow> int" where
  "to_int32 x = sint (word_of_int x :: 32 word)"

lemma to_int32_bounds: "- (2 ^ 31) \<le> to_int32 x" "to_int32 x < 2 ^ 31"
  using sint_greater_eq [of "word_of_int x :: 32 word"] sint_lt [of "word_of_int x :: 32 word"]
  by (simp_all add: to_int32_def)

lemma to_int32_id: "- (2 ^ 31) \<le> x \<Longrightarrow> x < 2 ^ 31 \<Longrightarrow> to_int32 x = x"
  by (simp add: to_int32_def sint_sbintrunc' signed_take_bit_int_eq_self)

lemma to_int32_numeral [simp]:
  "numeral n < (2 ^ 31 :: int) \<Longrightarrow> to_int32 (numeral n) = numeral n"
  "numeral n \<le> (2 ^ 31 :: int) \<Longrightarrow> to_int32 (- numeral n) = - numeral n"
  "to_int32 0 = 0" "to_int32 1 = 1" "to_int32 (- 1) = - 1"
  by (simp_all add: to_int32_id)

section \<open>Buffers\<close>

abbreviation NUL :: char where
  "NUL \<equiv> CHR 0x00"

text \<open>The C string at the start of a piece of memory.\<close>

definition cstr :: "char list \<Rightarrow> char list" where
  "cstr mem = takeWhile (\<lambda>c. c \<noteq> NUL) mem"

lemma cstr_no_NUL [simp]: "NUL \<notin> set (cstr mem)"
  by (auto simp: cstr_def dest: set_takeWhileD)

lemma cstr_split: "NUL \<in> set mem \<Longrightarrow> \<exists>rest. mem = cstr mem @ NUL # rest"
  by (induction mem) (auto simp: cstr_def)

lemma cstr_terminated [simp]: "NUL \<notin> set s \<Longrightarrow> cstr (s @ NUL # rest) = s"
  by (induction s) (auto simp: cstr_def)

section \<open>errno and the kernel\<close>

text \<open>The errno values the sources name, with their Linux numbers.\<close>

type_synonym errno = int

abbreviation (input) EPERM :: errno where "EPERM \<equiv> 1"
abbreviation (input) ENOENT :: errno where "ENOENT \<equiv> 2"
abbreviation (input) EINTR :: errno where "EINTR \<equiv> 4"
abbreviation (input) EAGAIN :: errno where "EAGAIN \<equiv> 11"
abbreviation (input) EWOULDBLOCK :: errno where "EWOULDBLOCK \<equiv> EAGAIN"
abbreviation (input) EEXIST :: errno where "EEXIST \<equiv> 17"
abbreviation (input) EPIPE :: errno where "EPIPE \<equiv> 32"
abbreviation (input) ECONNABORTED :: errno where "ECONNABORTED \<equiv> 103"
abbreviation (input) ECONNRESET :: errno where "ECONNRESET \<equiv> 104"
abbreviation (input) ENOTCONN :: errno where "ENOTCONN \<equiv> 107"
abbreviation (input) ETIMEDOUT :: errno where "ETIMEDOUT \<equiv> 110"

text \<open>
  The system calls of the sources with the arguments that matter. The kernel is a list of
  answers, used in the order of the calls, and a log of the calls made with their answers. An
  answer has the return value, errno, and the bytes a \<open>read\<close> delivers.
\<close>

datatype syscall =
    Sys_write int "char list"
  | Sys_read int nat
  | Sys_socket
  | Sys_unlink "char list"
  | Sys_bind int "char list"
  | Sys_connect int "char list"
  | Sys_listen int
  | Sys_accept4 int
  | Sys_close int
  | Sys_mkdir "char list"
  | Sys_chmod "char list" nat
  | Sys_epoll_create
  | Sys_epoll_add int "64 word"
  | Sys_epoll_del int

record sysret =
  ret :: int
  err :: errno
  bytes :: "char list"

record kernel =
  answers :: "sysret list"
  calls :: "(syscall \<times> sysret) list"

definition sys :: "syscall \<Rightarrow> kernel \<Rightarrow> (sysret \<times> kernel) res" where
  "sys c k =
     (case answers k of
        [] \<Rightarrow> Inl Blocked
      | a # as \<Rightarrow> Inr (a, k\<lparr>answers := as, calls := calls k @ [(c, a)]\<rparr>))"

text \<open>The bytes that the logged calls put on the socket \<open>fd\<close>, in order.\<close>

definition sent_by :: "int \<Rightarrow> syscall \<times> sysret \<Rightarrow> char list" where
  "sent_by fd ca =
     (case ca of (c, a) \<Rightarrow>
        case c of Sys_write f b \<Rightarrow> if f = fd then take (nat (to_int32 (ret a))) b else []
        | _ \<Rightarrow> [])"

definition sent_to :: "int \<Rightarrow> kernel \<Rightarrow> char list" where
  "sent_to fd k = concat (map (sent_by fd) (calls k))"

lemma sys_Inr_iff:
  "sys c k = Inr (a, k') \<longleftrightarrow>
     (\<exists>as. answers k = a # as \<and> k' = k\<lparr>answers := as, calls := calls k @ [(c, a)]\<rparr>)"
  by (auto simp: sys_def split: list.splits)

lemma sys_fault: "sys c k = Inl f \<Longrightarrow> f = Blocked"
  by (auto simp: sys_def split: list.splits)

lemma wp_sys [wp]:
  "wp (sys c k) P =
     (\<forall>a as. answers k = a # as \<longrightarrow> P (a, k\<lparr>answers := as, calls := calls k @ [(c, a)]\<rparr>))"
  by (auto simp: sys_def wp_def split: list.splits)

lemma post_sys [post]:
  "post (sys c k) P =
     (\<forall>a as. answers k = a # as \<longrightarrow> P (a, k\<lparr>answers := as, calls := calls k @ [(c, a)]\<rparr>))"
  by (auto simp: sys_def post_def split: list.splits)

lemma sent_to_snoc: "sent_to fd (k\<lparr>answers := as, calls := calls k @ [ca]\<rparr>) = sent_to fd k @ sent_by fd ca"
  by (simp add: sent_to_def)

lemma sent_by_simps [simp]:
  "sent_by fd (Sys_write f b, a) = (if f = fd then take (nat (to_int32 (ret a))) b else [])"
  "sent_by fd (Sys_read f n, a) = []"
  "sent_by fd (Sys_close f, a) = []"
  "sent_by fd (Sys_epoll_add f p, a) = []"
  "sent_by fd (Sys_epoll_del f, a) = []"
  "sent_by fd (Sys_accept4 f, a) = []"
  by (simp_all add: sent_by_def)

end
