(* ===== verification/Common.thy ===== *)
theory Common
  imports Prelude
begin

text \<open>
  \<open>src/src/common.c\<close> and the macros of \<open>src/src/common.h\<close>: \<open>RETRY_INTR\<close>, \<open>timespecsub\<close>, \<open>strlcpy\<close>,
  \<open>write_whole\<close> and \<open>read_whole\<close>. A string argument is the memory from its first byte to the end
  of its object, and reading past that end is \<open>OutOfBounds\<close>.
\<close>

section \<open>\<open>RETRY_INTR\<close>\<close>

text \<open>
  The result of the call is stored in \<open>int __rc\<close>, so it is truncated to 32 bits before it is
  tested.
\<close>

function retry_intr :: "syscall \<Rightarrow> kernel \<Rightarrow> (sysret \<times> kernel) res" where
  "retry_intr c k =
     bindR (sys c k) (\<lambda>(a, k').
       let rc = a\<lparr>ret := to_int32 (ret a)\<rparr> in
       if ret rc < 0 \<and> err rc = EINTR then retry_intr c k' else Inr (rc, k'))"
  by pat_completeness auto
termination
  by (relation "measure (\<lambda>(c, k). length (answers k))") (auto simp: sys_Inr_iff)

declare retry_intr.simps [simp del]

definition interrupted :: "sysret \<Rightarrow> bool" where
  "interrupted a \<longleftrightarrow> to_int32 (ret a) < 0 \<and> err a = EINTR"

lemma retry_intr_Nil [simp]: "answers k = [] \<Longrightarrow> retry_intr c k = Inl Blocked"
  by (simp add: retry_intr.simps sys_def)

lemma retry_intr_Cons [simp]:
  "answers k = a # as \<Longrightarrow> retry_intr c k =
     (let k' = k\<lparr>answers := as, calls := calls k @ [(c, a)]\<rparr> in
      if interrupted a then retry_intr c k' else Inr (a\<lparr>ret := to_int32 (ret a)\<rparr>, k'))"
  by (simp add: retry_intr.simps [of c k] sys_def interrupted_def Let_def)

lemma retry_intr_induct:
  assumes nil: "\<And>k. answers k = [] \<Longrightarrow> P k"
    and cons: "\<And>k a as. answers k = a # as \<Longrightarrow>
      P (k\<lparr>answers := as, calls := calls k @ [(c, a)]\<rparr>) \<Longrightarrow> P k"
  shows "P k"
proof (induction "answers k" arbitrary: k)
  case Nil
  then show ?case by (intro nil) simp
next
  case (Cons a as)
  from Cons.hyps(1) [of "k\<lparr>answers := as, calls := calls k @ [(c, a)]\<rparr>"] Cons.hyps(2)
  show ?case by (intro cons [of k a as]) simp_all
qed

lemma retry_intr_shorter:
  "retry_intr c k = Inr (a, k') \<Longrightarrow> length (answers k') < length (answers k)"
  by (induction k rule: retry_intr_induct [of _ c]) (auto simp: Let_def split: if_splits)

lemma retry_intr_fault: "retry_intr c k = Inl f \<Longrightarrow> f = Blocked"
  by (induction k rule: retry_intr_induct [of _ c]) (auto simp: Let_def split: if_splits)

lemma retry_intr_result:
  "retry_intr c k = Inr (a, k') \<Longrightarrow> \<not> (ret a < 0 \<and> err a = EINTR) \<and> ret a < 2 ^ 31"
  using to_int32_bounds(2)
  by (induction k rule: retry_intr_induct [of _ c]) (auto simp: Let_def interrupted_def split: if_splits)

text \<open>Interrupted calls transfer nothing: only the last attempt shows on the socket.\<close>

lemma retry_intr_sent:
  "retry_intr c k = Inr (a, k') \<Longrightarrow>
   sent_to fd k' = sent_to fd k @ (case c of Sys_write f b \<Rightarrow> if f = fd then take (nat (ret a)) b else [] | _ \<Rightarrow> [])"
  by (induction k rule: retry_intr_induct [of _ c])
    (auto simp: Let_def interrupted_def sent_to_def sent_by_def split: if_splits syscall.splits)

lemma retry_intr_skip:
  "answers k = bs @ a # as \<Longrightarrow> (\<forall>b \<in> set bs. interrupted b) \<Longrightarrow> \<not> interrupted a \<Longrightarrow>
   \<exists>k'. retry_intr c k = Inr (a\<lparr>ret := to_int32 (ret a)\<rparr>, k') \<and> answers k' = as"
  by (induction bs arbitrary: k) (auto simp: Let_def)

lemma wp_retry_intr [wp]:
  "wp (retry_intr c k) P = (\<forall>a k'. retry_intr c k = Inr (a, k') \<longrightarrow> P (a, k'))"
  by (cases "retry_intr c k") (auto simp: wp_def dest: retry_intr_fault)

lemma post_retry_intr [post]:
  "post (retry_intr c k) P = (\<forall>a k'. retry_intr c k = Inr (a, k') \<longrightarrow> P (a, k'))"
  by (simp add: post_def)

section \<open>\<open>timespecsub\<close>\<close>

record timespec =
  tv_sec :: int
  tv_nsec :: int

definition timespecsub :: "timespec \<Rightarrow> timespec \<Rightarrow> timespec" where
  "timespecsub tsp usp =
     (let sec = tv_sec tsp - tv_sec usp; nsec = tv_nsec tsp - tv_nsec usp in
      if nsec < 0 then \<lparr>tv_sec = sec - 1, tv_nsec = nsec + 1000000000\<rparr>
      else \<lparr>tv_sec = sec, tv_nsec = nsec\<rparr>)"

definition timespec_ns :: "timespec \<Rightarrow> int" where
  "timespec_ns t = tv_sec t * 1000000000 + tv_nsec t"

definition timespec_ok :: "timespec \<Rightarrow> bool" where
  "timespec_ok t \<longleftrightarrow> 0 \<le> tv_nsec t \<and> tv_nsec t < 1000000000"

lemma timespecsub_ns: "timespec_ns (timespecsub t u) = timespec_ns t - timespec_ns u"
  by (simp add: timespecsub_def timespec_ns_def Let_def algebra_simps)

lemma timespecsub_ok: "timespec_ok t \<Longrightarrow> timespec_ok u \<Longrightarrow> timespec_ok (timespecsub t u)"
  by (auto simp: timespecsub_def timespec_ok_def Let_def)

text \<open>The whole seconds of the difference: what the callers compare with their thresholds.\<close>

lemma timespecsub_sec:
  assumes "timespec_ok t" "timespec_ok u"
  shows "tv_sec (timespecsub t u) = (timespec_ns t - timespec_ns u) div 1000000000"
proof -
  let ?d = "timespecsub t u"
  have "timespec_ns ?d div 1000000000 = tv_sec ?d"
    using timespecsub_ok [OF assms] by (simp add: timespec_ns_def timespec_ok_def)
  then show ?thesis by (simp add: timespecsub_ns)
qed

section \<open>\<open>strlcpy\<close>\<close>

text \<open>
  \<open>while (--nleft != 0) { if ((*dst++ = *src++) == 0) break; }\<close>: the bytes written so far are
  \<open>out\<close>. Result: the final \<open>nleft\<close>, the bytes written, the rest of the source.
\<close>

fun strlcpy_copy :: "nat \<Rightarrow> char list \<Rightarrow> char list \<Rightarrow> (nat \<times> char list \<times> char list) res" where
  "strlcpy_copy 0 out src = Inl OutOfBounds"
| "strlcpy_copy (Suc nleft) out src =
     (if nleft = 0 then Inr (0, out, src)
      else case src of
        [] \<Rightarrow> Inl OutOfBounds
      | c # src' \<Rightarrow>
          (if c = NUL then Inr (nleft, out @ [c], src')
           else strlcpy_copy nleft (out @ [c]) src'))"

text \<open>\<open>while (*src++) ;\<close>: how far the source pointer moves.\<close>

fun strlcpy_scan :: "char list \<Rightarrow> nat res" where
  "strlcpy_scan [] = Inl OutOfBounds"
| "strlcpy_scan (c # src) =
     (if c = NUL then Inr 1 else bindR (strlcpy_scan src) (\<lambda>k. Inr (Suc k)))"

definition strlcpy :: "char list \<Rightarrow> char list \<Rightarrow> nat \<Rightarrow> (char list \<times> nat) res" where
  "strlcpy dst src dsize =
     bindR (if dsize \<noteq> 0 then strlcpy_copy dsize [] src else Inr (0, [], src))
       (\<lambda>(nleft, out, rest).
         bindR (if nleft = 0
                then bindR (strlcpy_scan rest) (\<lambda>k.
                  Inr (if dsize \<noteq> 0 then out @ [NUL] else out, length src - length rest + k - 1))
                else Inr (out, length src - length rest - 1))
           (\<lambda>(out', n). if length dst < length out' then Inl OutOfBounds
              else Inr (out' @ drop (length out') dst, n)))"

lemma post_strlcpy [post]:
  "post (strlcpy dst src n) P = (\<forall>b m. strlcpy dst src n = Inr (b, m) \<longrightarrow> P (b, m))"
  by (simp add: post_def)

lemma strlcpy_copy_short:
  "NUL \<notin> set s \<Longrightarrow> length s < n \<Longrightarrow>
   strlcpy_copy (Suc n) out (s @ NUL # rest) = Inr (n - length s, out @ s @ [NUL], rest)"
proof (induction s arbitrary: n out)
  case Nil
  then show ?case by simp
next
  case (Cons c s)
  from Cons.prems(2) obtain m where "n = Suc m" by (cases n) auto
  with Cons show ?case by auto
qed

lemma strlcpy_copy_long:
  "NUL \<notin> set s \<Longrightarrow> n \<le> length s \<Longrightarrow>
   strlcpy_copy (Suc n) out (s @ NUL # rest) = Inr (0, out @ take n s, drop n s @ NUL # rest)"
proof (induction s arbitrary: n out)
  case Nil
  then show ?case by simp
next
  case (Cons c s)
  show ?case
  proof (cases n)
    case 0
    then show ?thesis by simp
  next
    case (Suc m)
    with Cons show ?thesis by auto
  qed
qed

lemma strlcpy_scan_string: "NUL \<notin> set s \<Longrightarrow> strlcpy_scan (s @ NUL # rest) = Inr (Suc (length s))"
  by (induction s) auto

text \<open>
  On a NUL-terminated source and a destination of at least \<open>dsize\<close> bytes, \<open>strlcpy\<close> stores the
  first \<open>dsize - 1\<close> characters and a NUL, leaves the bytes behind that NUL alone, and returns
  the length of the source.
\<close>

lemma strlcpy_string:
  assumes "NUL \<in> set src" "0 < dsize" "dsize \<le> length dst"
  shows "strlcpy dst src dsize =
    (let s = take (dsize - 1) (cstr src) in
     Inr (s @ NUL # drop (Suc (length s)) dst, length (cstr src)))"
proof -
  obtain rest where src: "src = cstr src @ NUL # rest"
    using cstr_split [OF assms(1)] by blast
  obtain n where n: "dsize = Suc n" using assms(2) by (cases dsize) auto
  let ?s = "cstr src"
  show ?thesis
  proof (cases "length ?s < n")
    case True
    then have "strlcpy_copy dsize [] src = Inr (n - length ?s, ?s @ [NUL], rest)"
      using strlcpy_copy_short [of ?s n "[]" rest] src n by simp
    moreover have "length src - length rest - 1 = length ?s"
      using arg_cong [OF src, of length] by simp
    ultimately show ?thesis
      using True n assms(3) by (simp add: strlcpy_def Let_def)
  next
    case False
    then have copy: "strlcpy_copy dsize [] src = Inr (0, take n ?s, drop n ?s @ NUL # rest)"
      using strlcpy_copy_long [of ?s n "[]" rest] src n by simp
    have "NUL \<notin> set (drop n ?s)" using in_set_dropD [of NUL n ?s] by auto
    then have "strlcpy_scan (drop n ?s @ NUL # rest) = Inr (Suc (length ?s - n))"
      by (simp add: strlcpy_scan_string)
    moreover have "length src - length (drop n ?s @ NUL # rest) + Suc (length ?s - n) - 1 = length ?s"
      using arg_cong [OF src, of length] False by simp
    ultimately show ?thesis
      using False n assms(3) copy by (simp add: strlcpy_def Let_def)
  qed
qed

lemma strlcpy_copy_unterminated:
  "NUL \<notin> set src \<Longrightarrow> strlcpy_copy n out src = Inl OutOfBounds \<or>
     (\<exists>out' k. strlcpy_copy n out src = Inr (0, out', drop k src))"
proof (induction n arbitrary: out src)
  case 0
  then show ?case by simp
next
  case (Suc n)
  show ?case
  proof (cases src)
    case Nil
    then show ?thesis by auto
  next
    case (Cons c cs)
    show ?thesis
    proof (cases "n = 0")
      case True
      then show ?thesis by (auto intro: exI [of _ 0])
    next
      case False
      have "NUL \<notin> set cs" "c \<noteq> NUL" using Suc.prems Cons by auto
      with Suc.IH [of cs "out @ [c]"] False Cons show ?thesis
        by auto (metis drop_Suc_Cons)
    qed
  qed
qed

lemma strlcpy_scan_unterminated: "NUL \<notin> set src \<Longrightarrow> strlcpy_scan src = Inl OutOfBounds"
  by (induction src) auto

text \<open>A source object without a NUL is read past its end, whatever the destination size.\<close>

lemma strlcpy_unterminated: "NUL \<notin> set src \<Longrightarrow> strlcpy dst src dsize = Inl OutOfBounds"
proof -
  assume nul: "NUL \<notin> set src"
  then have scan: "strlcpy_scan (drop k src) = Inl OutOfBounds" for k
    by (intro strlcpy_scan_unterminated) (auto dest: in_set_dropD)
  show ?thesis
    using strlcpy_copy_unterminated [OF nul, of dsize "[]"] scan scan [of 0]
    by (auto simp: strlcpy_def)
qed

section \<open>\<open>write_whole\<close> and \<open>read_whole\<close>\<close>

text \<open>
  The buffer argument is what is still to be written, so \<open>cnt\<close> is its length. \<open>Some\<close> is an early
  return. An answer above \<open>cnt\<close> makes \<open>cnt - ret\<close> wrap around, and the next \<open>write\<close> reads past
  the buffer.
\<close>

function write_loop :: "int \<Rightarrow> char list \<Rightarrow> kernel \<Rightarrow> (int option \<times> kernel) res" where
  "write_loop fd buf k =
     (if buf = [] then Inr (None, k)
      else bindR (retry_intr (Sys_write fd buf) k) (\<lambda>(a, k').
        if ret a < 0 then Inr (Some (ret a), k')
        else if int (length buf) < ret a then Inl OutOfBounds
        else write_loop fd (drop (nat (ret a)) buf) k'))"
  by pat_completeness auto
termination
  by (relation "measure (\<lambda>(fd, buf, k). length (answers k))") (auto dest: retry_intr_shorter)

declare write_loop.simps [simp del]

definition write_whole :: "int \<Rightarrow> char list \<Rightarrow> kernel \<Rightarrow> (int \<times> kernel) res" where
  "write_whole fd buf k =
     bindR (write_loop fd buf k) (\<lambda>(r, k').
       case r of Some e \<Rightarrow> Inr (e, k') | None \<Rightarrow> Inr (int (length buf), k'))"

text \<open>
  \<open>read_whole\<close> fills the buffer from its start; \<open>acc\<close> is what has been read, so \<open>readcnt\<close> is its
  length. An answer above the number of bytes asked for would overrun the buffer.
\<close>

function read_loop :: "int \<Rightarrow> nat \<Rightarrow> char list \<Rightarrow> kernel \<Rightarrow> (int \<times> char list \<times> kernel) res" where
  "read_loop fd cnt acc k =
     (if length acc < cnt
      then bindR (retry_intr (Sys_read fd (cnt - length acc)) k) (\<lambda>(a, k').
        if ret a < 0 then Inr (ret a, acc, k')
        else if ret a = 0 then Inr (int (length acc), acc, k')
        else if int (cnt - length acc) < ret a then Inl OutOfBounds
        else read_loop fd cnt (acc @ take (nat (ret a)) (bytes a)) k')
      else Inr (int (length acc), acc, k))"
  by pat_completeness auto
termination
  by (relation "measure (\<lambda>(fd, cnt, acc, k). length (answers k))") (auto dest: retry_intr_shorter)

declare read_loop.simps [simp del]

definition read_whole :: "int \<Rightarrow> nat \<Rightarrow> kernel \<Rightarrow> (int \<times> char list \<times> kernel) res" where
  "read_whole fd cnt k = read_loop fd cnt [] k"

lemma write_loop_transmits:
  "write_loop fd buf k = Inr (r, k') \<Longrightarrow>
     (r = None \<and> sent_to fd k' = sent_to fd k @ buf)
     \<or> (\<exists>e n. r = Some e \<and> e < 0 \<and> sent_to fd k' = sent_to fd k @ take n buf)"
proof (induction fd buf k arbitrary: r k' rule: write_loop.induct)
  case (1 fd buf k)
  show ?case
  proof (cases "buf = []")
    case True
    with "1.prems" show ?thesis by (simp add: write_loop.simps [of fd "[]"])
  next
    case False
    with "1.prems" obtain a k1 where a: "retry_intr (Sys_write fd buf) k = Inr (a, k1)"
      by (auto simp: write_loop.simps [of fd buf] bindR_Inr_iff)
    have sent: "sent_to fd k1 = sent_to fd k @ take (nat (ret a)) buf"
      using retry_intr_sent [OF a] by simp
    show ?thesis
    proof (cases "ret a < 0")
      case True
      with False a "1.prems" sent show ?thesis
        by (auto simp: write_loop.simps [of fd buf] intro: exI [of _ 0])
    next
      case ge: False
      with False a "1.prems" have le: "\<not> int (length buf) < ret a"
        and rec: "write_loop fd (drop (nat (ret a)) buf) k1 = Inr (r, k')"
        by (auto simp: write_loop.simps [of fd buf] split: if_splits)
      from "1.IH" [OF False a refl ge le rec] sent show ?thesis
        by (auto simp: take_add [symmetric] append_assoc [symmetric])
    qed
  qed
qed

text \<open>
  \<open>write_whole\<close> either reports a negative error, having sent a prefix of the buffer, or it returns
  the length of the buffer and has sent all of it, in order.
\<close>

lemma write_whole_transmits:
  "write_whole fd buf k = Inr (n, k') \<Longrightarrow>
     (n = int (length buf) \<and> sent_to fd k' = sent_to fd k @ buf)
     \<or> (n < 0 \<and> (\<exists>j. sent_to fd k' = sent_to fd k @ take j buf))"
  by (fastforce simp: write_whole_def bindR_Inr_iff split: option.splits dest: write_loop_transmits)

lemma read_loop_bound:
  "read_loop fd cnt acc k = Inr (n, buf, k') \<Longrightarrow> length acc \<le> cnt \<Longrightarrow>
     length buf \<le> cnt \<and> (\<exists>new. buf = acc @ new) \<and> (n < 0 \<or> n = int (length buf))"
proof (induction fd cnt acc k arbitrary: n buf k' rule: read_loop.induct)
  case (1 fd cnt acc k)
  show ?case
  proof (cases "length acc < cnt")
    case False
    with "1.prems" show ?thesis by (auto simp: read_loop.simps [of fd cnt])
  next
    case True
    with "1.prems" obtain a k1 where a: "retry_intr (Sys_read fd (cnt - length acc)) k = Inr (a, k1)"
      by (auto simp: read_loop.simps [of fd cnt] bindR_Inr_iff)
    show ?thesis
    proof (cases "ret a \<le> 0")
      case le: True
      with True a "1.prems" show ?thesis
        by (auto simp: read_loop.simps [of fd cnt] split: if_splits)
    next
      case False
      with True a "1.prems" have le: "\<not> int (cnt - length acc) < ret a"
        and rec: "read_loop fd cnt (acc @ take (nat (ret a)) (bytes a)) k1 = Inr (n, buf, k')"
        by (auto simp: read_loop.simps [of fd cnt] split: if_splits)
      have len: "length (acc @ take (nat (ret a)) (bytes a)) \<le> cnt" using le True by auto
      from False have ge: "\<not> ret a < 0" "ret a \<noteq> 0" by auto
      from "1.IH" [OF True a refl ge le rec len] show ?thesis by auto
    qed
  qed
qed

text \<open>\<open>read_whole\<close> never stores more than the buffer holds, and a return value of \<open>cnt\<close> means
  that the whole buffer has been filled.\<close>

lemma read_whole_bound:
  "read_whole fd cnt k = Inr (n, buf, k') \<Longrightarrow>
     length buf \<le> cnt \<and> (n = int cnt \<longleftrightarrow> length buf = cnt \<and> 0 \<le> n)"
  using read_loop_bound [of fd cnt "[]" k n buf k'] by (auto simp: read_whole_def)

text \<open>
  Answers that deliver the bytes of a buffer in non-empty pieces make \<open>read_whole\<close> return that
  buffer, however the pieces are cut.
\<close>

definition piece :: "char list \<Rightarrow> sysret" where
  "piece p = \<lparr>ret = int (length p), err = 0, bytes = p\<rparr>"

lemma piece_sel [simp]:
  "ret (piece p) = int (length p)" "err (piece p) = 0" "bytes (piece p) = p" "\<not> interrupted (piece p)"
  by (simp_all add: piece_def interrupted_def)

lemma read_loop_pieces:
  assumes "\<forall>p \<in> set ps. p \<noteq> [] \<and> length p < 2 ^ 31" "length acc + length (concat ps) = cnt"
    and "answers k = map piece ps @ as"
  shows "\<exists>k'. read_loop fd cnt acc k = Inr (int cnt, acc @ concat ps, k') \<and> answers k' = as"
  using assms
proof (induction ps arbitrary: acc k)
  case Nil
  then show ?case by (simp add: read_loop.simps [of fd cnt])
next
  case (Cons p ps)
  have id: "to_int32 (int (length p)) = int (length p)"
    using Cons.prems(1) by (intro to_int32_id) auto
  have p: "p \<noteq> []" using Cons.prems(1) by simp
  with Cons.prems(2) have lt: "length acc < cnt" by (cases p) auto
  let ?k = "k\<lparr>answers := map piece ps @ as, calls := calls k @ [(Sys_read fd (cnt - length acc), piece p)]\<rparr>"
  have "length (acc @ p) + length (concat ps) = cnt" using Cons.prems(2) by simp
  with Cons.IH [of "acc @ p" ?k] Cons.prems(1)
  have "\<exists>k'. read_loop fd cnt (acc @ p) ?k = Inr (int cnt, acc @ concat (p # ps), k') \<and> answers k' = as"
    by simp
  with lt p id Cons.prems(2,3) show ?case
    by (simp add: read_loop.simps [of fd cnt acc] Let_def)
qed

end
