(* ===== verification/Cstd.thy ===== *)
theory Cstd
  imports Prelude
begin

text \<open>
  The functions of the C library whose results the sources depend on: \<open>strtoll\<close> and \<open>strtol\<close> with
  base 0 (\<open>src/src/scheduler.c\<close>, \<open>src/src/xopt.c\<close>), \<open>snprintf\<close> with \<open>%lld\<close> and \<open>%016lx\<close> (\<open>src/src/cli.c\<close>,
  \<open>src/src/scheduler.c\<close>) and \<open>sscanf\<close> with \<open>%lx\<close> (\<open>src/src/client.c\<close>), as the C standard describes
  them, in the C locale and with 64-bit \<open>long\<close>. The lemmas show that what the printing
  functions write is what the parsing functions read back.
\<close>

section \<open>Digits\<close>

definition is_space :: "char \<Rightarrow> bool" where
  "is_space c \<longleftrightarrow> c = CHR 0x20 \<or> (9 \<le> (of_char c :: nat) \<and> (of_char c :: nat) \<le> 13)"

definition digit_val :: "char \<Rightarrow> nat option" where
  "digit_val c =
     (let n = of_char c :: nat in
      if 48 \<le> n \<and> n \<le> 57 then Some (n - 48)
      else if 97 \<le> n \<and> n \<le> 122 then Some (n - 87)
      else if 65 \<le> n \<and> n \<le> 90 then Some (n - 55)
      else None)"

definition is_digit :: "nat \<Rightarrow> char \<Rightarrow> bool" where
  "is_digit base c = (case digit_val c of None \<Rightarrow> False | Some d \<Rightarrow> d < base)"

definition digits_value :: "nat \<Rightarrow> char list \<Rightarrow> nat" where
  "digits_value base ds =
     foldl (\<lambda>v c. v * base + (case digit_val c of None \<Rightarrow> 0 | Some d \<Rightarrow> d)) 0 ds"

definition digit_char :: "nat \<Rightarrow> char" where
  "digit_char d = char_of (if d < 10 then 48 + d else 87 + d)"

fun show_nat :: "nat \<Rightarrow> nat \<Rightarrow> char list" where
  "show_nat base n =
     (if base < 2 then [] else if n < base then [digit_char n]
      else show_nat base (n div base) @ [digit_char (n mod base)])"

declare show_nat.simps [simp del]

section \<open>Printing\<close>

definition show_int :: "int \<Rightarrow> char list" where
  "show_int x = (if x < 0 then CHR ''-'' # show_nat 10 (nat (- x)) else show_nat 10 (nat x))"

definition show_016x :: "64 word \<Rightarrow> char list" where
  "show_016x w =
     (let s = show_nat 16 (unat w) in replicate (16 - length s) (CHR ''0'') @ s)"

text \<open>
  \<open>snprintf(buf, size, ...)\<close> for a given formatted text: at most \<open>size - 1\<close> characters and a NUL
  are stored; the result is the length the text has.
\<close>

definition snprintf :: "char list \<Rightarrow> nat \<Rightarrow> char list \<Rightarrow> char list \<times> int" where
  "snprintf buf siz txt =
     (if siz = 0 then (buf, int (length txt))
      else let s = take (siz - 1) txt @ [NUL] in (s @ drop (length s) buf, int (length txt)))"

section \<open>Parsing\<close>

record strto =
  strto_value :: int
  strto_end :: nat
  strto_erange :: bool

text \<open>Whitespace, then a sign; result: whether it is negative, the rest.\<close>

definition strto_sign :: "char list \<Rightarrow> bool \<times> char list" where
  "strto_sign s =
     (case s of
        [] \<Rightarrow> (False, [])
      | c # t \<Rightarrow> if c = CHR ''-'' then (True, t) else if c = CHR ''+'' then (False, t) else (False, s))"

text \<open>The prefix that selects the base when it is given as 0.\<close>

definition strto_prefix :: "char list \<Rightarrow> nat \<times> char list" where
  "strto_prefix s =
     (case s of
        c # x # d # t \<Rightarrow>
          (if c = CHR ''0'' \<and> (x = CHR ''x'' \<or> x = CHR ''X'') \<and> is_digit 16 d then (16, d # t)
           else if c = CHR ''0'' then (8, s) else (10, s))
      | c # t \<Rightarrow> if c = CHR ''0'' then (8, s) else (10, s)
      | [] \<Rightarrow> (10, s))"

definition LLONG_MIN :: int where
  "LLONG_MIN = - (2 ^ 63)"

definition LLONG_MAX :: int where
  "LLONG_MAX = 2 ^ 63 - 1"

definition strtoll :: "char list \<Rightarrow> strto" where
  "strtoll s =
     (let (neg, t) = strto_sign (dropWhile is_space s);
          (base, u) = strto_prefix t;
          ds = takeWhile (is_digit base) u;
          n = int (digits_value base ds);
          v = (if neg then - n else n);
          e = length s - length u + length ds
      in if ds = [] then \<lparr>strto_value = 0, strto_end = 0, strto_erange = False\<rparr>
         else if LLONG_MAX < v then \<lparr>strto_value = LLONG_MAX, strto_end = e, strto_erange = True\<rparr>
         else if v < LLONG_MIN then \<lparr>strto_value = LLONG_MIN, strto_end = e, strto_erange = True\<rparr>
         else \<lparr>strto_value = v, strto_end = e, strto_erange = False\<rparr>)"

text \<open>\<open>sscanf(s, "%lx", &w)\<close>: \<open>None\<close> where no conversion happens (a result other than 1).\<close>

definition sscanf_lx :: "char list \<Rightarrow> 64 word option" where
  "sscanf_lx s =
     (let (neg, t) = strto_sign (dropWhile is_space s);
          u = (case strto_prefix t of (b, u) \<Rightarrow> if b = 16 then u else t);
          ds = takeWhile (is_digit 16) u;
          n = digits_value 16 ds
      in if ds = [] then None
         else if 2 ^ 64 \<le> n then Some (- 1)
         else Some (if neg then - of_nat n else of_nat n))"

section \<open>Printing, then parsing\<close>

lemma digits_value_snoc:
  "digits_value base (ds @ [c]) =
     digits_value base ds * base + (case digit_val c of None \<Rightarrow> 0 | Some d \<Rightarrow> d)"
  by (simp add: digits_value_def)

lemma digits_value_Nil [simp]: "digits_value base [] = 0"
  by (simp add: digits_value_def)

lemma digit_val_digit_char: "d < 36 \<Longrightarrow> digit_val (digit_char d) = Some d"
  by (auto simp: digit_val_def digit_char_def Let_def)

lemma is_digit_digit_char [simp]: "d < base \<Longrightarrow> base \<le> 36 \<Longrightarrow> is_digit base (digit_char d)"
  by (simp add: is_digit_def digit_val_digit_char)

lemma show_nat_digits:
  "2 \<le> base \<Longrightarrow> base \<le> 36 \<Longrightarrow> c \<in> set (show_nat base n) \<Longrightarrow> is_digit base c"
proof (induction base n rule: show_nat.induct)
  case (1 base n)
  then show ?case by (subst (asm) show_nat.simps) (auto split: if_splits)
qed

lemma digits_value_show_nat:
  "2 \<le> base \<Longrightarrow> base \<le> 36 \<Longrightarrow> digits_value base (show_nat base n) = n"
proof (induction base n rule: show_nat.induct)
  case (1 base n)
  show ?case
  proof (cases "n < base")
    case True
    with "1.prems" show ?thesis
      by (simp add: show_nat.simps [of base n] digits_value_def digit_val_digit_char)
  next
    case False
    have "n mod base < base" using "1.prems"(1) by simp
    with "1.prems"(2) have "n mod base < 36" by simp
    with False "1.prems" "1.IH" show ?thesis
      by (simp add: show_nat.simps [of base n] digits_value_snoc digit_val_digit_char)
  qed
qed

lemma show_nat_ne [simp]: "2 \<le> base \<Longrightarrow> show_nat base n \<noteq> []"
  by (subst show_nat.simps) auto

text \<open>A positive number is printed without a leading zero.\<close>

lemma hd_show_nat: "2 \<le> base \<Longrightarrow> base \<le> 36 \<Longrightarrow> 0 < n \<Longrightarrow> hd (show_nat base n) \<noteq> CHR ''0''"
proof (induction base n rule: show_nat.induct)
  case (1 base n)
  show ?case
  proof (cases "n < base")
    case True
    with "1.prems" have "digit_val (hd (show_nat base n)) = Some n"
      by (simp add: show_nat.simps [of base n] digit_val_digit_char)
    moreover have "digit_val (CHR ''0'') = Some 0" by (simp add: digit_val_def)
    ultimately show ?thesis using "1.prems"(3) by auto
  next
    case False
    with "1.prems" have "0 < n div base" by (simp add: div_greater_zero_iff)
    with False "1.prems" "1.IH" show ?thesis
      by (simp add: show_nat.simps [of base n])
  qed
qed

lemma length_show_nat: "2 \<le> base \<Longrightarrow> n < base ^ Suc k \<Longrightarrow> length (show_nat base n) \<le> Suc k"
proof (induction base n arbitrary: k rule: show_nat.induct)
  case (1 base n)
  show ?case
  proof (cases "n < base")
    case True
    with "1.prems" show ?thesis by (simp add: show_nat.simps [of base n])
  next
    case False
    with "1.prems" obtain m where m: "k = Suc m" by (cases k) auto
    with "1.prems" have "n div base < base ^ Suc m" by (simp add: less_mult_imp_div_less mult.commute)
    with False "1.prems" "1.IH" [of m] show ?thesis
      by (simp add: show_nat.simps [of base n] m)
  qed
qed

lemma not_digit_chars:
  "is_digit base c \<Longrightarrow> c \<noteq> CHR ''-'' \<and> c \<noteq> CHR ''+'' \<and> \<not> is_space c \<and> c \<noteq> NUL"
  by (auto simp: is_digit_def digit_val_def is_space_def Let_def split: option.splits if_splits)

lemma not_hex_x: "is_digit 16 c \<Longrightarrow> c \<noteq> CHR ''x'' \<and> c \<noteq> CHR ''X''"
  by (auto simp: is_digit_def digit_val_def Let_def split: option.splits if_splits)

lemma strto_sign_digits: "s \<noteq> [] \<Longrightarrow> is_digit base (hd s) \<Longrightarrow> strto_sign s = (False, s)"
  by (cases s) (auto simp: strto_sign_def dest: not_digit_chars)

lemma dropWhile_space_digits: "s \<noteq> [] \<Longrightarrow> is_digit base (hd s) \<Longrightarrow> dropWhile is_space s = s"
  by (cases s) (auto dest: not_digit_chars)

lemma hd_show_nat_digit [simp]: "2 \<le> base \<Longrightarrow> base \<le> 36 \<Longrightarrow> is_digit base (hd (show_nat base n))"
  by (rule show_nat_digits [of _ _ n]) auto

lemma digit_char_0 [simp]: "digit_char 0 = CHR ''0''"
  by (simp add: digit_char_def) code_simp

lemma digit_val_0 [simp]: "digit_val (CHR ''0'') = Some 0"
  by (simp add: digit_val_def)

lemma strto_prefix_show:
  "strto_prefix (show_nat 10 n) = (if n = 0 then 8 else 10, show_nat 10 n)"
proof (cases "n = 0")
  case True
  then show ?thesis by (simp add: show_nat.simps strto_prefix_def)
next
  case False
  then have "hd (show_nat 10 n) \<noteq> CHR ''0''" by (intro hd_show_nat) auto
  moreover have "show_nat 10 n \<noteq> []" by simp
  ultimately show ?thesis using False
    by (cases "show_nat 10 n") (auto simp: strto_prefix_def split: list.splits)
qed

lemma takeWhile_show:
  "takeWhile (is_digit (if n = 0 then 8 else 10)) (show_nat 10 n) = show_nat 10 n"
proof (cases "n = 0")
  case True
  then show ?thesis by (simp add: show_nat.simps is_digit_def digit_val_digit_char)
next
  case False
  then show ?thesis by (auto simp: takeWhile_eq_all_conv intro: show_nat_digits [of 10])
qed

lemma value_show: "digits_value (if n = 0 then 8 else 10) (show_nat 10 n) = n"
  using digits_value_show_nat [of 8 0] digits_value_show_nat [of 10 n]
  by (cases "n = 0") (simp_all add: show_nat.simps)

text \<open>The text \<open>%lld\<close> prints for a number in range is read back by \<open>strtoll\<close>, to its end.\<close>

lemma strtoll_show_int:
  assumes "LLONG_MIN \<le> x" "x \<le> LLONG_MAX"
  shows "strtoll (show_int x) =
    \<lparr>strto_value = x, strto_end = length (show_int x), strto_erange = False\<rparr>"
proof (cases "x < 0")
  case True
  define n where "n = nat (- x)"
  have x: "x = - int n" using True by (simp add: n_def)
  have sh: "show_int x = CHR ''-'' # show_nat 10 n" using True by (simp add: show_int_def n_def)
  have sp: "dropWhile is_space (show_int x) = show_int x" by (simp add: sh is_space_def)
  have sg: "strto_sign (show_int x) = (True, show_nat 10 n)" by (simp add: sh strto_sign_def)
  show ?thesis
    using assms
    by (simp add: strtoll_def Let_def sp sg strto_prefix_show takeWhile_show value_show x [symmetric])
      (simp add: sh)
next
  case False
  define n where "n = nat x"
  have x: "x = int n" using False by (simp add: n_def)
  have sh: "show_int x = show_nat 10 n" using False by (simp add: show_int_def n_def)
  have sp: "dropWhile is_space (show_int x) = show_int x"
    by (simp add: sh dropWhile_space_digits [of _ 10])
  have sg: "strto_sign (show_int x) = (False, show_nat 10 n)"
    by (simp add: sh strto_sign_digits [of _ 10])
  show ?thesis
    using assms
    by (simp add: strtoll_def Let_def sp sg strto_prefix_show takeWhile_show value_show x [symmetric])
      (simp add: sh)
qed

lemma show_int_no_NUL: "NUL \<notin> set (show_int x)"
  by (auto simp: show_int_def dest!: show_nat_digits [rotated 2] not_digit_chars)

lemma length_show_int:
  assumes "- (10 ^ Suc k) < x" "x < 10 ^ Suc k"
  shows "length (show_int x) \<le> Suc (Suc k)"
proof -
  define m :: nat where "m = 10 ^ Suc k"
  have "int m = 10 ^ Suc k" "0 < m" by (simp_all add: m_def)
  with assms have "nat (- x) < m" "nat x < m" by linarith+
  then have "nat (- x) < 10 ^ Suc k" "nat x < 10 ^ Suc k" by (simp_all add: m_def)
  then show ?thesis
    using length_show_nat [of 10 "nat (- x)" k] length_show_nat [of 10 "nat x" k]
    by (auto simp: show_int_def)
qed

lemma length_show_016x: "length (show_016x w) = 16"
proof -
  have "unat w < 16 ^ Suc 15" using unsigned_less [of w] by simp
  then have "length (show_nat 16 (unat w)) \<le> 16" using length_show_nat [of 16 "unat w" 15] by simp
  then show ?thesis by (simp add: show_016x_def Let_def)
qed

lemma show_016x_digits: "c \<in> set (show_016x w) \<Longrightarrow> is_digit 16 c"
  using show_nat_digits [of 16 c "unat w"]
  by (auto simp: show_016x_def Let_def is_digit_def)

lemma show_016x_no_NUL: "NUL \<notin> set (show_016x w)"
  by (auto dest: show_016x_digits not_digit_chars)

lemma digits_value_zeros: "digits_value base (replicate k (CHR ''0'') @ s) = digits_value base s"
proof -
  have "foldl (\<lambda>v c. v * base + (case digit_val c of None \<Rightarrow> 0 | Some d \<Rightarrow> d)) 0
      (replicate k (CHR ''0'')) = 0"
    by (induction k) auto
  then show ?thesis by (simp add: digits_value_def)
qed

text \<open>The sixteen hex digits \<open>%016lx\<close> prints are read back by \<open>%lx\<close>.\<close>

lemma sscanf_show_016x: "sscanf_lx (show_016x w) = Some w"
proof -
  let ?s = "show_016x w"
  have ne: "?s \<noteq> []" using length_show_016x [of w] by auto
  then have hd: "is_digit 16 (hd ?s)" by (intro show_016x_digits [of _ w]) auto
  have sp: "dropWhile is_space ?s = ?s" and sg: "strto_sign ?s = (False, ?s)"
    using dropWhile_space_digits [OF ne hd] strto_sign_digits [OF ne hd] by auto
  have pre: "(case strto_prefix ?s of (b, u) \<Rightarrow> if b = 16 then u else ?s) = ?s"
    using show_016x_digits [of _ w] not_hex_x
    by (auto simp: strto_prefix_def split: list.splits)
  have tw: "takeWhile (is_digit 16) ?s = ?s"
    using show_016x_digits [of _ w] by (simp add: takeWhile_eq_all_conv)
  have val: "digits_value 16 ?s = unat w"
    by (simp add: show_016x_def Let_def digits_value_zeros digits_value_show_nat)
  have "unat w < 2 ^ 64" using unsigned_less [of w] by simp
  then show ?thesis
    using ne by (simp add: sscanf_lx_def sp sg pre tw val)
qed

end
