(* ===== verification/Comm.thy ===== *)
theory Comm
  imports Common Cstd
begin

unbundle bit_operations_syntax

text \<open>
  \<open>src/src/comm.c\<close> and \<open>src/src/comm.h\<close>: the message that scheduler, clients and \<open>nvsharectl\<close>
  exchange, its layout on the wire, the generator of client IDs, the socket path, and the
  wrappers around the socket calls. The lemmas show that the packed layout is a lossless
  encoding of \<open>struct message\<close>, that the ID generator reaches every 64-bit value, that the path
  fits its buffer, and which errors the wrappers report; a socket that is created is closed on every
  later failure.
\<close>

section \<open>Messages\<close>

datatype message_type = REGISTER | SCHED_ON | SCHED_OFF | REQ_LOCK | LOCK_OK | DROP_LOCK
  | LOCK_RELEASED | SET_TQ

primrec message_type_code :: "message_type \<Rightarrow> 8 word" where
  "message_type_code REGISTER = 1"
| "message_type_code SCHED_ON = 2"
| "message_type_code SCHED_OFF = 3"
| "message_type_code REQ_LOCK = 4"
| "message_type_code LOCK_OK = 5"
| "message_type_code DROP_LOCK = 6"
| "message_type_code LOCK_RELEASED = 7"
| "message_type_code SET_TQ = 8"

text \<open>
  The enumeration is packed into one byte, and a received byte can have any value; the switch
  statements of the sources treat the values without a name in their \<open>default\<close> branch.
\<close>

definition message_type_of :: "8 word \<Rightarrow> message_type option" where
  "message_type_of b =
     find (\<lambda>t. message_type_code t = b)
       [REGISTER, SCHED_ON, SCHED_OFF, REQ_LOCK, LOCK_OK, DROP_LOCK, LOCK_RELEASED, SET_TQ]"

primrec message_type_string :: "message_type \<Rightarrow> string" where
  "message_type_string REQ_LOCK = ''REQ_LOCK''"
| "message_type_string LOCK_RELEASED = ''LOCK_RELEASED''"
| "message_type_string SCHED_ON = ''SCHED_ON''"
| "message_type_string SCHED_OFF = ''SCHED_OFF''"
| "message_type_string LOCK_OK = ''LOCK_OK''"
| "message_type_string DROP_LOCK = ''DROP_LOCK''"
| "message_type_string SET_TQ = ''SET_TQ''"
| "message_type_string REGISTER = ''REGISTER''"

definition MSG_DATA_LEN :: nat where "MSG_DATA_LEN = 20"
definition POD_NAME_LEN_MAX :: nat where "POD_NAME_LEN_MAX = 254"
definition POD_NAMESPACE_LEN_MAX :: nat where "POD_NAMESPACE_LEN_MAX = 254"

lemmas msg_sizes = MSG_DATA_LEN_def POD_NAME_LEN_MAX_def POD_NAMESPACE_LEN_MAX_def

record message =
  m_type :: "8 word"
  m_pod_name :: "char list"
  m_pod_namespace :: "char list"
  m_id :: "64 word"
  m_data :: "char list"

text \<open>\<open>sizeof(struct message)\<close>: the structure is packed, so it is the sum of its fields.\<close>

definition sizeof_message :: nat where
  "sizeof_message = 1 + POD_NAME_LEN_MAX + POD_NAMESPACE_LEN_MAX + 8 + MSG_DATA_LEN"

definition message_ok :: "message \<Rightarrow> bool" where
  "message_ok m \<longleftrightarrow> length (m_pod_name m) = POD_NAME_LEN_MAX
     \<and> length (m_pod_namespace m) = POD_NAMESPACE_LEN_MAX \<and> length (m_data m) = MSG_DATA_LEN"

text \<open>\<open>struct message msg = {0};\<close>\<close>

definition zero_message :: message where
  "zero_message = \<lparr>m_type = 0, m_pod_name = replicate POD_NAME_LEN_MAX NUL,
     m_pod_namespace = replicate POD_NAMESPACE_LEN_MAX NUL, m_id = 0,
     m_data = replicate MSG_DATA_LEN NUL\<rparr>"

text \<open>
  The program has no codec: it passes the address of a packed structure to \<open>write\<close> and \<open>send\<close> and reads into one. \<open>encode_message\<close> is the
  memory image of such a structure and \<open>decode_message\<close> the structure with a given image, with the layout that the declaration in \<open>comm.h\<close> has under the attribute
  \<open>packed\<close> on a little-endian machine; the theorem \<open>wire_format\<close> of theory \<open>Base_Props\<close> gives it byte by byte.
\<close>

fun le_bytes :: "nat \<Rightarrow> nat \<Rightarrow> char list" where
  "le_bytes 0 n = []"
| "le_bytes (Suc k) n = char_of (n mod 256) # le_bytes k (n div 256)"

fun le_value :: "char list \<Rightarrow> nat" where
  "le_value [] = 0"
| "le_value (c # cs) = of_char c + 256 * le_value cs"

definition encode_message :: "message \<Rightarrow> char list" where
  "encode_message m = char_of (unat (m_type m)) # m_pod_name m @ m_pod_namespace m
     @ le_bytes 8 (unat (m_id m)) @ m_data m"

definition decode_message :: "char list \<Rightarrow> message" where
  "decode_message bs =
     \<lparr>m_type = of_nat (of_char (hd bs)),
      m_pod_name = take POD_NAME_LEN_MAX (drop 1 bs),
      m_pod_namespace = take POD_NAMESPACE_LEN_MAX (drop (1 + POD_NAME_LEN_MAX) bs),
      m_id = of_nat (le_value (take 8 (drop (1 + POD_NAME_LEN_MAX + POD_NAMESPACE_LEN_MAX) bs))),
      m_data = take MSG_DATA_LEN (drop (9 + POD_NAME_LEN_MAX + POD_NAMESPACE_LEN_MAX) bs)\<rparr>"

lemma message_type_of_code [simp]: "message_type_of (message_type_code t) = Some t"
  by (cases t) (simp_all add: message_type_of_def)

lemma message_type_of_Some: "message_type_of b = Some t \<longleftrightarrow> b = message_type_code t"
proof
  show "message_type_of b = Some t \<Longrightarrow> b = message_type_code t"
    by (auto simp: message_type_of_def split: if_splits)
qed simp

lemma message_type_code_inj: "message_type_code t = message_type_code u \<longleftrightarrow> t = u"
  by (metis message_type_of_code option.inject)

lemma zero_message_ok [simp]: "message_ok zero_message"
  by (simp add: message_ok_def zero_message_def)

lemma message_ok_upd [simp]:
  "message_ok (m\<lparr>m_type := t\<rparr>) = message_ok m"
  "message_ok (m\<lparr>m_id := i\<rparr>) = message_ok m"
  by (simp_all add: message_ok_def)

lemma length_le_bytes [simp]: "length (le_bytes k n) = k"
  by (induction k arbitrary: n) auto

lemma le_value_le_bytes: "le_value (le_bytes k n) = n mod 256 ^ k"
proof (induction k arbitrary: n)
  case 0
  then show ?case by simp
next
  case (Suc k)
  have "n mod 256 + 256 * (n div 256 mod 256 ^ k) = n mod (256 * 256 ^ k)"
    by (simp add: mod_mult2_eq)
  with Suc show ?case by simp
qed

lemma length_encode_message [simp]: "message_ok m \<Longrightarrow> length (encode_message m) = sizeof_message"
  by (simp add: encode_message_def message_ok_def sizeof_message_def)

lemma sizeof_message_eq [simp]: "sizeof_message = 537"
  by (simp add: sizeof_message_def msg_sizes)

text \<open>What a peer decodes from the bytes of a message is that message.\<close>

lemma decode_encode_message: "message_ok m \<Longrightarrow> decode_message (encode_message m) = m"
proof -
  assume ok: "message_ok m"
  have "unat (m_type m) < 256" using unsigned_less [of "m_type m"] by simp
  then have t: "of_nat (unat (m_type m) mod 256) = m_type m" by simp
  have "unat (m_id m) < 256 ^ 8" using unsigned_less [of "m_id m"] by simp
  then have i: "of_nat (unat (m_id m) mod 256 ^ 8) = m_id m" by simp
  show ?thesis
    using ok t i
    by (simp add: decode_message_def encode_message_def message_ok_def le_value_le_bytes
        msg_sizes drop_Cons' del: le_bytes.simps)
qed

lemma message_ok_decode: "length bs = sizeof_message \<Longrightarrow> message_ok (decode_message bs)"
  by (simp add: message_ok_def decode_message_def msg_sizes)

section \<open>Client IDs\<close>

text \<open>\<open>rand()\<close> returns 31 bits; the list holds what the next calls return.\<close>

type_synonym rands = "31 word list"

definition IMAX_BITS :: "nat \<Rightarrow> nat" where
  "IMAX_BITS m = m div (m mod 255 + 1) div 255 mod 255 * 8 + 7 - 86 div (m mod 255 + 12)"

definition RAND_MAX :: nat where "RAND_MAX = 2147483647"

definition RAND_MAX_WIDTH :: nat where
  "RAND_MAX_WIDTH = IMAX_BITS RAND_MAX"

lemma RAND_MAX_WIDTH_eq [simp]: "RAND_MAX_WIDTH = 31"
  by (simp add: RAND_MAX_WIDTH_def IMAX_BITS_def RAND_MAX_def)

fun generate_id_loop :: "nat \<Rightarrow> 64 word \<Rightarrow> rands \<Rightarrow> (64 word \<times> rands) res" where
  "generate_id_loop i r rs =
     (if i < 64 then
        case rs of
          [] \<Rightarrow> Inl Blocked
        | x # rs' \<Rightarrow> generate_id_loop (i + RAND_MAX_WIDTH) (push_bit RAND_MAX_WIDTH r XOR ucast x) rs'
      else Inr (r, rs))"

declare generate_id_loop.simps [simp del]

definition nvshare_generate_id :: "rands \<Rightarrow> (64 word \<times> rands) res" where
  "nvshare_generate_id rs = generate_id_loop 0 0 rs"

lemma nvshare_generate_id_eq:
  "nvshare_generate_id (x # y # z # rs) =
     Inr (push_bit 62 (ucast x) XOR push_bit 31 (ucast y) XOR ucast z, rs)"
  by (simp add: nvshare_generate_id_def generate_id_loop.simps push_bit_xor xor.assoc)

lemma nvshare_generate_id_short: "length rs < 3 \<Longrightarrow> nvshare_generate_id rs = Inl Blocked"
  by (auto simp: nvshare_generate_id_def generate_id_loop.simps split: list.splits)

lemma nvshare_generate_id_Inr:
  "nvshare_generate_id rs = Inr (i, rs') \<Longrightarrow> \<exists>x y z. rs = x # y # z # rs'"
proof -
  assume r: "nvshare_generate_id rs = Inr (i, rs')"
  then have "\<not> length rs < 3" using nvshare_generate_id_short by fastforce
  then obtain x y z us where "rs = x # y # z # us"
    by (metis One_nat_def Suc_1 Suc_less_eq length_Cons list.exhaust list.size(3) numeral_3_eq_3
        zero_less_Suc)
  with r show ?thesis by (simp add: nvshare_generate_id_eq)
qed

lemma nvshare_generate_id_fault: "nvshare_generate_id rs = Inl f \<Longrightarrow> f = Blocked"
proof -
  assume r: "nvshare_generate_id rs = Inl f"
  show ?thesis
  proof (cases "length rs < 3")
    case True
    with r show ?thesis by (simp add: nvshare_generate_id_short)
  next
    case False
    then obtain x y z us where "rs = x # y # z # us"
      by (metis One_nat_def Suc_1 Suc_less_eq length_Cons list.exhaust list.size(3) numeral_3_eq_3
          zero_less_Suc)
    with r show ?thesis by (simp add: nvshare_generate_id_eq)
  qed
qed

text \<open>Every 64-bit value is generated from some three values of \<open>rand()\<close>.\<close>

lemma nvshare_generate_id_onto:
  "nvshare_generate_id [ucast (drop_bit 62 w), ucast (drop_bit 31 w), ucast w] = Inr (w, [])"
proof -
  have "push_bit 62 (ucast (ucast (drop_bit 62 w) :: 31 word))
      XOR push_bit 31 (ucast (ucast (drop_bit 31 w) :: 31 word))
      XOR ucast (ucast w :: 31 word) = w"
    by (rule bit_word_eqI)
      (auto simp: bit_simps)
  then show ?thesis by (simp add: nvshare_generate_id_eq)
qed

section \<open>The socket path\<close>

definition NVSHARE_SOCK_PATH_MAX :: nat where "NVSHARE_SOCK_PATH_MAX = 108"

definition NVSHARE_SOCK_DIR :: string where "NVSHARE_SOCK_DIR = ''/var/run/nvshare/''"

text \<open>The destination buffer has \<open>NVSHARE_SOCK_PATH_MAX\<close> bytes; a literal ends with its NUL.\<close>

definition nvshare_get_scheduler_path :: "char list \<Rightarrow> (int \<times> char list) res" where
  "nvshare_get_scheduler_path sock_path =
     bindR (strlcpy sock_path (NVSHARE_SOCK_DIR @ [NUL]) NVSHARE_SOCK_PATH_MAX) (\<lambda>(buf, offset).
       let (tl, _) = snprintf (drop offset buf) (NVSHARE_SOCK_PATH_MAX - offset) ''scheduler.sock''
       in Inr (0, take offset buf @ tl))"

definition scheduler_path :: string where
  "scheduler_path = ''/var/run/nvshare/scheduler.sock''"

lemma nvshare_get_scheduler_path_eq:
  assumes "length buf = NVSHARE_SOCK_PATH_MAX"
  shows "nvshare_get_scheduler_path buf =
    Inr (0, scheduler_path @ NUL # drop (Suc (length scheduler_path)) buf)"
proof -
  have c: "cstr (NVSHARE_SOCK_DIR @ [NUL]) = NVSHARE_SOCK_DIR"
    by (rule cstr_terminated) (simp add: NVSHARE_SOCK_DIR_def)
  have "strlcpy buf (NVSHARE_SOCK_DIR @ [NUL]) NVSHARE_SOCK_PATH_MAX =
    Inr (NVSHARE_SOCK_DIR @ NUL # drop (Suc (length NVSHARE_SOCK_DIR)) buf, 17)"
    using assms
    by (subst strlcpy_string) (simp_all add: c, simp_all add: NVSHARE_SOCK_DIR_def NVSHARE_SOCK_PATH_MAX_def)
  then show ?thesis
    by (simp add: nvshare_get_scheduler_path_def snprintf_def NVSHARE_SOCK_PATH_MAX_def
        NVSHARE_SOCK_DIR_def scheduler_path_def)
qed

section \<open>Sockets\<close>

text \<open>
  The result of the wrappers: return value, the socket written through the pointer argument, and
  errno. \<open>struct sockaddr_un\<close> is zeroed, then the path is copied into \<open>sun_path\<close>.
\<close>

type_synonym sockres = "(int \<times> int \<times> errno \<times> kernel) res"

definition nvshare_unix_bind :: "char list \<Rightarrow> kernel \<Rightarrow> sockres" where
  "nvshare_unix_bind path k =
     bindR (sys Sys_socket k) (\<lambda>(a, k).
       if ret a < 0 then Inr (- 1, ret a, err a, k)
       else bindR (strlcpy (replicate NVSHARE_SOCK_PATH_MAX NUL) path NVSHARE_SOCK_PATH_MAX) (\<lambda>(sun_path, _).
       bindR (sys (Sys_unlink (cstr path)) k) (\<lambda>(u, k).
         if ret u < 0 \<and> err u \<noteq> ENOENT
         then bindR (sys (Sys_close (ret a)) k) (\<lambda>(_, k). Inr (- 1, ret a, err u, k))
         else bindR (sys (Sys_bind (ret a) (cstr sun_path)) k) (\<lambda>(b, k).
           if ret b < 0
           then bindR (sys (Sys_close (ret a)) k) (\<lambda>(_, k). Inr (- 1, ret a, err b, k))
           else Inr (ret b, ret a, 0, k)))))"

definition nvshare_unix_connect :: "char list \<Rightarrow> kernel \<Rightarrow> sockres" where
  "nvshare_unix_connect path k =
     bindR (sys Sys_socket k) (\<lambda>(a, k).
       if ret a < 0 then Inr (- 1, ret a, err a, k)
       else bindR (strlcpy (replicate NVSHARE_SOCK_PATH_MAX NUL) path NVSHARE_SOCK_PATH_MAX) (\<lambda>(sun_path, _).
       bindR (sys (Sys_connect (ret a) (cstr sun_path)) k) (\<lambda>(c, k).
         if ret c \<noteq> 0
         then bindR (sys (Sys_close (ret a)) k) (\<lambda>(_, k). Inr (- 1, ret a, err c, k))
         else Inr (ret c, ret a, 0, k))))"

text \<open>
  When \<open>nvshare_unix_bind\<close> fails it has returned -1, and the \<open>errno = -ret\<close> at the label \<open>out\<close> turns
  that -1 into errno 1.
\<close>

definition nvshare_bind_and_listen :: "char list \<Rightarrow> kernel \<Rightarrow> sockres" where
  "nvshare_bind_and_listen sock_path k =
     bindR (nvshare_unix_bind sock_path k) (\<lambda>(r, lsock, e, k).
       if r < 0 then Inr (- 1, lsock, - r, k)
       else bindR (sys (Sys_listen lsock) k) (\<lambda>(l, k).
         if ret l < 0
         then bindR (sys (Sys_close lsock) k) (\<lambda>(_, k). Inr (- 1, lsock, err l, k))
         else Inr (ret l, lsock, 0, k)))"

lemma nvshare_unix_connect_shorter:
  "post (nvshare_unix_connect path k) (\<lambda>(r, sock, e, k'). length (answers k') < length (answers k))"
  by (auto simp: nvshare_unix_connect_def post split: prod.splits)

function nvshare_connect :: "char list \<Rightarrow> kernel \<Rightarrow> sockres" where
  "nvshare_connect rpath k =
     bindR (nvshare_unix_connect rpath k) (\<lambda>(r, sock, e, k').
       if r < 0 \<and> e = EINTR then nvshare_connect rpath k' else Inr (r, sock, e, k'))"
  by pat_completeness auto
termination
  by (relation "measure (\<lambda>(p, k). length (answers k))") (auto dest: post_D [OF nvshare_unix_connect_shorter])

declare nvshare_connect.simps [simp del]

definition nvshare_accept :: "int \<Rightarrow> kernel \<Rightarrow> sockres" where
  "nvshare_accept lsock k =
     bindR (retry_intr (Sys_accept4 lsock) k) (\<lambda>(a, k).
       if ret a < 0 then Inr (- 1, - 1, err a, k) else Inr (0, ret a, 0, k))"

definition nvshare_send_noblock :: "int \<Rightarrow> char list \<Rightarrow> kernel \<Rightarrow> (sysret \<times> kernel) res" where
  "nvshare_send_noblock rsock msg k = retry_intr (Sys_write rsock msg) k"

text \<open>\<open>memset\<close> of the buffer, then one \<open>read\<close> into its start.\<close>

definition zero_fill :: "nat \<Rightarrow> char list \<Rightarrow> char list" where
  "zero_fill count bs = bs @ replicate (count - length bs) NUL"

definition nvshare_receive_noblock :: "int \<Rightarrow> nat \<Rightarrow> kernel \<Rightarrow> (sysret \<times> char list \<times> kernel) res" where
  "nvshare_receive_noblock rsock count k =
     bindR (retry_intr (Sys_read rsock count) k) (\<lambda>(a, k).
       Inr (a, zero_fill count (take (nat (ret a)) (bytes a)), k))"

definition nvshare_receive_block :: "int \<Rightarrow> nat \<Rightarrow> kernel \<Rightarrow> (int \<times> char list \<times> kernel) res" where
  "nvshare_receive_block rsock count k =
     bindR (read_whole rsock count k) (\<lambda>(n, buf, k). Inr (to_int32 n, zero_fill count buf, k))"

subsection \<open>What the wrappers report\<close>

text \<open>The calls made between two kernel states.\<close>

definition new_calls :: "kernel \<Rightarrow> kernel \<Rightarrow> syscall list" where
  "new_calls k k' = map fst (drop (length (calls k)) (calls k'))"

lemma nvshare_unix_bind_post:
  "post (nvshare_unix_bind path k) (\<lambda>(r, sock, e, k').
     (r < 0 \<longrightarrow> r = - 1 \<and> (0 \<le> sock \<longrightarrow> Sys_close sock \<in> set (new_calls k k')))
     \<and> (0 \<le> r \<longrightarrow> 0 \<le> sock \<and> Sys_close sock \<notin> set (new_calls k k'))
     \<and> (\<exists>cs. calls k' = calls k @ cs))"
  by (auto simp: nvshare_unix_bind_def new_calls_def post split: prod.splits)

text \<open>
  After a failure of \<open>nvshare_bind_and_listen\<close> the socket it had created is closed; after a success
  it is open.
\<close>

lemma nvshare_bind_and_listen_post:
  "post (nvshare_bind_and_listen path k) (\<lambda>(r, sock, e, k').
     (r < 0 \<longrightarrow> (0 \<le> sock \<longrightarrow> Sys_close sock \<in> set (new_calls k k')))
     \<and> (0 \<le> r \<longrightarrow> 0 \<le> sock \<and> Sys_close sock \<notin> set (new_calls k k')))"
  unfolding nvshare_bind_and_listen_def post
  by (rule post_mono [OF nvshare_unix_bind_post]) (auto simp: new_calls_def post split: prod.splits)

text \<open>
  The errno that \<open>nvshare_bind_and_listen\<close> leaves after a failure to create, clear or bind the
  socket is 1 (\<open>EPERM\<close>), whatever the kernel had reported.
\<close>

lemma nvshare_bind_and_listen_errno:
  assumes "nvshare_unix_bind path k = Inr (r, sock, e, k1)" "r < 0"
  shows "nvshare_bind_and_listen path k = Inr (- 1, sock, EPERM, k1)"
  using assms post_D [OF nvshare_unix_bind_post assms(1)]
  by (simp add: nvshare_bind_and_listen_def)

lemma nvshare_unix_connect_result:
  "post (nvshare_unix_connect p k) (\<lambda>(r, sock, e, k'). (r = 0 \<or> r = - 1))"
  by (auto simp: nvshare_unix_connect_def post split: prod.splits)

lemma nvshare_connect_result:
  "post (nvshare_connect p k) (\<lambda>(r, sock, e, k'). \<not> (r < 0 \<and> e = EINTR) \<and> (r = 0 \<or> r = - 1))"
proof (induction p k rule: nvshare_connect.induct)
  case (1 p k)
  show ?case
  proof (rule post_I)
    fix x assume x: "nvshare_connect p k = Inr x"
    obtain r1 s1 e1 k1 where c: "nvshare_unix_connect p k = Inr (r1, s1, e1, k1)"
      using x by (subst (asm) nvshare_connect.simps) (auto simp: bindR_Inr_iff)
    show "case x of (r, sock, e, k') \<Rightarrow> \<not> (r < 0 \<and> e = EINTR) \<and> (r = 0 \<or> r = - 1)"
    proof (cases "r1 < 0 \<and> e1 = EINTR")
      case True
      with x c have "nvshare_connect p k1 = Inr x" by (simp add: nvshare_connect.simps [of p k])
      with "1.IH" [OF c refl refl refl True] show ?thesis by (rule post_D)
    next
      case False
      with x c have "x = (r1, s1, e1, k1)" by (auto simp: nvshare_connect.simps [of p k])
      with False post_D [OF nvshare_unix_connect_result c] show ?thesis by simp
    qed
  qed
qed

lemma nvshare_accept_result:
  "post (nvshare_accept l k) (\<lambda>(r, sock, e, k'). (r = 0 \<and> 0 \<le> sock) \<or> (r = - 1 \<and> e \<noteq> EINTR))"
  by (auto simp: nvshare_accept_def post post_retry_intr dest: retry_intr_result)

lemma length_zero_fill [simp]: "length bs \<le> count \<Longrightarrow> length (zero_fill count bs) = count"
  by (simp add: zero_fill_def)

text \<open>A full message that arrives in any number of pieces is received as sent.\<close>

lemma nvshare_receive_block_message:
  assumes "message_ok m" "concat ps = encode_message m" "\<forall>p \<in> set ps. p \<noteq> []"
    and "answers k = map piece ps @ as"
  shows "\<exists>k'. nvshare_receive_block fd sizeof_message k = Inr (int sizeof_message, encode_message m, k')
    \<and> answers k' = as"
proof -
  have len: "length (concat ps) = 537" using assms(1,2) by simp
  have "length p \<le> 537" if "p \<in> set ps" for p
    using split_list [OF that] len by auto
  then have "\<forall>p \<in> set ps. p \<noteq> [] \<and> length p < 2 ^ 31" using assms(3) by fastforce
  from read_loop_pieces [OF this, of "[]" sizeof_message k as fd] len assms(2,4)
  show ?thesis by (auto simp: nvshare_receive_block_def read_whole_def zero_fill_def)
qed

end
