(* ===== verification/Utlist.thy ===== *)
theory Utlist
  imports Prelude
begin

text \<open>
  The singly linked list macros of \<open>src/src/utlist.h\<close> that the scheduler and the hook library
  use: \<open>LL_APPEND\<close>, \<open>LL_DELETE\<close> and \<open>LL_FOREACH_SAFE\<close>, on an explicit store of \<open>next\<close> fields. A
  pointer is \<open>'a option\<close> (\<open>None\<close> is NULL). The loops of the macros chase pointers and run forever
  on a cyclic list, so they are \<^theory_text>\<open>partial_function (option)\<close> and their theorems state that they return.

  The predicate \<open>ll_repr\<close> says which list of nodes a head pointer stands for. The macros are
  shown to refine appending, removing one element and filtering on lists; the locale \<open>linked_list\<close> is
  that contract, and the other components use lists in place of the macros on its strength.
\<close>

section \<open>The store and the macros\<close>

record 'a llist =
  ll_head :: "'a option"
  ll_next :: "'a \<Rightarrow> 'a option"

text \<open>\<open>while (_tmp->next) _tmp = _tmp->next;\<close> : the last node from a given one.\<close>

partial_function (option) ll_last :: "('a \<Rightarrow> 'a option) \<Rightarrow> 'a \<Rightarrow> 'a option" where
  "ll_last nxt tmp = (case nxt tmp of None \<Rightarrow> Some tmp | Some q \<Rightarrow> ll_last nxt q)"

definition LL_APPEND :: "'a \<Rightarrow> 'a llist \<Rightarrow> 'a llist option" where
  "LL_APPEND add l =
     (let nxt = (ll_next l)(add := None) in
      case ll_head l of
        Some h \<Rightarrow> (case ll_last nxt h of
            None \<Rightarrow> None
          | Some tmp \<Rightarrow> Some (l\<lparr>ll_next := nxt(tmp := Some add)\<rparr>))
      | None \<Rightarrow> Some (l\<lparr>ll_head := Some add, ll_next := nxt\<rparr>))"

text \<open>\<open>while (_tmp->next && (_tmp->next != (del))) _tmp = _tmp->next;\<close>\<close>

partial_function (option) ll_seek :: "('a \<Rightarrow> 'a option) \<Rightarrow> 'a \<Rightarrow> 'a \<Rightarrow> 'a option" where
  "ll_seek nxt del tmp =
     (case nxt tmp of
        None \<Rightarrow> Some tmp
      | Some q \<Rightarrow> if q = del then Some tmp else ll_seek nxt del q)"

text \<open>
  The result is \<open>None\<close> where the macro does not return: on a cyclic list, and when it reads
  through a NULL head.
\<close>

definition LL_DELETE :: "'a \<Rightarrow> 'a llist \<Rightarrow> 'a llist option" where
  "LL_DELETE del l =
     (if ll_head l = Some del then Some (l\<lparr>ll_head := ll_next l del\<rparr>)
      else case ll_head l of
        None \<Rightarrow> None
      | Some h \<Rightarrow> (case ll_seek (ll_next l) del h of
            None \<Rightarrow> None
          | Some tmp \<Rightarrow>
              (if ll_next l tmp = None then Some l
               else Some (l\<lparr>ll_next := (ll_next l)(tmp := ll_next l del)\<rparr>))))"

text \<open>
  \<open>LL_FOREACH_SAFE\<close> reads the successor \<open>tmp\<close> of the current node before the body runs, so the
  body may unlink and free the node.
\<close>

partial_function (option) LL_FOREACH_SAFE ::
  "('a \<Rightarrow> 'a llist \<Rightarrow> 'a llist option) \<Rightarrow> 'a option \<Rightarrow> 'a llist \<Rightarrow> 'a llist option" where
  "LL_FOREACH_SAFE body el l =
     (case el of
        None \<Rightarrow> Some l
      | Some e \<Rightarrow> (let tmp = ll_next l e in
          Option.bind (body e l) (\<lambda>l'. LL_FOREACH_SAFE body tmp l')))"

text \<open>The loop \<open>LL_FOREACH_SAFE(head, e, tmp) if (P e) { LL_DELETE(head, e); free(e); }\<close> of
  \<open>remove_req\<close>, \<open>delete_client\<close> and \<open>remove_cuda_allocation\<close>.\<close>

definition ll_sweep :: "('a \<Rightarrow> bool) \<Rightarrow> 'a llist \<Rightarrow> 'a llist option" where
  "ll_sweep P l = LL_FOREACH_SAFE (\<lambda>e l. if P e then LL_DELETE e l else Some l) (ll_head l) l"

section \<open>Which list a head pointer stands for\<close>

primrec ll_path :: "('a \<Rightarrow> 'a option) \<Rightarrow> 'a option \<Rightarrow> 'a list \<Rightarrow> 'a option \<Rightarrow> bool" where
  "ll_path nxt p [] q = (p = q)"
| "ll_path nxt p (x # xs) q = (p = Some x \<and> ll_path nxt (nxt x) xs q)"

definition ll_repr :: "'a llist \<Rightarrow> 'a list \<Rightarrow> bool" where
  "ll_repr l xs \<longleftrightarrow> ll_path (ll_next l) (ll_head l) xs None"

lemma ll_path_append [simp]:
  "ll_path nxt p (xs @ ys) q \<longleftrightarrow> (\<exists>m. ll_path nxt p xs m \<and> ll_path nxt m ys q)"
  by (induction xs arbitrary: p) auto

lemma ll_path_upd [simp]: "x \<notin> set xs \<Longrightarrow> ll_path (nxt(x := v)) p xs q = ll_path nxt p xs q"
  by (induction xs arbitrary: p) auto

lemma ll_path_cong: "(\<And>x. x \<in> set xs \<Longrightarrow> nxt' x = nxt x) \<Longrightarrow>
    ll_path nxt' p xs q = ll_path nxt p xs q"
  by (induction xs arbitrary: p) auto

lemma ll_path_det: "ll_path nxt p xs None \<Longrightarrow> ll_path nxt p ys None \<Longrightarrow> xs = ys"
proof (induction xs arbitrary: p ys)
  case Nil
  then show ?case by (cases ys) auto
next
  case (Cons x xs)
  then show ?case by (cases ys) auto
qed

lemma ll_path_head_notin: "ll_path nxt (nxt x) xs None \<Longrightarrow> x \<notin> set xs"
proof
  assume path: "ll_path nxt (nxt x) xs None" and "x \<in> set xs"
  then obtain ys zs where xs: "xs = ys @ x # zs" by (meson split_list)
  with path have "ll_path nxt (nxt x) zs None" by auto
  with path have "xs = zs" by (rule ll_path_det)
  with xs show False by simp
qed

text \<open>A list that ends in NULL has no node twice.\<close>

lemma ll_path_distinct: "ll_path nxt p xs None \<Longrightarrow> distinct xs"
  by (induction xs arbitrary: p) (auto dest: ll_path_head_notin)

lemma ll_repr_distinct: "ll_repr l xs \<Longrightarrow> distinct xs"
  by (auto simp: ll_repr_def dest: ll_path_distinct)

section \<open>The loops return\<close>

lemma ll_last_path:
  "ll_path nxt (Some p) xs None \<Longrightarrow> ll_last nxt p = Some (last xs)"
proof (induction xs arbitrary: p)
  case Nil
  then show ?case by simp
next
  case (Cons x xs)
  then show ?case
    by (cases xs) (auto simp: ll_last.simps [of nxt x])
qed

lemma ll_seek_path:
  assumes "ll_path nxt (Some p) (ys @ d # zs) None" "d \<noteq> p" "d \<notin> set ys"
  shows "ll_seek nxt d p = Some (last ys)"
  using assms
proof (induction ys arbitrary: p)
  case Nil
  then show ?case by simp
next
  case (Cons y ys)
  then show ?case
    by (cases ys) (auto simp: ll_seek.simps [of nxt d y])
qed

section \<open>The macros refine list operations\<close>

lemma ll_path_snoc:
  "ll_path nxt p xs None \<Longrightarrow> a \<notin> set xs \<Longrightarrow> xs \<noteq> [] \<Longrightarrow> nxt a = None \<Longrightarrow>
   ll_path (nxt(last xs := Some a)) p (xs @ [a]) None"
proof (induction xs arbitrary: p)
  case Nil
  then show ?case by simp
next
  case (Cons x xs)
  have "x \<notin> set xs" using Cons.prems(1) by (auto dest: ll_path_head_notin)
  with Cons show ?case by (cases "xs = []") auto
qed

lemma LL_APPEND_refines:
  assumes "ll_repr l xs" "a \<notin> set xs"
  shows "\<exists>l'. LL_APPEND a l = Some l' \<and> ll_repr l' (xs @ [a])"
proof (cases xs)
  case Nil
  with assms show ?thesis by (simp add: LL_APPEND_def ll_repr_def)
next
  case (Cons x ys)
  let ?nxt = "(ll_next l)(a := None)"
  have path: "ll_path ?nxt (Some x) xs None" and hd: "ll_head l = Some x"
    using assms Cons by (auto simp: ll_repr_def)
  have "ll_path (?nxt(last xs := Some a)) (Some x) (xs @ [a]) None"
    using path assms(2) Cons by (intro ll_path_snoc) auto
  with ll_last_path [OF path] hd show ?thesis
    by (simp add: LL_APPEND_def ll_repr_def)
qed

lemma ll_path_bypass:
  "ll_path nxt p (ys @ d # zs) None \<Longrightarrow> ys \<noteq> [] \<Longrightarrow>
   ll_path (nxt(last ys := nxt d)) p (ys @ zs) None"
proof (induction ys arbitrary: p)
  case Nil
  then show ?case by simp
next
  case (Cons y ys)
  have dist: "distinct (y # ys @ d # zs)"
    using Cons.prems(1) ll_path_distinct [of nxt p "y # ys @ d # zs"] by auto
  with Cons show ?case
    by (cases "ys = []") (auto simp: fun_upd_def [symmetric])
qed

text \<open>Unlinking a node writes no \<open>next\<close> field but that of a node before it.\<close>

lemma LL_DELETE_at:
  assumes "ll_repr l (ys @ d # zs)"
  shows "\<exists>l'. LL_DELETE d l = Some l' \<and> ll_repr l' (ys @ zs)
    \<and> (\<forall>y. y \<notin> set ys \<longrightarrow> ll_next l' y = ll_next l y)"
proof (cases ys)
  case Nil
  with assms show ?thesis by (simp add: LL_DELETE_def ll_repr_def)
next
  case (Cons h ts)
  have path: "ll_path (ll_next l) (Some h) (ys @ d # zs) None" and hd: "ll_head l = Some h"
    using assms Cons by (auto simp: ll_repr_def)
  have ys: "d \<notin> set ys" using ll_repr_distinct [OF assms] by auto
  have seek: "ll_seek (ll_next l) d h = Some (last ys)"
    using path ys Cons by (intro ll_seek_path) auto
  have "ll_path (ll_next l) (Some h) (butlast ys @ [last ys] @ d # zs) None"
    using path Cons by (metis append_assoc append_butlast_last_id list.distinct(1))
  then have nx: "ll_next l (last ys) = Some d" by auto
  have "ll_path ((ll_next l)(last ys := ll_next l d)) (Some h) (ys @ zs) None"
    using path Cons by (intro ll_path_bypass) auto
  moreover have "last ys \<in> set ys" using Cons by auto
  ultimately show ?thesis
    using hd seek nx ys Cons by (auto simp: LL_DELETE_def ll_repr_def)
qed

lemma LL_DELETE_refines:
  assumes "ll_repr l xs" "d \<in> set xs"
  shows "\<exists>l'. LL_DELETE d l = Some l' \<and> ll_repr l' (remove1 d xs)"
proof -
  obtain ys zs where xs: "xs = ys @ d # zs" and "d \<notin> set ys"
    using split_list_first [OF assms(2)] by auto
  then have "remove1 d xs = ys @ zs" by (simp add: remove1_append)
  with LL_DELETE_at [of l ys d zs] assms(1) xs show ?thesis by auto
qed

text \<open>
  The sweep: while the loop is at the node after a prefix \<open>ys\<close> of kept nodes, the list stands
  for \<open>ys @ zs\<close>; the loop keeps the nodes of \<open>zs\<close> that fail the test.
\<close>

lemma LL_FOREACH_SAFE_delete:
  assumes "ll_repr l (ys @ zs)" and "ll_path (ll_next l) el zs None"
  shows "\<exists>l'. LL_FOREACH_SAFE (\<lambda>e l. if P e then LL_DELETE e l else Some l) el l = Some l'
    \<and> ll_repr l' (ys @ filter (\<lambda>x. \<not> P x) zs)"
  using assms
proof (induction zs arbitrary: l ys el)
  case Nil
  then show ?case by (simp add: LL_FOREACH_SAFE.simps)
next
  case (Cons z zs)
  let ?body = "\<lambda>e l. if P e then LL_DELETE e l else Some l"
  have el: "el = Some z" and rest: "ll_path (ll_next l) (ll_next l z) zs None"
    using Cons.prems(2) by auto
  have dist: "distinct (ys @ z # zs)" using Cons.prems(1) by (rule ll_repr_distinct)
  show ?case
  proof (cases "P z")
    case False
    with Cons.prems(1) rest Cons.IH [of l "ys @ [z]" "ll_next l z"] show ?thesis
      by (simp add: el LL_FOREACH_SAFE.simps [of _ "Some z"])
  next
    case True
    obtain l' where del: "LL_DELETE z l = Some l'" and r: "ll_repr l' (ys @ zs)"
      and frame: "\<And>y. y \<notin> set ys \<Longrightarrow> ll_next l' y = ll_next l y"
      using LL_DELETE_at [OF Cons.prems(1)] by auto
    have "ll_next l' x = ll_next l x" if "x \<in> set zs" for x
      using that frame dist by auto
    then have "ll_path (ll_next l') (ll_next l z) zs None"
      using rest by (subst ll_path_cong [of zs "ll_next l'" "ll_next l"]) auto
    from Cons.IH [OF r this] del True show ?thesis
      by (simp add: el LL_FOREACH_SAFE.simps [of _ "Some z"])
  qed
qed

lemma ll_sweep_refines:
  assumes "ll_repr l xs"
  shows "\<exists>l'. ll_sweep P l = Some l' \<and> ll_repr l' (filter (\<lambda>x. \<not> P x) xs)"
  using LL_FOREACH_SAFE_delete [of l "[]" xs "ll_head l" P] assms
  by (simp add: ll_sweep_def ll_repr_def)

section \<open>The contract of a linked list\<close>

text \<open>
  What the users of the macros rely on: appending, unlinking one node and the sweep return and
  act on the represented list as \<open>@\<close>, \<open>remove1\<close> and \<open>filter\<close>.
\<close>

locale linked_list =
  fixes nil :: 'l
    and append :: "'a \<Rightarrow> 'l \<Rightarrow> 'l option"
    and delete :: "'a \<Rightarrow> 'l \<Rightarrow> 'l option"
    and sweep :: "('a \<Rightarrow> bool) \<Rightarrow> 'l \<Rightarrow> 'l option"
    and repr :: "'l \<Rightarrow> 'a list \<Rightarrow> bool"
  assumes repr_nil: "repr nil []"
    and repr_append: "repr l xs \<Longrightarrow> a \<notin> set xs \<Longrightarrow> \<exists>l'. append a l = Some l' \<and> repr l' (xs @ [a])"
    and repr_delete: "repr l xs \<Longrightarrow> d \<in> set xs \<Longrightarrow> \<exists>l'. delete d l = Some l' \<and> repr l' (remove1 d xs)"
    and repr_sweep: "repr l xs \<Longrightarrow> \<exists>l'. sweep P l = Some l' \<and> repr l' (filter (\<lambda>x. \<not> P x) xs)"
    and repr_distinct: "repr l xs \<Longrightarrow> distinct xs"
begin

text \<open>A node that is unlinked and appended again is last, the others keep their order.\<close>

lemma requeue:
  assumes "repr l xs" "a \<in> set xs"
  shows "\<exists>l'. Option.bind (delete a l) (append a) = Some l' \<and> repr l' (remove1 a xs @ [a])"
proof -
  obtain l1 where l1: "delete a l = Some l1" "repr l1 (remove1 a xs)"
    using repr_delete [OF assms] by blast
  moreover have "a \<notin> set (remove1 a xs)" using repr_distinct [OF assms(1)] by simp
  ultimately show ?thesis using repr_append by fastforce
qed

text \<open>Appending a sequence of new nodes one by one keeps the order of arrival.\<close>

lemma append_all:
  assumes "repr l xs" "distinct as" "set as \<inter> set xs = {}"
  shows "\<exists>l'. foldl (\<lambda>m a. Option.bind m (append a)) (Some l) as = Some l' \<and> repr l' (xs @ as)"
  using assms
proof (induction as arbitrary: l xs)
  case Nil
  then show ?case by simp
next
  case (Cons a as)
  obtain l1 where "append a l = Some l1" "repr l1 (xs @ [a])"
    using repr_append [OF Cons.prems(1), of a] Cons.prems(3) by auto
  with Cons.IH [of l1 "xs @ [a]"] Cons.prems show ?case by auto
qed

text \<open>Sweeping twice with the same test removes nothing more.\<close>

lemma sweep_idem:
  assumes "repr l xs"
  shows "\<exists>l1 l2. sweep P l = Some l1 \<and> sweep P l1 = Some l2
    \<and> repr l1 (filter (\<lambda>x. \<not> P x) xs) \<and> repr l2 (filter (\<lambda>x. \<not> P x) xs)"
proof -
  obtain l1 where l1: "sweep P l = Some l1" "repr l1 (filter (\<lambda>x. \<not> P x) xs)"
    using repr_sweep [OF assms] by blast
  with repr_sweep [OF l1(2), of P] show ?thesis by auto
qed

end

definition ll_empty :: "'a llist" where
  "ll_empty = \<lparr>ll_head = None, ll_next = (\<lambda>_. None)\<rparr>"

interpretation ll: linked_list ll_empty LL_APPEND LL_DELETE ll_sweep ll_repr
proof unfold_locales
  show "ll_repr ll_empty []" by (simp add: ll_repr_def ll_empty_def)
qed (blast intro: LL_APPEND_refines LL_DELETE_refines ll_sweep_refines ll_repr_distinct)+

end
