(* ===== verification/Scheduler.thy ===== *)
theory Scheduler
  imports Comm Utlist
begin

unbundle bit_operations_syntax

text \<open>
  The nvshare scheduler, \<open>src/src/scheduler.c\<close>: its state and every operation of the main thread.
  The timer thread is in theory \<open>Timer\<close>, the invariant in \<open>Scheduler_Inv\<close>.

  Memory. \<open>heap\<close> holds the live \<open>struct nvshare_client\<close> objects by address; \<open>clients\<close> and \<open>requests\<close> are
  the two linked lists, as lists of nodes (theory \<open>Utlist\<close> shows that the list macros act on
  them as \<open>@\<close>, \<open>remove1\<close> and filtering). A request node only points to its client, so \<open>requests\<close> is
  the list of those pointers. Reading a freed client is the fault \<open>UseAfterFree\<close>, with one exception:
  the loop in \<open>delete_client\<close> reads \<open>client->fd\<close> after it has freed \<open>client\<close>, in every run where
  the client is not last in the list. There the model continues with the value that \<open>stale\<close> gives
  for that address (what the allocator left behind) and records the event in \<open>uaf\<close>: were it a fault, no
  disconnection of such a client would have a behaviour. The definitions assume nothing about that value; the invariant does (\<open>stale_harmless\<close> in
  theory \<open>Scheduler_Inv\<close>).

  Environment. \<open>kern\<close> answers the system calls, \<open>mallocs\<close> holds the results of the next calls of
  \<open>malloc\<close> (\<open>None\<close> is NULL; otherwise an address and the uninitialised contents), \<open>rands\<close> those of
  \<open>rand\<close>. Logging is left out, and so are the calls that create the mutex, the condition
  variable and the thread. \<open>timer_signals\<close> counts the broadcasts on \<open>timer_cv\<close>.
\<close>

section \<open>State\<close>

type_synonym addr = "64 word"

definition NVSHARE_UNREGISTERED_ID :: "64 word" where
  "NVSHARE_UNREGISTERED_ID = 0xF00DF00DF00DF00D"

definition NVSHARE_DEFAULT_TQ :: int where "NVSHARE_DEFAULT_TQ = 30"

record nvshare_client =
  c_fd :: int
  c_id :: "64 word"
  c_pod_name :: "char list"
  c_pod_namespace :: "char list"

record sched =
  lock_held :: bool
  must_reset_timer :: bool
  scheduler_on :: bool
  tq :: int
  scheduling_round :: "32 word"
  out_msg :: message
  heap :: "addr \<rightharpoonup> nvshare_client"
  clients :: "addr list"
  requests :: "addr list"
  kern :: kernel
  mallocs :: "(addr \<times> nvshare_client) option list"
  rands :: rands
  stale :: "addr \<Rightarrow> int"
  uaf :: bool
  timer_signals :: nat

definition deref :: "sched \<Rightarrow> addr \<Rightarrow> nvshare_client res" where
  "deref s p = (case heap s p of None \<Rightarrow> Inl UseAfterFree | Some c \<Rightarrow> Inr c)"

section \<open>Clients and requests\<close>

definition has_registered :: "nvshare_client \<Rightarrow> bool" where
  "has_registered client \<longleftrightarrow> c_id client \<noteq> NVSHARE_UNREGISTERED_ID"

definition client_id_as_string :: "char list \<Rightarrow> nat \<Rightarrow> 64 word \<Rightarrow> char list res" where
  "client_id_as_string buf buflen i =
     (if i = NVSHARE_UNREGISTERED_ID
      then bindR (strlcpy buf (''<UNREGISTERED>'' @ [NUL]) buflen) (\<lambda>(b, _). Inr b)
      else Inr (fst (snprintf buf buflen (show_016x i))))"

fun insert_req_loop :: "addr \<Rightarrow> addr list \<Rightarrow> sched \<Rightarrow> bool res" where
  "insert_req_loop client [] s = Inr False"
| "insert_req_loop client (r # rs) s =
     bindR (deref s r) (\<lambda>rc. bindR (deref s client) (\<lambda>cc.
       if c_fd rc = c_fd cc then Inr True else insert_req_loop client rs s))"

definition pop_malloc :: "sched \<Rightarrow> ((addr \<times> nvshare_client) option \<times> sched) res" where
  "pop_malloc s =
     (case mallocs s of [] \<Rightarrow> Inl Blocked | m # ms \<Rightarrow> Inr (m, s\<lparr>mallocs := ms\<rparr>))"

definition insert_req :: "addr \<Rightarrow> sched \<Rightarrow> sched res" where
  "insert_req client s =
     bindR (insert_req_loop client (requests s) s) (\<lambda>found.
       if found then Inr s
       else bindR (pop_malloc s) (\<lambda>(r, s).
         case r of None \<Rightarrow> Inl Exit | Some _ \<Rightarrow> Inr (s\<lparr>requests := requests s @ [client]\<rparr>)))"

fun remove_req_loop :: "addr \<Rightarrow> addr list \<Rightarrow> sched \<Rightarrow> sched res" where
  "remove_req_loop client [] s = Inr s"
| "remove_req_loop client (r # rs) s =
     bindR (deref s r) (\<lambda>rc. bindR (deref s client) (\<lambda>cc.
       if c_fd rc = c_fd cc then remove_req_loop client rs (s\<lparr>requests := remove1 r (requests s)\<rparr>)
       else remove_req_loop client rs s))"

definition remove_req :: "addr \<Rightarrow> sched \<Rightarrow> sched res" where
  "remove_req client s =
     bindR (case requests s of
         [] \<Rightarrow> Inr s
       | r # _ \<Rightarrow> bindR (deref s r) (\<lambda>rc. bindR (deref s client) (\<lambda>cc.
           Inr (if c_fd rc = c_fd cc then s\<lparr>lock_held := False\<rparr> else s))))
       (\<lambda>s. remove_req_loop client (requests s) s)"

text \<open>The read of \<open>client->fd\<close> inside the loop of \<open>delete_client\<close>.\<close>

definition peek_fd :: "addr \<Rightarrow> sched \<Rightarrow> int \<times> sched" where
  "peek_fd p s = (case heap s p of Some c \<Rightarrow> (c_fd c, s) | None \<Rightarrow> (stale s p, s\<lparr>uaf := True\<rparr>))"

fun delete_client_loop :: "addr \<Rightarrow> addr list \<Rightarrow> sched \<Rightarrow> sched res" where
  "delete_client_loop client [] s = Inr s"
| "delete_client_loop client (c # cs) s =
     bindR (deref s c) (\<lambda>cc.
       let (fd, s) = peek_fd client s in
       if c_fd cc = fd
       then delete_client_loop client cs
              (s\<lparr>clients := remove1 c (clients s), heap := (heap s)(c := None)\<rparr>)
       else delete_client_loop client cs s)"

definition delete_client :: "addr \<Rightarrow> sched \<Rightarrow> sched res" where
  "delete_client client s =
     bindR (deref s client) (\<lambda>c. let cfd = c_fd c in
     bindR (remove_req client s) (\<lambda>s.
     bindR (delete_client_loop client (clients s) s) (\<lambda>s.
     bindR (sys (Sys_epoll_del cfd) (kern s)) (\<lambda>(a, k).
       if ret a \<noteq> 0 then Inl Exit
       else bindR (sys (Sys_close cfd) k) (\<lambda>(a, k).
         if ret a < 0 \<and> err a \<noteq> EINTR then Inl Exit else Inr (s\<lparr>kern := k\<rparr>))))))"

section \<open>Messages to and from clients\<close>

definition send_message :: "addr \<Rightarrow> message \<Rightarrow> sched \<Rightarrow> (int \<times> sched) res" where
  "send_message client msg s =
     bindR (deref s client) (\<lambda>c.
     bindR (nvshare_send_noblock (c_fd c) (encode_message msg) (kern s)) (\<lambda>(a, k).
       if 0 \<le> ret a \<and> ret a < int sizeof_message then Inr (- 1, s\<lparr>kern := k\<rparr>)
       else if ret a < 0 then
         (if err a = EAGAIN \<or> err a = EWOULDBLOCK \<or> err a = ECONNRESET \<or> err a = EPIPE
          then Inr (- 1, s\<lparr>kern := k\<rparr>) else Inl Exit)
       else Inr (0, s\<lparr>kern := k\<rparr>)))"

definition receive_message :: "addr \<Rightarrow> sched \<Rightarrow> (int \<times> message \<times> sched) res" where
  "receive_message client s =
     bindR (deref s client) (\<lambda>c.
     bindR (nvshare_receive_noblock (c_fd c) sizeof_message (kern s)) (\<lambda>(a, buf, k).
       let msg = decode_message buf; s = s\<lparr>kern := k\<rparr> in
       if ret a = 0 then Inr (- 1, msg, s)
       else if 0 < ret a \<and> ret a < int sizeof_message then Inr (- 1, msg, s)
       else if ret a < 0 then
         (if err a = EAGAIN \<or> err a = EWOULDBLOCK \<or> err a = ECONNRESET \<or> err a = EPIPE
          then Inr (- 1, msg, s) else Inl Exit)
       else Inr (0, msg, s)))"

definition set_out_type :: "message_type \<Rightarrow> sched \<Rightarrow> sched" where
  "set_out_type t s = s\<lparr>out_msg := (out_msg s)\<lparr>m_type := message_type_code t\<rparr>\<rparr>"

definition sched_status :: "sched \<Rightarrow> message_type" where
  "sched_status s = (if scheduler_on s then SCHED_ON else SCHED_OFF)"

text \<open>The loop at the label \<open>again\<close> of \<open>register_client\<close>: \<open>ids\<close> are the IDs of all clients.\<close>

function pick_id :: "64 word list \<Rightarrow> rands \<Rightarrow> (64 word \<times> rands) res" where
  "pick_id ids rs =
     bindR (nvshare_generate_id rs) (\<lambda>(i, rs').
       if i = NVSHARE_UNREGISTERED_ID then pick_id ids rs'
       else if i \<in> set ids then pick_id ids rs'
       else Inr (i, rs'))"
  by pat_completeness auto
termination
  by (relation "measure (\<lambda>(ids, rs). length rs)") (auto dest!: nvshare_generate_id_Inr)

declare pick_id.simps [simp del]

fun deref_all :: "sched \<Rightarrow> addr list \<Rightarrow> nvshare_client list res" where
  "deref_all s [] = Inr []"
| "deref_all s (p # ps) = bindR (deref s p) (\<lambda>c. bindR (deref_all s ps) (\<lambda>cs. Inr (c # cs)))"

definition register_client :: "addr \<Rightarrow> message \<Rightarrow> sched \<Rightarrow> (int \<times> sched) res" where
  "register_client client in_msg s =
     bindR (deref s client) (\<lambda>c.
       if has_registered c then Inr (- 1, s)
       else
         bindR (deref_all s (clients s)) (\<lambda>cs.
         bindR (pick_id (map c_id cs) (rands s)) (\<lambda>(i, rs).
         bindR (strlcpy (c_pod_name c) (drop 1 (encode_message in_msg)) POD_NAME_LEN_MAX) (\<lambda>(pn, _).
         bindR (strlcpy (c_pod_namespace c) (drop (1 + POD_NAME_LEN_MAX) (encode_message in_msg))
                  POD_NAMESPACE_LEN_MAX) (\<lambda>(pns, _).
           let c = c\<lparr>c_id := i, c_pod_name := pn, c_pod_namespace := pns\<rparr>;
               s = s\<lparr>heap := (heap s)(client \<mapsto> c), rands := rs\<rparr>;
               (data, n) = snprintf (m_data (out_msg s)) (16 + 1) (show_016x i)
           in if n \<noteq> 16 then Inl Exit
              else let s = set_out_type (sched_status s) (s\<lparr>out_msg := (out_msg s)\<lparr>m_data := data\<rparr>\<rparr>) in
                bindR (send_message client (out_msg s) s) (\<lambda>(r, s).
                  Inr (r, s\<lparr>out_msg := (out_msg s)\<lparr>m_data := replicate MSG_DATA_LEN NUL\<rparr>\<rparr>)))))))"

fun bcast_status_loop :: "addr list \<Rightarrow> sched \<Rightarrow> sched res" where
  "bcast_status_loop [] s = Inr s"
| "bcast_status_loop (c # cs) s =
     bindR (deref s c) (\<lambda>cc.
       if \<not> has_registered cc then bcast_status_loop cs s
       else let s = set_out_type (sched_status s) s in
         bindR (send_message c (out_msg s) s) (\<lambda>(r, s).
           if r < 0 then bindR (delete_client c s) (bcast_status_loop cs)
           else bcast_status_loop cs s))"

definition bcast_status :: "sched \<Rightarrow> sched res" where
  "bcast_status s = bcast_status_loop (clients s) s"

section \<open>What the helpers leave alone\<close>

lemma post_deref [post]: "post (deref s p) P = (\<forall>c. heap s p = Some c \<longrightarrow> P c)"
  by (auto simp: deref_def post_def split: option.splits)

text \<open>The fields that removing requests and clients never touches.\<close>

definition ctl :: "sched \<Rightarrow> bool \<times> bool \<times> int \<times> 32 word \<times> message \<times> rands
    \<times> (addr \<times> nvshare_client) option list \<times> (addr \<Rightarrow> int) \<times> nat" where
  "ctl s = (must_reset_timer s, scheduler_on s, tq s, scheduling_round s, out_msg s, rands s,
     mallocs s, stale s, timer_signals s)"

definition mem :: "sched \<Rightarrow> (addr \<rightharpoonup> nvshare_client) \<times> addr list \<times> bool" where
  "mem s = (heap s, clients s, uaf s)"

lemma ctl_upd [simp]:
  "ctl (s\<lparr>requests := q\<rparr>) = ctl s" "ctl (s\<lparr>lock_held := l\<rparr>) = ctl s" "ctl (s\<lparr>kern := k\<rparr>) = ctl s"
  "ctl (s\<lparr>clients := cl\<rparr>) = ctl s" "ctl (s\<lparr>heap := h\<rparr>) = ctl s" "ctl (s\<lparr>uaf := u\<rparr>) = ctl s"
  by (simp_all add: ctl_def)

lemma mem_upd [simp]:
  "mem (s\<lparr>requests := q\<rparr>) = mem s" "mem (s\<lparr>lock_held := l\<rparr>) = mem s" "mem (s\<lparr>kern := k\<rparr>) = mem s"
  by (simp_all add: mem_def)

lemma ctl_eqD:
  "ctl s = ctl t \<Longrightarrow> must_reset_timer s = must_reset_timer t" "ctl s = ctl t \<Longrightarrow> scheduler_on s = scheduler_on t"
  "ctl s = ctl t \<Longrightarrow> tq s = tq t" "ctl s = ctl t \<Longrightarrow> scheduling_round s = scheduling_round t"
  "ctl s = ctl t \<Longrightarrow> out_msg s = out_msg t" "ctl s = ctl t \<Longrightarrow> rands s = rands t"
  "ctl s = ctl t \<Longrightarrow> mallocs s = mallocs t" "ctl s = ctl t \<Longrightarrow> stale s = stale t"
  "ctl s = ctl t \<Longrightarrow> timer_signals s = timer_signals t"
  by (simp_all add: ctl_def)

lemma send_message_frame:
  "post (send_message p m s) (\<lambda>(r, s'). \<exists>k. s' = s\<lparr>kern := k\<rparr>)"
  by (auto simp: send_message_def nvshare_send_noblock_def post split: prod.splits)

lemma remove_req_loop_frame:
  "post (remove_req_loop p rs s)
     (\<lambda>s'. ctl s' = ctl s \<and> mem s' = mem s \<and> kern s' = kern s \<and> lock_held s' = lock_held s
        \<and> length (requests s') \<le> length (requests s))"
proof (induction rs arbitrary: s)
  case Nil
  then show ?case by (simp add: post)
next
  case (Cons r rs)
  let ?s = "s\<lparr>requests := remove1 r (requests s)\<rparr>"
  have "length (remove1 r (requests s)) \<le> length (requests s)" by (simp add: length_remove1)
  then have "post (remove_req_loop p rs ?s) (\<lambda>s'. ctl s' = ctl s \<and> mem s' = mem s \<and> kern s' = kern s
      \<and> lock_held s' = lock_held s \<and> length (requests s') \<le> length (requests s))"
    by (intro post_mono [OF Cons.IH [of ?s]]) auto
  with Cons.IH [of s] show ?case by (auto simp: post)
qed

lemma remove_req_frame:
  "post (remove_req p s) (\<lambda>s'. ctl s' = ctl s \<and> mem s' = mem s \<and> kern s' = kern s
     \<and> length (requests s') \<le> length (requests s))"
proof -
  have loop: "post (remove_req_loop p (requests s) (s\<lparr>lock_held := l\<rparr>)) (\<lambda>s'. ctl s' = ctl s
      \<and> mem s' = mem s \<and> kern s' = kern s \<and> length (requests s') \<le> length (requests s))" for l
    by (rule post_mono [OF remove_req_loop_frame]) auto
  from loop [of False] loop [of "lock_held s"] show ?thesis
    by (auto simp: remove_req_def post split: list.splits)
qed

lemma remove_req_head_shorter:
  assumes "requests s = p # rs"
  shows "post (remove_req p s) (\<lambda>s'. length (requests s') < length (requests s))"
proof -
  have "post (remove_req_loop p rs (s\<lparr>lock_held := False, requests := rs\<rparr>))
      (\<lambda>s'. length (requests s') < length (requests s))"
    by (rule post_mono [OF remove_req_loop_frame]) (auto simp: assms)
  then show ?thesis by (auto simp: remove_req_def assms post)
qed

lemma delete_client_loop_frame:
  "post (delete_client_loop p cs s)
     (\<lambda>s'. ctl s' = ctl s \<and> requests s' = requests s \<and> lock_held s' = lock_held s \<and> kern s' = kern s)"
proof (induction cs arbitrary: s)
  case Nil
  then show ?case by (simp add: post)
next
  case (Cons c cs)
  have "post (delete_client_loop p cs t) (\<lambda>s'. ctl s' = ctl s \<and> requests s' = requests s
      \<and> lock_held s' = lock_held s \<and> kern s' = kern s)"
    if "ctl t = ctl s" "requests t = requests s" "lock_held t = lock_held s" "kern t = kern s" for t
    by (rule post_mono [OF Cons.IH]) (use that in auto)
  then show ?case by (auto simp: post Let_def peek_fd_def split: prod.splits option.splits)
qed

text \<open>Outside the client list, the heap and the kernel, \<open>delete_client\<close> acts through \<open>remove_req\<close>.\<close>

lemma delete_client_post:
  assumes "post (remove_req p s) (\<lambda>s1. \<forall>s'. ctl s' = ctl s1 \<and> requests s' = requests s1
    \<and> lock_held s' = lock_held s1 \<longrightarrow> Q s')"
  shows "post (delete_client p s) Q"
  unfolding delete_client_def Let_def post
  by (intro allI impI post_mono [OF assms] post_mono [OF delete_client_loop_frame])
    (auto simp: post)

lemma delete_client_frame:
  "post (delete_client p s) (\<lambda>s'. ctl s' = ctl s)"
  by (rule delete_client_post, rule post_mono [OF remove_req_frame]) auto

lemma delete_client_head_shorter:
  assumes "requests s = p # rs"
  shows "post (delete_client p s) (\<lambda>s'. length (requests s') < length (requests s))"
  by (rule delete_client_post, rule post_mono [OF remove_req_head_shorter [OF assms]]) auto

section \<open>Handing out the lock\<close>

text \<open>
  The loop at the label \<open>try_again\<close> ends because every failed send removes the head of the request
  list.
\<close>

function try_schedule :: "sched \<Rightarrow> sched res" where
  "try_schedule s =
     (case requests s of
        [] \<Rightarrow> Inr s
      | p # rs \<Rightarrow>
          let s1 = set_out_type LOCK_OK s in
          bindR (send_message p (out_msg s1) s1) (\<lambda>(r, s2).
            if r < 0 then
              bindR (case requests s2 of [] \<Rightarrow> Inl NullDeref | q # _ \<Rightarrow> delete_client q s2) (\<lambda>s3.
                try_schedule s3)
            else Inr (s2\<lparr>scheduling_round := scheduling_round s2 + 1, lock_held := True,
                   must_reset_timer := True, timer_signals := timer_signals s2 + 1\<rparr>)))"
  by pat_completeness auto
termination
proof (relation "measure (\<lambda>s. length (requests s))", goal_cases)
  case 1
  show ?case by simp
next
  case (2 s p rs s1 x r s2 s3)
  have "requests s2 = p # rs"
    using post_D [OF send_message_frame 2(3)] 2 by (auto simp: set_out_type_def)
  with 2 delete_client_head_shorter [of s2 p rs] show ?case by (auto dest: post_D)
qed

declare try_schedule.simps [simp del]

section \<open>Messages\<close>

text \<open>
  \<open>case SET_TQ\<close>. By the C standard the argument of \<open>strtoll\<close> is a string; \<open>data\<close> is the last field of
  the message, and without a NUL in it the conversion reads past the object.
\<close>

definition process_set_tq :: "message \<Rightarrow> sched \<Rightarrow> sched res" where
  "process_set_tq in_msg s =
     (if NUL \<notin> set (m_data in_msg) then Inl OutOfBounds
      else
        let txt = cstr (m_data in_msg); r = strtoll txt; newtq = to_int32 (strto_value r) in
        if strto_end r \<noteq> 0 \<and> strto_end r = length txt \<and> \<not> strto_erange r
        then Inr (s\<lparr>tq := newtq, must_reset_timer := True, timer_signals := timer_signals s + 1\<rparr>)
        else Inr s)"

definition process_msg :: "addr \<Rightarrow> message \<Rightarrow> sched \<Rightarrow> sched res" where
  "process_msg client in_msg s =
     (case message_type_of (m_type in_msg) of
        Some REGISTER \<Rightarrow>
          bindR (register_client client in_msg s) (\<lambda>(r, s).
            if r < 0 then delete_client client s else Inr s)
      | Some SCHED_ON \<Rightarrow>
          (if \<not> scheduler_on s then bcast_status (s\<lparr>scheduler_on := True\<rparr>) else Inr s)
      | Some SCHED_OFF \<Rightarrow>
          (if scheduler_on s
           then bindR (bcast_status (s\<lparr>scheduler_on := False\<rparr>)) (\<lambda>s.
             Inr (s\<lparr>requests := [], lock_held := False\<rparr>))
           else Inr s)
      | Some SET_TQ \<Rightarrow> process_set_tq in_msg s
      | Some REQ_LOCK \<Rightarrow>
          bindR (deref s client) (\<lambda>c.
            if has_registered c
            then (if scheduler_on s
                  then bindR (insert_req client s) (\<lambda>s. if \<not> lock_held s then try_schedule s else Inr s)
                  else Inr s)
            else delete_client client s)
      | Some LOCK_RELEASED \<Rightarrow>
          bindR (deref s client) (\<lambda>c.
            if has_registered c
            then (if scheduler_on s
                  then bindR (remove_req client s) (\<lambda>s. if \<not> lock_held s then try_schedule s else Inr s)
                  else Inr s)
            else delete_client client s)
      | _ \<Rightarrow> Inr s)"

section \<open>The main thread\<close>

text \<open>
  An event has the 64 bits of \<open>epoll_data\<close>, a union: the main loop first reads its low 32 bits as
  \<open>data.fd\<close> and compares them with the listening socket, then reads all of it as \<open>data.ptr\<close>.
\<close>

record epoll_event =
  ev_events :: "32 word"
  ev_data :: "64 word"

definition EPOLLIN :: "32 word" where "EPOLLIN = 0x001"
definition EPOLLERR :: "32 word" where "EPOLLERR = 0x008"
definition EPOLLHUP :: "32 word" where "EPOLLHUP = 0x010"

definition data_fd :: "64 word \<Rightarrow> int" where
  "data_fd d = sint (ucast d :: 32 word)"

text \<open>A new connection: the result of \<open>malloc\<close> is written through without a check.\<close>

definition new_connection :: "int \<Rightarrow> sched \<Rightarrow> sched res" where
  "new_connection lsock s =
     bindR (nvshare_accept lsock (kern s)) (\<lambda>(r, rsock, e, k).
       let s = s\<lparr>kern := k\<rparr> in
       if r = 0 then
         bindR (pop_malloc s) (\<lambda>(m, s).
           case m of
             None \<Rightarrow> Inl NullDeref
           | Some (p, junk) \<Rightarrow>
               let c = junk\<lparr>c_fd := rsock, c_id := NVSHARE_UNREGISTERED_ID\<rparr> in
               bindR (sys (Sys_epoll_add rsock p) (kern s)) (\<lambda>(a, k).
                 if ret a < 0
                 then bindR (sys (Sys_close rsock) k) (\<lambda>(_, k). Inr (s\<lparr>kern := k\<rparr>))
                 else Inr (s\<lparr>kern := k, heap := (heap s)(p \<mapsto> c), clients := clients s @ [p]\<rparr>)))
       else if e \<noteq> ECONNABORTED \<and> e \<noteq> EAGAIN \<and> e \<noteq> EWOULDBLOCK then Inl Exit
       else Inr s)"

definition drop_client :: "addr \<Rightarrow> sched \<Rightarrow> sched res" where
  "drop_client client s =
     bindR (delete_client client s) (\<lambda>s.
       if \<not> lock_held s \<and> scheduler_on s then try_schedule s else Inr s)"

definition client_event :: "32 word \<Rightarrow> addr \<Rightarrow> sched \<Rightarrow> sched res" where
  "client_event events client s =
     (if events AND EPOLLIN \<noteq> 0 then
        bindR (receive_message client s) (\<lambda>(r, in_msg, s).
          if r < 0 then drop_client client s else process_msg client in_msg s)
      else if events AND (EPOLLERR OR EPOLLHUP) \<noteq> 0 then drop_client client s
      else Inr s)"

definition handle_event :: "int \<Rightarrow> epoll_event \<Rightarrow> sched \<Rightarrow> sched res" where
  "handle_event lsock ev s =
     (if data_fd (ev_data ev) = lsock then new_connection lsock s
      else client_event (ev_events ev) (ev_data ev) s)"

fun handle_events :: "int \<Rightarrow> epoll_event list \<Rightarrow> sched \<Rightarrow> sched res" where
  "handle_events lsock [] s = Inr s"
| "handle_events lsock (ev # evs) s = bindR (handle_event lsock ev s) (handle_events lsock evs)"

text \<open>One round of the main loop, for the result of \<open>epoll_wait\<close> (interrupted waits are repeated).\<close>

definition main_round :: "int \<Rightarrow> int \<Rightarrow> epoll_event list \<Rightarrow> sched \<Rightarrow> sched res" where
  "main_round lsock num_fds events s =
     (if num_fds < 0 then Inl Exit else handle_events lsock (take (nat num_fds) events) s)"

text \<open>
  \<open>main\<close> up to the loop. The modes are \<open>S_IRWXU | S_IXGRP | S_IXOTH\<close> for the directory and
  \<open>S_IRWXU | S_IWGRP | S_IWOTH\<close> for the socket.
\<close>

definition SOCK_DIR_MODE :: nat where "SOCK_DIR_MODE = 448 + 8 + 1"
definition SOCK_MODE :: nat where "SOCK_MODE = 448 + 16 + 2"

definition sched_globals :: sched where
  "sched_globals = \<lparr>lock_held = False, must_reset_timer = False, scheduler_on = False, tq = 0,
     scheduling_round = 0, out_msg = zero_message, heap = Map.empty, clients = [], requests = [],
     kern = \<lparr>answers = [], calls = []\<rparr>, mallocs = [], rands = [], stale = (\<lambda>_. - 1), uaf = False,
     timer_signals = 0\<rparr>"

definition sched_main :: "char list \<Rightarrow> sched \<Rightarrow> (int \<times> sched) res" where
  "sched_main nvscheduler_socket_path s =
     bindR (sys (Sys_mkdir NVSHARE_SOCK_DIR) (kern s)) (\<lambda>(a, k).
       if ret a \<noteq> 0 \<and> err a \<noteq> EEXIST then Inl Exit
       else bindR (sys (Sys_chmod NVSHARE_SOCK_DIR SOCK_DIR_MODE) k) (\<lambda>(a, k).
         if ret a \<noteq> 0 then Inl Exit
         else let s = s\<lparr>scheduler_on := True, tq := NVSHARE_DEFAULT_TQ\<rparr> in
         bindR (nvshare_get_scheduler_path nvscheduler_socket_path) (\<lambda>(r, path).
           if r \<noteq> 0 then Inl Exit
           else bindR (sys Sys_epoll_create k) (\<lambda>(a, k).
             if ret a < 0 then Inl Exit
             else bindR (nvshare_bind_and_listen path k) (\<lambda>(r, lsock, e, k).
               if r \<noteq> 0 then Inl Exit
               else bindR (sys (Sys_epoll_add lsock (word_of_int lsock)) k) (\<lambda>(a, k).
                 if ret a \<noteq> 0 then Inl Exit
                 else bindR (sys (Sys_chmod (cstr path) SOCK_MODE) k) (\<lambda>(a, k).
                   if ret a \<noteq> 0 then Inl Exit
                   else Inr (lsock, s\<lparr>kern := k, out_msg := (out_msg s)\<lparr>m_id := 7331\<rparr>\<rparr>))))))))"

end
