(* ===== verification/Scheduler_Inv.thy ===== *)
theory Scheduler_Inv
  imports Scheduler
begin

text \<open>
  The invariant of the scheduler and its preservation by every operation, as weakest
  preconditions: each lemma says at once that the operation has no undefined behaviour and
  what it establishes.

  \<open>mem_inv\<close> describes the memory: the client list has exactly the live objects, descriptors are
  unique, every request points to a live registered client and no client has two requests, and
  a held lock means a non-empty request list, whose head is the holder. \<open>sched_inv\<close> adds that
  no requests wait while the scheduler is off. \<open>no_idle\<close> says that the GPU is not left free
  while somebody waits.
\<close>

section \<open>The invariant\<close>

definition client_ok :: "nvshare_client \<Rightarrow> bool" where
  "client_ok c \<longleftrightarrow> length (c_pod_name c) = POD_NAME_LEN_MAX
     \<and> length (c_pod_namespace c) = POD_NAMESPACE_LEN_MAX"

text \<open>
  What the memory manager is assumed to do, and what C does not promise: the memory of a freed client never reads as the descriptor of a
  live one. Only the read of \<open>client->fd\<close> in the loop of \<open>delete_client\<close> depends on it; theory
  \<open>Scheduler_Props\<close> shows what that loop does otherwise (\<open>stale_read_frees_another\<close>).
\<close>

abbreviation stale_harmless :: "sched \<Rightarrow> bool" where
  "stale_harmless s \<equiv> (\<forall>p c q. heap s p = Some c \<longrightarrow> c_fd c \<noteq> stale s q)"

definition mem_inv :: "sched \<Rightarrow> bool" where
  "mem_inv s \<longleftrightarrow>
     distinct (clients s) \<and> dom (heap s) = set (clients s)
     \<and> (\<forall>p q c d. heap s p = Some c \<and> heap s q = Some d \<and> c_fd c = c_fd d \<longrightarrow> p = q)
     \<and> (\<forall>p q c d. heap s p = Some c \<and> heap s q = Some d \<and> has_registered c \<and> c_id c = c_id d \<longrightarrow> p = q)
     \<and> stale_harmless s
     \<and> (\<forall>p c. heap s p = Some c \<longrightarrow> client_ok c)
     \<and> distinct (requests s)
     \<and> (\<forall>p \<in> set (requests s). \<exists>c. heap s p = Some c \<and> has_registered c)
     \<and> (lock_held s \<longrightarrow> requests s \<noteq> [])
     \<and> (\<forall>p c. Some (p, c) \<in> set (mallocs s) \<longrightarrow> client_ok c)
     \<and> message_ok (out_msg s)"

definition sched_inv :: "sched \<Rightarrow> bool" where
  "sched_inv s \<longleftrightarrow> mem_inv s \<and> (\<not> scheduler_on s \<longrightarrow> requests s = [])"

definition no_idle :: "sched \<Rightarrow> bool" where
  "no_idle s \<longleftrightarrow> (scheduler_on s \<and> requests s \<noteq> [] \<longrightarrow> lock_held s)"

text \<open>The client that holds the GPU lock.\<close>

definition holder :: "sched \<Rightarrow> addr option" where
  "holder s = (if lock_held s then (case requests s of [] \<Rightarrow> None | p # _ \<Rightarrow> Some p) else None)"

lemma mem_invD:
  assumes "mem_inv s"
  shows "distinct (clients s)" "dom (heap s) = set (clients s)" "distinct (requests s)"
    "lock_held s \<Longrightarrow> requests s \<noteq> []" "message_ok (out_msg s)"
    "heap s p = Some c \<Longrightarrow> heap s q = Some d \<Longrightarrow> c_fd c = c_fd d \<Longrightarrow> p = q"
    "heap s p = Some c \<Longrightarrow> c_fd c \<noteq> stale s q"
    "p \<in> set (requests s) \<Longrightarrow> \<exists>c. heap s p = Some c \<and> has_registered c"
    "heap s p = Some c \<Longrightarrow> client_ok c"
    "heap s p = Some c \<Longrightarrow> heap s q = Some d \<Longrightarrow> has_registered c \<Longrightarrow> c_id c = c_id d \<Longrightarrow> p = q"
    "Some (p, c) \<in> set (mallocs s) \<Longrightarrow> client_ok c"
  using assms unfolding mem_inv_def by blast+

lemma mem_invI:
  assumes "distinct (clients s)" "dom (heap s) = set (clients s)"
    and "\<And>p q c d. heap s p = Some c \<Longrightarrow> heap s q = Some d \<Longrightarrow> c_fd c = c_fd d \<Longrightarrow> p = q"
    and "\<And>p q c d. heap s p = Some c \<Longrightarrow> heap s q = Some d \<Longrightarrow> has_registered c \<Longrightarrow> c_id c = c_id d \<Longrightarrow> p = q"
    and "\<And>p c q. heap s p = Some c \<Longrightarrow> c_fd c \<noteq> stale s q" "\<And>p c. heap s p = Some c \<Longrightarrow> client_ok c"
    and "distinct (requests s)" "\<And>p. p \<in> set (requests s) \<Longrightarrow> \<exists>c. heap s p = Some c \<and> has_registered c"
    and "lock_held s \<Longrightarrow> requests s \<noteq> []" "\<And>p c. Some (p, c) \<in> set (mallocs s) \<Longrightarrow> client_ok c"
    and "message_ok (out_msg s)"
  shows "mem_inv s"
  using assms unfolding mem_inv_def by blast

lemma mem_inv_kern [simp]: "mem_inv (s\<lparr>kern := k\<rparr>) = mem_inv s"
  by (simp add: mem_inv_def)

lemma mem_inv_misc [simp]:
  "mem_inv (s\<lparr>scheduler_on := b\<rparr>) = mem_inv s"
  "mem_inv (s\<lparr>must_reset_timer := b\<rparr>) = mem_inv s"
  "mem_inv (s\<lparr>tq := t\<rparr>) = mem_inv s"
  "mem_inv (s\<lparr>scheduling_round := r\<rparr>) = mem_inv s"
  "mem_inv (s\<lparr>timer_signals := n\<rparr>) = mem_inv s"
  by (simp_all add: mem_inv_def)

lemma mem_inv_no_requests: "mem_inv s \<Longrightarrow> mem_inv (s\<lparr>requests := [], lock_held := False\<rparr>)"
  by (simp add: mem_inv_def)

lemma mem_inv_out_type [simp]: "mem_inv (set_out_type t s) = mem_inv s"
  by (simp add: mem_inv_def set_out_type_def)

lemma set_out_type_sel [simp]:
  "heap (set_out_type t s) = heap s" "requests (set_out_type t s) = requests s"
  "clients (set_out_type t s) = clients s" "kern (set_out_type t s) = kern s"
  "lock_held (set_out_type t s) = lock_held s" "scheduler_on (set_out_type t s) = scheduler_on s"
  "tq (set_out_type t s) = tq s" "scheduling_round (set_out_type t s) = scheduling_round s"
  "mallocs (set_out_type t s) = mallocs s" "rands (set_out_type t s) = rands s"
  "stale (set_out_type t s) = stale s" "uaf (set_out_type t s) = uaf s"
  "must_reset_timer (set_out_type t s) = must_reset_timer s"
  "timer_signals (set_out_type t s) = timer_signals s"
  "out_msg (set_out_type t s) = (out_msg s)\<lparr>m_type := message_type_code t\<rparr>"
  by (simp_all add: set_out_type_def)

lemma wp_deref [wp]: "heap s p = Some c \<Longrightarrow> wp (deref s p) Q = Q c"
  by (simp add: deref_def wp)

lemma deref_live [simp]: "heap s p = Some c \<Longrightarrow> deref s p = Inr c"
  by (simp add: deref_def)

section \<open>Requests\<close>

lemma insert_req_loop_eq:
  assumes "mem_inv s" "heap s p = Some c" "set rs \<subseteq> set (requests s)"
  shows "insert_req_loop p rs s = Inr (p \<in> set rs)"
  using assms(3)
proof (induction rs)
  case Nil
  then show ?case by simp
next
  case (Cons r rs)
  then obtain d where d: "heap s r = Some d" using mem_invD(8) [OF assms(1)] by auto
  have "c_fd d = c_fd c \<longleftrightarrow> r = p"
    using mem_invD(6) [OF assms(1) d assms(2)] d assms(2) by auto
  with Cons d assms(2) show ?case by auto
qed

text \<open>What \<open>remove_req\<close> and \<open>delete_client\<close> do to the state.\<close>

definition unrequest :: "addr \<Rightarrow> sched \<Rightarrow> sched" where
  "unrequest p s = s\<lparr>requests := remove1 p (requests s),
     lock_held := lock_held s \<and> \<not> (requests s \<noteq> [] \<and> hd (requests s) = p)\<rparr>"

definition forget :: "addr \<Rightarrow> sched \<Rightarrow> sched" where
  "forget p s = (unrequest p s)\<lparr>clients := remove1 p (clients s), heap := (heap s)(p := None),
     uaf := uaf s \<or> last (clients s) \<noteq> p\<rparr>"

lemma remove_req_loop_append:
  "remove_req_loop p (xs @ ys) t = bindR (remove_req_loop p xs t) (remove_req_loop p ys)"
  by (induction xs arbitrary: t) (auto simp: bindR_assoc intro!: bindR_cong)

lemma live_fd_eq:
  assumes "mem_inv s" "heap s r = Some d" "heap s p = Some c"
  shows "c_fd d = c_fd c \<longleftrightarrow> r = p"
  using mem_invD(6) [OF assms] assms by auto

lemma live_request: "mem_inv s \<Longrightarrow> r \<in> set (requests s) \<Longrightarrow> \<exists>d. heap s r = Some d"
  using mem_invD(8) by blast

lemma remove_req_loop_skip:
  assumes "mem_inv s" "heap s p = Some c" "heap t = heap s"
  shows "set rs \<subseteq> set (requests s) \<Longrightarrow> p \<notin> set rs \<Longrightarrow> remove_req_loop p rs t = Inr t"
proof (induction rs)
  case Nil
  then show ?case by simp
next
  case (Cons r rs)
  from Cons.prems have "r \<in> set (requests s)" by simp
  with live_request [OF assms(1)] obtain d where d: "heap s r = Some d" by blast
  with Cons assms live_fd_eq [OF assms(1) d assms(2)] show ?case by auto
qed

lemma remove_req_loop_eq:
  assumes "mem_inv s" "heap s p = Some c" "heap t = heap s" "requests t = requests s"
  shows "remove_req_loop p (requests s) t = Inr (t\<lparr>requests := remove1 p (requests s)\<rparr>)"
proof (cases "p \<in> set (requests s)")
  case True
  then obtain ys zs where q: "requests s = ys @ p # zs" by (meson split_list)
  have p: "p \<notin> set ys" "p \<notin> set zs" using mem_invD(3) [OF assms(1)] q by auto
  have "remove_req_loop p ys t = Inr t"
    by (rule remove_req_loop_skip [OF assms(1-3)]) (use p q in auto)
  moreover have "remove_req_loop p zs (t\<lparr>requests := ys @ zs\<rparr>) = Inr (t\<lparr>requests := ys @ zs\<rparr>)"
    by (rule remove_req_loop_skip [OF assms(1,2)]) (use p q assms(3) in auto)
  ultimately have "remove_req_loop p (ys @ p # zs) t = Inr (t\<lparr>requests := ys @ zs\<rparr>)"
    using p assms(2-) q by (simp add: remove_req_loop_append remove1_append)
  with q p show ?thesis by (simp add: remove1_append)
next
  case False
  with remove_req_loop_skip [OF assms(1-3), of "requests s"] show ?thesis
    by (simp add: remove1_idem flip: assms(4))
qed

lemma remove_req_eq:
  assumes "mem_inv s" "heap s p = Some c"
  shows "remove_req p s = Inr (unrequest p s)"
proof (cases "requests s")
  case Nil
  with mem_invD(4) [OF assms(1)] show ?thesis by (auto simp: remove_req_def unrequest_def)
next
  case (Cons r rs)
  then obtain d where d: "heap s r = Some d" using live_request [OF assms(1), of r] by auto
  from live_fd_eq [OF assms(1) d assms(2)] d assms(2) Cons
    remove_req_loop_eq [OF assms, of s] remove_req_loop_eq [OF assms, of "s\<lparr>lock_held := False\<rparr>"]
  show ?thesis by (auto simp: remove_req_def unrequest_def)
qed

section \<open>Deleting a client\<close>

lemma delete_client_loop_append:
  "delete_client_loop p (xs @ ys) t = bindR (delete_client_loop p xs t) (delete_client_loop p ys)"
  by (induction xs arbitrary: t) (auto simp: bindR_assoc Let_def case_prod_unfold intro!: bindR_cong)

lemma delete_client_loop_before:
  assumes "mem_inv s" "heap s p = Some c" "heap t = heap s"
  shows "set cs \<subseteq> set (clients s) \<Longrightarrow> p \<notin> set cs \<Longrightarrow> delete_client_loop p cs t = Inr t"
proof (induction cs)
  case Nil
  then show ?case by simp
next
  case (Cons r rs)
  from Cons.prems mem_invD(2) [OF assms(1)] obtain d where d: "heap s r = Some d" by auto
  with Cons assms live_fd_eq [OF assms(1) d assms(2)] show ?case by (auto simp: peek_fd_def)
qed

text \<open>After the client is freed, every further iteration reads the freed object.\<close>

lemma delete_client_loop_after:
  assumes "mem_inv s" "heap t p = None" "stale t = stale s"
  shows "set cs \<subseteq> set (clients s) \<Longrightarrow> (\<forall>r \<in> set cs. heap t r = heap s r) \<Longrightarrow>
    delete_client_loop p cs t = Inr (t\<lparr>uaf := uaf t \<or> cs \<noteq> []\<rparr>)"
  using assms(2-)
proof (induction cs arbitrary: t)
  case Nil
  then show ?case by simp
next
  case (Cons r rs)
  from Cons.prems have "r \<in> dom (heap s)" using mem_invD(2) [OF assms(1)] by simp
  then obtain d where d: "heap s r = Some d" by blast
  with mem_invD(7) [OF assms(1) d, of p] Cons.prems Cons.IH [of "t\<lparr>uaf := True\<rparr>"] show ?case
    by (simp add: peek_fd_def)
qed

lemma delete_client_loop_eq:
  assumes "mem_inv s" "heap s p = Some c" "heap t = heap s" "clients t = clients s" "stale t = stale s"
  shows "delete_client_loop p (clients s) t =
    Inr (t\<lparr>clients := remove1 p (clients s), heap := (heap s)(p := None),
      uaf := uaf t \<or> last (clients s) \<noteq> p\<rparr>)"
proof -
  have "p \<in> set (clients s)" using assms(2) mem_invD(2) [OF assms(1)] by auto
  then obtain ys zs where q: "clients s = ys @ p # zs" by (meson split_list)
  have p: "p \<notin> set ys" "p \<notin> set zs" using mem_invD(1) [OF assms(1)] q by auto
  let ?t = "t\<lparr>clients := ys @ zs, heap := (heap s)(p := None)\<rparr>"
  have rem: "remove1 p (clients s) = ys @ zs" using q p by (simp add: remove1_append)
  have "delete_client_loop p ys t = Inr t"
    by (rule delete_client_loop_before [OF assms(1-3)]) (use p q in auto)
  then have "delete_client_loop p (clients s) t = delete_client_loop p (p # zs) t"
    using q by (simp add: delete_client_loop_append del: delete_client_loop.simps)
  also have "\<dots> = delete_client_loop p zs ?t"
    using assms(2-4) rem q by (simp add: peek_fd_def)
  also have "\<dots> = Inr (?t\<lparr>uaf := uaf ?t \<or> zs \<noteq> []\<rparr>)"
    by (rule delete_client_loop_after [OF assms(1)]) (use q p assms(5) in auto)
  also have "\<dots> = Inr (t\<lparr>clients := remove1 p (clients s), heap := (heap s)(p := None),
      uaf := uaf t \<or> last (clients s) \<noteq> p\<rparr>)"
  proof -
    have "zs \<noteq> [] \<longleftrightarrow> last (clients s) \<noteq> p" using q p by (cases zs rule: rev_cases) auto
    then show ?thesis using rem by simp
  qed
  finally show ?thesis .
qed

lemma unrequest_sel [simp]:
  "heap (unrequest p s) = heap s" "clients (unrequest p s) = clients s" "kern (unrequest p s) = kern s"
  "stale (unrequest p s) = stale s" "uaf (unrequest p s) = uaf s"
  "requests (unrequest p s) = remove1 p (requests s)" "ctl (unrequest p s) = ctl s"
  by (simp_all add: unrequest_def)

lemma forget_sel [simp]:
  "requests (forget p s) = remove1 p (requests s)" "clients (forget p s) = remove1 p (clients s)"
  "heap (forget p s) = (heap s)(p := None)" "kern (forget p s) = kern s" "ctl (forget p s) = ctl s"
  "uaf (forget p s) = (uaf s \<or> last (clients s) \<noteq> p)"
  "lock_held (forget p s) = (lock_held s \<and> \<not> (requests s \<noteq> [] \<and> hd (requests s) = p))"
  by (simp_all add: forget_def) (simp add: unrequest_def)

lemma forget_ctl [simp]:
  "scheduler_on (forget p s) = scheduler_on s" "out_msg (forget p s) = out_msg s"
  "tq (forget p s) = tq s" "scheduling_round (forget p s) = scheduling_round s"
  "must_reset_timer (forget p s) = must_reset_timer s" "mallocs (forget p s) = mallocs s"
  "rands (forget p s) = rands s" "stale (forget p s) = stale s"
  "timer_signals (forget p s) = timer_signals s"
  by (simp_all add: forget_def unrequest_def)

lemma wp_delete_client:
  assumes "mem_inv s" "heap s p = Some c"
    and Q: "\<And>k. (\<And>fd. sent_to fd k = sent_to fd (kern s)) \<Longrightarrow> Q ((forget p s)\<lparr>kern := k\<rparr>)"
  shows "wp (delete_client p s) Q"
proof -
  have loop: "delete_client_loop p (clients s) (unrequest p s) = Inr (forget p s)"
    using delete_client_loop_eq [OF assms(1,2), of "unrequest p s"] by (simp add: forget_def)
  show ?thesis
    using assms(2) remove_req_eq [OF assms(1,2)]
    by (auto simp: delete_client_def Let_def loop wp sent_to_def intro!: Q)
qed

lemma mem_inv_unrequest:
  assumes "mem_inv s"
  shows "mem_inv (unrequest p s)"
proof -
  have "remove1 p (requests s) \<noteq> []" if "lock_held s" "\<not> (requests s \<noteq> [] \<and> hd (requests s) = p)"
    using mem_invD(4) [OF assms that(1)] that(2) by (cases "requests s") auto
  with assms show ?thesis
    unfolding mem_inv_def unrequest_def by (auto dest: in_set_remove1)
qed

lemma mem_inv_forget:
  assumes "mem_inv s"
  shows "mem_inv (forget p s)"
proof -
  have "mem_inv (unrequest p s)" using assms by (rule mem_inv_unrequest)
  moreover have "p \<notin> set (remove1 p (requests s))" using mem_invD(3) [OF assms] by simp
  ultimately show ?thesis
    unfolding mem_inv_def forget_def by (auto simp: unrequest_def)
qed

end
