(* ===== verification/Scheduler_Lock.thy ===== *)
theory Scheduler_Lock
  imports Scheduler_Inv
begin

text \<open>
  Weakest-precondition rules for the operations of the scheduler that talk to clients: sending,
  handing out the lock (\<open>try_schedule\<close>), broadcasting the status and registering. \<open>shrunk D\<close> relates
  two states of which the second has lost the clients in \<open>D\<close>; \<open>granted\<close> says what
  \<open>try_schedule\<close> does with the queue.
\<close>

section \<open>Sending\<close>

lemma wp_send_message:
  assumes c: "heap s p = Some c" and m: "message_ok m"
    and fail: "\<And>k. (\<And>fd. fd \<noteq> c_fd c \<Longrightarrow> sent_to fd k = sent_to fd (kern s)) \<Longrightarrow> Q (- 1, s\<lparr>kern := k\<rparr>)"
    and sent: "\<And>k. sent_to (c_fd c) k = sent_to (c_fd c) (kern s) @ encode_message m \<Longrightarrow>
      (\<And>fd. fd \<noteq> c_fd c \<Longrightarrow> sent_to fd k = sent_to fd (kern s)) \<Longrightarrow> Q (0, s\<lparr>kern := k\<rparr>)"
  shows "wp (send_message p m s) Q"
proof -
  have "Q (0, s\<lparr>kern := k\<rparr>)" if r: "retry_intr (Sys_write (c_fd c) (encode_message m)) (kern s) = Inr (a, k)"
    and "int sizeof_message \<le> ret a" for a k
    by (rule sent) (use retry_intr_sent [OF r] that m in auto)
  moreover have "Q (- 1, s\<lparr>kern := k\<rparr>)"
    if "retry_intr (Sys_write (c_fd c) (encode_message m)) (kern s) = Inr (a, k)" for a k
    by (rule fail) (use retry_intr_sent [OF that] in auto)
  ultimately show ?thesis
    using c by (auto simp: send_message_def nvshare_send_noblock_def wp not_less)
qed

section \<open>Losing clients\<close>

definition shrunk :: "addr set \<Rightarrow> sched \<Rightarrow> sched \<Rightarrow> bool" where
  "shrunk D s s' \<longleftrightarrow>
     heap s' = heap s |` (- D) \<and> clients s' = filter (\<lambda>p. p \<notin> D) (clients s)
     \<and> requests s' = filter (\<lambda>p. p \<notin> D) (requests s)
     \<and> scheduler_on s' = scheduler_on s \<and> tq s' = tq s \<and> mallocs s' = mallocs s
     \<and> stale s' = stale s \<and> rands s' = rands s
     \<and> (out_msg s')\<lparr>m_type := 0\<rparr> = (out_msg s)\<lparr>m_type := 0\<rparr>"

lemma out_type_idem: "m\<lparr>m_type := 0\<rparr> = m'\<lparr>m_type := 0\<rparr> \<Longrightarrow> m\<lparr>m_type := t\<rparr> = m'\<lparr>m_type := t\<rparr>" for m m' :: message
  by (cases m; cases m') simp

lemma shrunk_trans:
  assumes "shrunk D s t" "shrunk E t u"
  shows "shrunk (D \<union> E) s u"
proof -
  have "- (D \<union> E) = (- D) \<inter> (- E)" by blast
  with assms show ?thesis
    by (auto simp: shrunk_def intro!: filter_cong)
qed

lemma shrunk_refl:
  "heap s' = heap s \<Longrightarrow> clients s' = clients s \<Longrightarrow> requests s' = requests s \<Longrightarrow>
   scheduler_on s' = scheduler_on s \<Longrightarrow> tq s' = tq s \<Longrightarrow> mallocs s' = mallocs s \<Longrightarrow> stale s' = stale s \<Longrightarrow>
   rands s' = rands s \<Longrightarrow> (out_msg s')\<lparr>m_type := 0\<rparr> = (out_msg s)\<lparr>m_type := 0\<rparr> \<Longrightarrow> shrunk {} s s'"
  by (simp add: shrunk_def restrict_map_def)

lemma shrunk_forget:
  assumes "mem_inv s"
  shows "shrunk {p} s ((forget p s)\<lparr>kern := k\<rparr>)"
proof -
  have "(heap s)(p := None) = heap s |` (- {p})" by (auto simp: restrict_map_def)
  with mem_invD(1,3) [OF assms] show ?thesis
    by (auto simp: shrunk_def distinct_remove1_removeAll removeAll_filter_not_eq intro!: filter_cong)
qed

lemma shrunk_heap: "shrunk D s s' \<Longrightarrow> heap s' p = Some c \<Longrightarrow> heap s p = Some c \<and> p \<notin> D"
  by (auto simp: shrunk_def restrict_map_def split: if_splits)

section \<open>\<open>try_schedule\<close>\<close>

text \<open>The LOCK_OK message of the scheduler.\<close>

definition lock_ok_msg :: "sched \<Rightarrow> message" where
  "lock_ok_msg s = (out_msg s)\<lparr>m_type := message_type_code LOCK_OK\<rparr>"

text \<open>
  The first requester that takes the message becomes the holder; those before it are gone; no
  other client is sent anything; if nobody is left, the lock stays free.
\<close>

definition granted :: "sched \<Rightarrow> sched \<Rightarrow> bool" where
  "granted s s' \<longleftrightarrow>
     (\<exists>dead. requests s = dead @ requests s' \<and> shrunk (set dead) s s')
     \<and> lock_held s' = (requests s' \<noteq> [])
     \<and> scheduling_round s' = (if requests s' = [] then scheduling_round s else scheduling_round s + 1)
     \<and> must_reset_timer s' = (must_reset_timer s \<or> requests s' \<noteq> [])
     \<and> timer_signals s' = (if requests s' = [] then timer_signals s else timer_signals s + 1)
     \<and> (\<forall>p c. heap s' p = Some c \<longrightarrow>
          sent_to (c_fd c) (kern s') = sent_to (c_fd c) (kern s)
            @ (if requests s' \<noteq> [] \<and> hd (requests s') = p then encode_message (lock_ok_msg s) else []))"

lemma granted_forget:
  assumes inv: "mem_inv s" and free: "\<not> lock_held s" and q: "requests s = p # rs" and c: "heap s p = Some c"
    and s3: "s3 = (forget p (set_out_type LOCK_OK s))\<lparr>kern := k\<rparr>"
    and k: "\<And>fd. fd \<noteq> c_fd c \<Longrightarrow> sent_to fd k = sent_to fd (kern s)"
    and g: "granted s3 s'"
  shows "granted s s'"
proof -
  from g q obtain dead where dead: "rs = dead @ requests s'" "shrunk (set dead) s3 s'"
    by (auto simp: granted_def s3)
  have "shrunk {} s (set_out_type LOCK_OK s)" by (rule shrunk_refl) simp_all
  moreover have "shrunk {p} (set_out_type LOCK_OK s) s3"
    using inv by (simp add: s3 shrunk_forget)
  ultimately have "shrunk ({} \<union> {p} \<union> set dead) s s'" using dead(2) by (blast intro: shrunk_trans)
  then have sh: "shrunk (set (p # dead)) s s'" by simp
  have "sent_to (c_fd d) k = sent_to (c_fd d) (kern s)" if "heap s' r = Some d" for r d
    using shrunk_heap [OF sh that] live_fd_eq [OF inv _ c, of r d] by (intro k) auto
  moreover have "lock_ok_msg s3 = lock_ok_msg s" by (simp add: s3 lock_ok_msg_def)
  ultimately show ?thesis
    using g q dead(1) sh by (simp add: granted_def s3)
qed

lemma granted_head:
  assumes q: "requests s = p # rs" and c: "heap s p = Some c" and inv: "mem_inv s"
    and s': "s' = set_out_type LOCK_OK s\<lparr>kern := k, scheduling_round := scheduling_round s + 1, lock_held := True,
        must_reset_timer := True, timer_signals := timer_signals s + 1\<rparr>"
    and k: "sent_to (c_fd c) k = sent_to (c_fd c) (kern s) @ encode_message (lock_ok_msg s)"
      "\<And>fd. fd \<noteq> c_fd c \<Longrightarrow> sent_to fd k = sent_to fd (kern s)"
  shows "granted s s'"
proof -
  have "shrunk (set []) s s'" by (simp, rule shrunk_refl) (simp_all add: s' set_out_type_def)
  then have "requests s = [] @ requests s' \<and> shrunk (set []) s s'" by (simp add: s' set_out_type_def)
  moreover have "sent_to (c_fd d) k = sent_to (c_fd d) (kern s) @ (if p = r then encode_message (lock_ok_msg s) else [])"
    if "heap s r = Some d" for r d
    using k live_fd_eq [OF inv that c] c that by (cases "p = r") auto
  ultimately show ?thesis using q by (auto simp: granted_def s' set_out_type_def)
qed

lemma wp_try_schedule:
  "mem_inv s \<Longrightarrow> \<not> lock_held s \<Longrightarrow> wp (try_schedule s) (\<lambda>s'. mem_inv s' \<and> granted s s')"
proof (induction "length (requests s)" arbitrary: s rule: less_induct)
  case less
  show ?case
  proof (cases "requests s")
    case Nil
    then have "granted s s" using less.prems(2) by (auto simp: granted_def intro!: shrunk_refl)
    with Nil less.prems(1) show ?thesis by (simp add: try_schedule.simps wp)
  next
    case (Cons p rs)
    let ?s1 = "set_out_type LOCK_OK s"
    obtain c where c: "heap s p = Some c" using live_request [OF less.prems(1)] Cons by auto
    have inv1: "mem_inv ?s1" using less.prems(1) by simp
    have fail: "wp (delete_client p (?s1\<lparr>kern := k\<rparr>)) (\<lambda>s3. wp (try_schedule s3) (\<lambda>s'. mem_inv s' \<and> granted s s'))"
      if k: "\<And>fd. fd \<noteq> c_fd c \<Longrightarrow> sent_to fd k = sent_to fd (kern s)" for k
    proof (rule wp_delete_client)
      fix k' assume k': "\<And>fd. sent_to fd k' = sent_to fd (kern (?s1\<lparr>kern := k\<rparr>))"
      let ?s3 = "(forget p ?s1)\<lparr>kern := k'\<rparr>"
      have "wp (try_schedule ?s3) (\<lambda>s'. mem_inv s' \<and> granted ?s3 s')"
        by (rule less.hyps) (use Cons less.prems inv1 in \<open>auto intro: mem_inv_forget\<close>)
      then have "wp (try_schedule ?s3) (\<lambda>s'. mem_inv s' \<and> granted s s')"
      proof (rule wp_mono)
        fix s' assume s': "mem_inv s' \<and> granted ?s3 s'"
        have "granted s s'"
          by (rule granted_forget [OF less.prems Cons c refl _ conjunct2 [OF s']]) (use k k' in simp)
        with s' show "mem_inv s' \<and> granted s s'" by simp
      qed
      then show "wp (try_schedule ((forget p (?s1\<lparr>kern := k\<rparr>))\<lparr>kern := k'\<rparr>)) (\<lambda>s'. mem_inv s' \<and> granted s s')"
        by (simp add: forget_def unrequest_def)
    qed (use inv1 c in auto)
    show ?thesis
      unfolding try_schedule.simps [of s] Cons list.case Let_def wp
    proof (rule wp_send_message [where c = c], goal_cases)
      case 1
      show ?case using c by simp
    next
      case 2
      show ?case using mem_invD(5) [OF less.prems(1)] by simp
    next
      case (3 k)
      then show ?case using Cons fail [of k] by (simp add: wp)
    next
      case (4 k)
      let ?s' = "?s1\<lparr>kern := k, scheduling_round := scheduling_round s + 1, lock_held := True,
        must_reset_timer := True, timer_signals := timer_signals s + 1\<rparr>"
      have "granted s ?s'"
        by (rule granted_head [OF Cons c less.prems(1) refl]) (use 4 in \<open>auto simp: lock_ok_msg_def\<close>)
      moreover have "mem_inv ?s'" using inv1 Cons by (simp add: mem_inv_def)
      ultimately show ?case by (simp add: wp)
    qed
  qed
qed

section \<open>\<open>bcast_status\<close>\<close>

definition status_msg :: "sched \<Rightarrow> message" where
  "status_msg s = (out_msg s)\<lparr>m_type := message_type_code (sched_status s)\<rparr>"

text \<open>
  Of the clients in \<open>cs\<close> those that could not be reached are gone; each registered one that is left
  has been sent the status, once, and nobody else has been sent anything.
\<close>

definition informed :: "addr list \<Rightarrow> sched \<Rightarrow> sched \<Rightarrow> bool" where
  "informed cs s s' \<longleftrightarrow>
     (\<exists>D \<subseteq> set cs. shrunk D s s')
     \<and> scheduling_round s' = scheduling_round s \<and> must_reset_timer s' = must_reset_timer s
     \<and> timer_signals s' = timer_signals s \<and> (lock_held s' \<longrightarrow> lock_held s)
     \<and> (\<forall>p c. heap s' p = Some c \<longrightarrow>
          sent_to (c_fd c) (kern s') = sent_to (c_fd c) (kern s)
            @ (if p \<in> set cs \<and> has_registered c then encode_message (status_msg s) else []))"

lemma status_msg_sel:
  "status_msg (set_out_type t s) = status_msg s" "status_msg (s\<lparr>kern := k\<rparr>) = status_msg s"
  "status_msg (forget p s) = status_msg s"
  by (simp_all add: status_msg_def sched_status_def)

lemma informedI:
  assumes "shrunk D s s'" "D \<subseteq> set cs"
    and "scheduling_round s' = scheduling_round s \<and> must_reset_timer s' = must_reset_timer s
      \<and> timer_signals s' = timer_signals s \<and> (lock_held s' \<longrightarrow> lock_held s)"
    and "\<And>p c. heap s' p = Some c \<Longrightarrow> sent_to (c_fd c) (kern s') = sent_to (c_fd c) (kern s)
      @ (if p \<in> set cs \<and> has_registered c then encode_message (status_msg s) else [])"
  shows "informed cs s s'"
  using assms unfolding informed_def by blast

lemma informedD:
  assumes "informed cs s s'"
  shows "\<exists>D \<subseteq> set cs. shrunk D s s'"
    "scheduling_round s' = scheduling_round s \<and> must_reset_timer s' = must_reset_timer s
      \<and> timer_signals s' = timer_signals s \<and> (lock_held s' \<longrightarrow> lock_held s)"
    "heap s' p = Some c \<Longrightarrow> sent_to (c_fd c) (kern s') = sent_to (c_fd c) (kern s)
      @ (if p \<in> set cs \<and> has_registered c then encode_message (status_msg s) else [])"
  using assms unfolding informed_def by blast+

lemma informed_skip:
  assumes "informed cs s s'" "heap s p = Some c" "\<not> has_registered c"
  shows "informed (p # cs) s s'"
proof -
  have "\<not> has_registered d" if "heap s' p = Some d" for d
    using assms that by (auto simp: informed_def dest: shrunk_heap)
  with assms(1) show ?thesis unfolding informed_def by auto
qed

lemma informed_lost:
  assumes inv: "mem_inv s" and c: "heap s p = Some c"
    and k: "\<And>fd. fd \<noteq> c_fd c \<Longrightarrow> sent_to fd k = sent_to fd (kern s)"
    and i: "informed cs ((forget p (set_out_type t s))\<lparr>kern := k\<rparr>) s'"
  shows "informed (p # cs) s s'"
proof -
  let ?t = "set_out_type t s" and ?u = "(forget p (set_out_type t s))\<lparr>kern := k\<rparr>"
  from i obtain D where D: "D \<subseteq> set cs" "shrunk D ?u s'" by (auto simp: informed_def)
  have "shrunk {} s ?t" by (rule shrunk_refl) simp_all
  moreover have "shrunk {p} ?t ?u" using inv by (intro shrunk_forget) simp
  ultimately have "shrunk ({} \<union> {p} \<union> D) s s'" using D(2) by (blast intro: shrunk_trans)
  then have sh: "shrunk (insert p D) s s'" by simp
  have "sent_to (c_fd d) k = sent_to (c_fd d) (kern s) \<and> r \<noteq> p" if "heap s' r = Some d" for r d
    using shrunk_heap [OF sh that] live_fd_eq [OF inv _ c, of r d] k by auto
  with sh show ?thesis
    by (intro informedI) (use D(1) informedD(2,3) [OF i] in \<open>auto simp: status_msg_sel\<close>)
qed

lemma informed_sent:
  assumes inv: "mem_inv s" and c: "heap s p = Some c" "has_registered c" and p: "p \<notin> set cs"
    and k: "sent_to (c_fd c) k = sent_to (c_fd c) (kern s) @ encode_message (status_msg s)"
      "\<And>fd. fd \<noteq> c_fd c \<Longrightarrow> sent_to fd k = sent_to fd (kern s)"
    and i: "informed cs ((set_out_type t s)\<lparr>kern := k\<rparr>) s'"
  shows "informed (p # cs) s s'"
proof -
  let ?u = "(set_out_type t s)\<lparr>kern := k\<rparr>"
  from i obtain D where D: "D \<subseteq> set cs" "shrunk D ?u s'" by (auto simp: informed_def)
  have "shrunk {} s ?u" by (rule shrunk_refl) simp_all
  with D(2) have sh: "shrunk D s s'" by (metis shrunk_trans sup_bot_left)
  have "sent_to (c_fd d) k = sent_to (c_fd d) (kern s) @ (if r = p then encode_message (status_msg s) else [])
      \<and> (r = p \<longrightarrow> d = c)" if "heap s' r = Some d" for r d
    using shrunk_heap [OF sh that] live_fd_eq [OF inv _ c(1), of r d] k c by auto
  with sh show ?thesis
    by (intro informedI) (use D(1) p c(2) informedD(2,3) [OF i] in \<open>auto simp: status_msg_sel\<close>)
qed

lemma wp_bcast_status_loop:
  "mem_inv s \<Longrightarrow> distinct cs \<Longrightarrow> set cs \<subseteq> set (clients s) \<Longrightarrow>
   wp (bcast_status_loop cs s) (\<lambda>s'. mem_inv s' \<and> informed cs s s')"
proof (induction cs arbitrary: s)
  case Nil
  then show ?case by (auto simp: wp informed_def intro: shrunk_refl)
next
  case (Cons p cs)
  let ?s1 = "set_out_type (sched_status s) s"
  have "p \<in> dom (heap s)" using Cons.prems mem_invD(2) by fastforce
  then obtain c where c: "heap s p = Some c" by blast
  have lost: "wp (delete_client p (?s1\<lparr>kern := k\<rparr>)) (\<lambda>u. wp (bcast_status_loop cs u) (\<lambda>s'. mem_inv s' \<and> informed (p # cs) s s'))"
    if k: "\<And>fd. fd \<noteq> c_fd c \<Longrightarrow> sent_to fd k = sent_to fd (kern s)" for k
  proof (rule wp_delete_client)
    fix k' assume k': "\<And>fd. sent_to fd k' = sent_to fd (kern (?s1\<lparr>kern := k\<rparr>))"
    let ?u = "(forget p ?s1)\<lparr>kern := k'\<rparr>"
    have "wp (bcast_status_loop cs ?u) (\<lambda>s'. mem_inv s' \<and> informed cs ?u s')"
      by (rule Cons.IH) (use Cons.prems mem_invD(1) [of s] in \<open>auto intro: mem_inv_forget\<close>)
    then have "wp (bcast_status_loop cs ?u) (\<lambda>s'. mem_inv s' \<and> informed (p # cs) s s')"
    proof (rule wp_mono)
      fix s' assume s': "mem_inv s' \<and> informed cs ?u s'"
      have "informed (p # cs) s s'"
        by (rule informed_lost [OF Cons.prems(1) c _ conjunct2 [OF s']]) (use k k' in simp)
      with s' show "mem_inv s' \<and> informed (p # cs) s s'" by simp
    qed
    then show "wp (bcast_status_loop cs ((forget p (?s1\<lparr>kern := k\<rparr>))\<lparr>kern := k'\<rparr>)) (\<lambda>s'. mem_inv s' \<and> informed (p # cs) s s')"
      by (simp add: forget_def unrequest_def)
  qed (use Cons.prems c in auto)
  have reached: "wp (bcast_status_loop cs (?s1\<lparr>kern := k\<rparr>)) (\<lambda>s'. mem_inv s' \<and> informed (p # cs) s s')"
    if "has_registered c" "sent_to (c_fd c) k = sent_to (c_fd c) (kern s) @ encode_message (status_msg s)"
      "\<And>fd. fd \<noteq> c_fd c \<Longrightarrow> sent_to fd k = sent_to fd (kern s)" for k
    by (rule wp_mono [OF Cons.IH]) (use Cons.prems c that in \<open>auto intro!: informed_sent [OF _ c]\<close>)
  show ?case
  proof (cases "has_registered c")
    case False
    have "wp (bcast_status_loop cs s) (\<lambda>s'. mem_inv s' \<and> informed (p # cs) s s')"
      by (rule wp_mono [OF Cons.IH]) (use Cons.prems c False in \<open>auto intro: informed_skip\<close>)
    with c False show ?thesis by (simp add: wp)
  next
    case True
    have "wp (send_message p (out_msg ?s1) ?s1) (\<lambda>(r, t). wp (if r < 0 then bindR (delete_client p t) (bcast_status_loop cs)
        else bcast_status_loop cs t) (\<lambda>s'. mem_inv s' \<and> informed (p # cs) s s'))"
    proof (rule wp_send_message [where c = c], goal_cases)
      case (3 k)
      then show ?case using lost [of k] by (simp add: wp)
    next
      case (4 k)
      then show ?case using reached [of k] True by (simp add: wp status_msg_def)
    qed (use c mem_invD(5) [OF Cons.prems(1)] in auto)
    with c True show ?thesis by (simp add: wp Let_def case_prod_unfold)
  qed
qed

lemma wp_bcast_status:
  "mem_inv s \<Longrightarrow> wp (bcast_status s) (\<lambda>s'. mem_inv s' \<and> informed (clients s) s s')"
  unfolding bcast_status_def by (rule wp_bcast_status_loop) (auto dest: mem_invD(1))

section \<open>\<open>register_client\<close>\<close>

lemma wp_pick_id: "wp (pick_id ids rs) (\<lambda>(i, rs'). i \<noteq> NVSHARE_UNREGISTERED_ID \<and> i \<notin> set ids)"
proof (induction ids rs rule: pick_id.induct)
  case (1 ids rs)
  show ?case
  proof (cases "nvshare_generate_id rs")
    case (Inl f)
    then show ?thesis
      using nvshare_generate_id_fault [of rs f] by (subst pick_id.simps) (simp add: wp)
  next
    case (Inr x)
    then obtain i rs' where "nvshare_generate_id rs = Inr (i, rs')" by (cases x) auto
    with 1 show ?thesis by (subst pick_id.simps) (auto simp: wp)
  qed
qed

lemma deref_all_eq: "set ps \<subseteq> dom (heap s) \<Longrightarrow> deref_all s ps = Inr (map (\<lambda>p. the (heap s p)) ps)"
  by (induction ps) auto

text \<open>The message that tells a client its ID, and the state after a registration.\<close>

definition id_msg :: "64 word \<Rightarrow> sched \<Rightarrow> message" where
  "id_msg i s = (out_msg s)\<lparr>m_data := show_016x i @ NUL # drop 17 (m_data (out_msg s)),
     m_type := message_type_code (sched_status s)\<rparr>"

definition enrolled :: "addr \<Rightarrow> nvshare_client \<Rightarrow> sched \<Rightarrow> sched \<Rightarrow> bool" where
  "enrolled p c s s' \<longleftrightarrow>
     (\<exists>rs k. s' = s\<lparr>heap := (heap s)(p \<mapsto> c), rands := rs, kern := k,
        out_msg := (status_msg s)\<lparr>m_data := replicate MSG_DATA_LEN NUL\<rparr>\<rparr>)"

lemma id_msg_ok: "message_ok (out_msg s) \<Longrightarrow> message_ok (id_msg i s)"
  by (simp add: message_ok_def id_msg_def length_show_016x MSG_DATA_LEN_def)

lemma mem_inv_enrolled:
  assumes inv: "mem_inv s" and c: "heap s p = Some c" "\<not> has_registered c" and i: "i \<noteq> NVSHARE_UNREGISTERED_ID"
    and fresh: "\<And>q d. heap s q = Some d \<Longrightarrow> c_id d \<noteq> i"
    and ok: "length pn = POD_NAME_LEN_MAX" "length pns = POD_NAMESPACE_LEN_MAX"
    and s': "enrolled p (c\<lparr>c_id := i, c_pod_name := pn, c_pod_namespace := pns\<rparr>) s s'"
  shows "mem_inv s'"
proof -
  have p: "p \<notin> set (requests s)" using mem_invD(8) [OF inv] c by fastforce
  let ?c = "c\<lparr>c_id := i, c_pod_name := pn, c_pod_namespace := pns\<rparr>"
  let ?h = "(heap s)(p \<mapsto> ?c)"
  have *: "heap s' = ?h" "clients s' = clients s" "requests s' = requests s" "lock_held s' = lock_held s"
    "stale s' = stale s" "mallocs s' = mallocs s" "message_ok (out_msg s')"
    using s' mem_invD(5) [OF inv] by (auto simp: enrolled_def status_msg_def message_ok_def)
  have fds: "a = b" if "?h a = Some d" "?h b = Some e" "c_fd d = c_fd e" for a b d e
    using that live_fd_eq [OF inv] c(1) by (auto split: if_splits)
  have ids: "a = b" if "?h a = Some d" "?h b = Some e" "has_registered d" "c_id d = c_id e" for a b d e
    using that fresh [of a d] fresh [of b e] mem_invD(10) [OF inv, of a d b e]
    by (cases "a = p"; cases "b = p") auto
  show ?thesis
  proof (rule mem_invI, unfold *)
    show "dom ?h = set (clients s)" using c(1) mem_invD(2) [OF inv] by auto
    show "c_fd d \<noteq> stale s q" if "?h a = Some d" for a d q
      using mem_invD(7) [OF inv] c(1) that by (auto split: if_splits)
    show "client_ok d" if "?h a = Some d" for a d
      using mem_invD(9) [OF inv] ok that by (auto simp: client_ok_def split: if_splits)
    show "\<exists>d. ?h a = Some d \<and> has_registered d" if "a \<in> set (requests s)" for a
      using mem_invD(8) [OF inv that] p that by auto
    show "a = b" if "?h a = Some d" "?h b = Some e" "c_fd d = c_fd e" for a b d e
      using that by (rule fds)
    show "a = b" if "?h a = Some d" "?h b = Some e" "has_registered d" "c_id d = c_id e" for a b d e
      using that by (rule ids)
  qed (rule mem_invD(1,3,4,11) [OF inv] *(7); assumption)+
qed

lemma wp_register_client:
  assumes inv: "mem_inv s" and c: "heap s p = Some c" and m: "message_ok m" "NUL \<in> set (m_data m)"
    and old: "has_registered c \<Longrightarrow> Q (- 1, s)"
    and new: "\<And>i c' s'. \<not> has_registered c \<Longrightarrow> has_registered c' \<Longrightarrow> c_fd c' = c_fd c \<Longrightarrow> c_id c' = i \<Longrightarrow>
      (\<And>q d. heap s q = Some d \<Longrightarrow> c_id d \<noteq> i) \<Longrightarrow> enrolled p c' s s' \<Longrightarrow> mem_inv s' \<Longrightarrow>
      (\<And>fd. fd \<noteq> c_fd c \<Longrightarrow> sent_to fd (kern s') = sent_to fd (kern s)) \<Longrightarrow>
      Q (- 1, s') \<and> (sent_to (c_fd c) (kern s') = sent_to (c_fd c) (kern s) @ encode_message (id_msg i s) \<longrightarrow> Q (0, s'))"
  shows "wp (register_client p m s) Q"
proof (cases "has_registered c")
  case True
  with c old show ?thesis by (simp add: register_client_def wp)
next
  case False
  have ids: "deref_all s (clients s) = Inr (map (\<lambda>p. the (heap s p)) (clients s))"
    by (rule deref_all_eq) (simp add: mem_invD(2) [OF inv])
  have len: "length (c_pod_name c) = POD_NAME_LEN_MAX" "length (c_pod_namespace c) = POD_NAMESPACE_LEN_MAX"
    using mem_invD(9) [OF inv c] by (simp_all add: client_ok_def)
  have "NUL \<in> set (drop 1 (encode_message m))" "NUL \<in> set (drop (1 + POD_NAME_LEN_MAX) (encode_message m))"
    using m by (simp_all add: encode_message_def message_ok_def del: le_bytes.simps)
  note cp = strlcpy_string [OF this(1), of POD_NAME_LEN_MAX "c_pod_name c"]
    strlcpy_string [OF this(2), of POD_NAMESPACE_LEN_MAX "c_pod_namespace c"]
  obtain pn where pn: "\<exists>n. strlcpy (c_pod_name c) (drop 1 (encode_message m)) POD_NAME_LEN_MAX = Inr (pn, n)"
    "length pn = POD_NAME_LEN_MAX"
    using cp(1) len(1) by (simp add: msg_sizes Let_def)
  obtain pns where pns: "\<exists>n. strlcpy (c_pod_namespace c) (drop (1 + POD_NAME_LEN_MAX) (encode_message m)) POD_NAMESPACE_LEN_MAX = Inr (pns, n)"
    "length pns = POD_NAMESPACE_LEN_MAX"
    using cp(2) len(2) by (simp add: msg_sizes Let_def)
  have step: "wp (send_message p (id_msg i s) (s\<lparr>heap := (heap s)(p \<mapsto> c'), rands := rs, out_msg := id_msg i s\<rparr>)) (\<lambda>(r, t).
      Q (r, t\<lparr>out_msg := (out_msg t)\<lparr>m_data := replicate MSG_DATA_LEN NUL\<rparr>\<rparr>))"
    if i: "i \<noteq> NVSHARE_UNREGISTERED_ID" "i \<notin> set (map c_id (map (\<lambda>p. the (heap s p)) (clients s)))"
      and c': "c' = c\<lparr>c_id := i, c_pod_name := pn, c_pod_namespace := pns\<rparr>" for i c' rs
  proof -
    have fresh: "c_id d \<noteq> i" if "heap s q = Some d" for q d
      using i(2) that mem_invD(2) [OF inv] by force
    let ?t = "\<lambda>k. s\<lparr>heap := (heap s)(p \<mapsto> c'), rands := rs, kern := k,
        out_msg := (status_msg s)\<lparr>m_data := replicate MSG_DATA_LEN NUL\<rparr>\<rparr>"
    have en: "enrolled p c' s (?t k)" for k by (auto simp: enrolled_def)
    have inv': "mem_inv (?t k)" for k
      by (rule mem_inv_enrolled [OF inv c False i(1) _ pn(2) pns(2)]) (erule fresh, use en [of k] c' in simp)
    have c'': "has_registered c'" "c_fd c' = c_fd c" "c_id c' = i" using c' i by (simp_all add: has_registered_def)
    have eq: "(id_msg i s)\<lparr>m_data := replicate MSG_DATA_LEN NUL\<rparr> = (status_msg s)\<lparr>m_data := replicate MSG_DATA_LEN NUL\<rparr>"
      by (cases "out_msg s") (simp add: id_msg_def status_msg_def)
    show ?thesis
    proof (rule wp_send_message [where c = c'], goal_cases)
      case (3 k)
      then show ?case using new [OF False c'' _ en [of k] inv' [of k]] fresh c'' eq by simp
    next
      case (4 k)
      then show ?case using new [OF False c'' _ en [of k] inv' [of k]] fresh c'' eq by simp
    qed (use id_msg_ok mem_invD(5) [OF inv] in auto)
  qed
  have status: "sched_status (s\<lparr>heap := h, rands := rs\<rparr>) = sched_status s" for h rs
    by (simp add: sched_status_def)
  show ?thesis
    using c False pn(1) pns(1) ids
    apply (clarsimp simp: register_client_def wp snprintf_def length_show_016x Let_def status)
    apply (rule wp_mono [OF wp_pick_id])
    apply (clarsimp simp: wp set_out_type_def case_prod_unfold)
    subgoal for n na i rs
      using step [of i _ rs] by (simp add: id_msg_def status_msg_def case_prod_unfold)
    done
qed

end
