(* ===== verification/Scheduler_Spec.thy ===== *)
theory Scheduler_Spec
  imports Scheduler_Lock
begin

text \<open>
  What the scheduler promises: an abstract lock manager with a queue, of which the head holds the
  lock whenever the lock is held, and the proof that the message handlers and the main thread of
  \<open>src/src/scheduler.c\<close> implement it. The abstract steps are nondeterministic in one
  respect: when the lock is handed out, the clients at the head of the queue that turn out to be
  unreachable are dropped, and the environment decides which those are.
\<close>

section \<open>The abstract lock manager\<close>

record lm =
  lm_on :: bool
  lm_queue :: "addr list"
  lm_held :: bool

definition lm_request :: "addr \<Rightarrow> lm \<Rightarrow> lm" where
  "lm_request p a = a\<lparr>lm_queue := if p \<in> set (lm_queue a) then lm_queue a else lm_queue a @ [p]\<rparr>"

definition lm_release :: "addr \<Rightarrow> lm \<Rightarrow> lm" where
  "lm_release p a = a\<lparr>lm_queue := remove1 p (lm_queue a),
     lm_held := lm_held a \<and> \<not> (lm_queue a \<noteq> [] \<and> hd (lm_queue a) = p)\<rparr>"

definition lm_serve :: "lm \<Rightarrow> lm \<Rightarrow> bool" where
  "lm_serve a b \<longleftrightarrow>
     (if lm_held a then b = a
      else lm_on b = lm_on a \<and> (\<exists>dead. lm_queue a = dead @ lm_queue b) \<and> lm_held b = (lm_queue b \<noteq> []))"

datatype lm_event = Request addr | Release addr | Leave addr | Expel addr | Switch_on | Switch_off | Ignore

inductive lm_step :: "lm \<Rightarrow> lm_event \<Rightarrow> lm \<Rightarrow> bool" where
  request: "lm_on a \<Longrightarrow> lm_serve (lm_request p a) b \<Longrightarrow> lm_step a (Request p) b"
| release: "lm_on a \<Longrightarrow> lm_serve (lm_release p a) b \<Longrightarrow> lm_step a (Release p) b"
| leave_on: "lm_on a \<Longrightarrow> lm_serve (lm_release p a) b \<Longrightarrow> lm_step a (Leave p) b"
| leave_off: "\<not> lm_on a \<Longrightarrow> lm_step a (Leave p) (lm_release p a)"
| expel: "lm_step a (Expel p) (lm_release p a)"
| switch_on: "\<not> lm_on a \<Longrightarrow> lm_step a Switch_on \<lparr>lm_on = True, lm_queue = [], lm_held = False\<rparr>"
| switch_off: "lm_on a \<Longrightarrow> lm_step a Switch_off \<lparr>lm_on = False, lm_queue = [], lm_held = False\<rparr>"
| ignore: "lm_step a Ignore a"

inductive_simps lm_step_simps [simp]:
  "lm_step a (Request p) b" "lm_step a (Release p) b" "lm_step a (Leave p) b" "lm_step a (Expel p) b"
  "lm_step a Switch_on b" "lm_step a Switch_off b" "lm_step a Ignore b"

inductive_cases lm_stepE: "lm_step a e b"

definition lm_ok :: "lm \<Rightarrow> bool" where
  "lm_ok a \<longleftrightarrow> distinct (lm_queue a) \<and> (lm_held a \<longrightarrow> lm_queue a \<noteq> []) \<and> (\<not> lm_on a \<longrightarrow> lm_queue a = [])"

definition lm_no_idle :: "lm \<Rightarrow> bool" where
  "lm_no_idle a \<longleftrightarrow> (lm_on a \<and> lm_queue a \<noteq> [] \<longrightarrow> lm_held a)"

definition lm_holder :: "lm \<Rightarrow> addr option" where
  "lm_holder a = (if lm_held a then (case lm_queue a of [] \<Rightarrow> None | p # _ \<Rightarrow> Some p) else None)"

lemma lm_serve_ok: "lm_serve a b \<Longrightarrow> lm_ok a \<Longrightarrow> lm_ok b"
  by (auto simp: lm_serve_def lm_ok_def split: if_splits)

lemma lm_request_ok: "lm_ok a \<Longrightarrow> lm_on a \<Longrightarrow> lm_ok (lm_request p a)"
  by (auto simp: lm_ok_def lm_request_def)

lemma lm_release_ok: "lm_ok a \<Longrightarrow> lm_ok (lm_release p a)"
  by (cases "lm_queue a") (auto simp: lm_ok_def lm_release_def)

lemma lm_step_ok: "lm_step a e b \<Longrightarrow> lm_ok a \<Longrightarrow> lm_ok b"
  by (erule lm_stepE)
    (auto intro: lm_serve_ok lm_request_ok lm_release_ok simp: lm_ok_def [of "\<lparr>lm_on = _, lm_queue = [], lm_held = _\<rparr>"])

lemma lm_serve_no_idle: "lm_serve a b \<Longrightarrow> lm_no_idle b"
  by (auto simp: lm_serve_def lm_no_idle_def split: if_splits)

text \<open>The lock is never left free with clients waiting, except by expelling its holder.\<close>

lemma lm_step_no_idle:
  assumes "lm_step a e b" "lm_ok a" "lm_no_idle a" "\<And>p. e = Expel p \<Longrightarrow> lm_holder a \<noteq> Some p"
  shows "lm_no_idle b"
proof (cases e)
  case (Expel p)
  with assms show ?thesis
    by (cases "lm_queue a") (auto simp: lm_no_idle_def lm_release_def lm_holder_def lm_ok_def split: if_splits)
next
  case (Leave p)
  with assms(1) show ?thesis by (auto simp: lm_no_idle_def lm_release_def dest: lm_serve_no_idle)
qed (use assms in \<open>auto simp: lm_no_idle_def dest: lm_serve_no_idle\<close>)

section \<open>The handlers implement it\<close>

definition lm_abs :: "sched \<Rightarrow> lm" where
  "lm_abs s = \<lparr>lm_on = scheduler_on s, lm_queue = requests s, lm_held = lock_held s\<rparr>"

definition registered_at :: "sched \<Rightarrow> addr \<Rightarrow> bool" where
  "registered_at s p \<longleftrightarrow> (case heap s p of None \<Rightarrow> False | Some c \<Rightarrow> has_registered c)"

text \<open>What a message from the client \<open>p\<close> means to the lock manager.\<close>

definition msg_event :: "sched \<Rightarrow> addr \<Rightarrow> message \<Rightarrow> lm_event" where
  "msg_event s p m =
     (case message_type_of (m_type m) of
        Some REGISTER \<Rightarrow> if registered_at s p then Expel p else Ignore
      | Some SCHED_ON \<Rightarrow> if scheduler_on s then Ignore else Switch_on
      | Some SCHED_OFF \<Rightarrow> if scheduler_on s then Switch_off else Ignore
      | Some REQ_LOCK \<Rightarrow> if registered_at s p \<and> scheduler_on s then Request p else Ignore
      | Some LOCK_RELEASED \<Rightarrow> if registered_at s p \<and> scheduler_on s then Release p else Ignore
      | _ \<Rightarrow> Ignore)"

lemma lm_abs_sel [simp]:
  "lm_on (lm_abs s) = scheduler_on s" "lm_queue (lm_abs s) = requests s" "lm_held (lm_abs s) = lock_held s"
  by (simp_all add: lm_abs_def)

lemma lm_abs_kern [simp]:
  "lm_abs (s\<lparr>kern := k\<rparr>) = lm_abs s" "lm_abs (s\<lparr>mallocs := ms\<rparr>) = lm_abs s"
  by (simp_all add: lm_abs_def)

lemma sched_inv_kern [simp]: "sched_inv (s\<lparr>kern := k\<rparr>) = sched_inv s"
  by (simp add: sched_inv_def)

lemma lm_abs_release:
  "lm_abs (forget p s) = lm_release p (lm_abs s)" "lm_abs (unrequest p s) = lm_release p (lm_abs s)"
  by (auto simp: lm_abs_def lm_release_def unrequest_def)

lemma lm_release_absent: "p \<notin> set (lm_queue a) \<Longrightarrow> lm_release p a = a"
  by (cases "lm_queue a") (auto simp: lm_release_def remove1_idem)

lemma lm_ok_abs: "sched_inv s \<Longrightarrow> lm_ok (lm_abs s)"
  by (auto simp: lm_ok_def sched_inv_def dest: mem_invD(3,4))

lemma no_idle_abs: "lm_no_idle (lm_abs s) = no_idle s"
  by (simp add: lm_no_idle_def no_idle_def)

lemma holder_abs: "lm_holder (lm_abs s) = holder s"
  by (simp add: lm_holder_def holder_def)

lemma unregistered_no_request: "mem_inv s \<Longrightarrow> \<not> registered_at s p \<Longrightarrow> p \<notin> set (requests s)"
  by (force dest: mem_invD(8) simp: registered_at_def)

lemma sched_inv_forget: "sched_inv s \<Longrightarrow> sched_inv (forget p s)"
  by (simp add: sched_inv_def mem_inv_forget)

lemma granted_serve: "granted s s' \<Longrightarrow> \<not> lock_held s \<Longrightarrow> lm_serve (lm_abs s) (lm_abs s')"
  by (auto simp: granted_def lm_serve_def shrunk_def)

lemma wp_serve:
  assumes "mem_inv s" "scheduler_on s"
  shows "wp (if \<not> lock_held s then try_schedule s else Inr s) (\<lambda>s'. sched_inv s' \<and> lm_serve (lm_abs s) (lm_abs s'))"
proof (cases "lock_held s")
  case True
  with assms show ?thesis by (simp add: wp lm_serve_def sched_inv_def)
next
  case False
  have "wp (try_schedule s) (\<lambda>s'. sched_inv s' \<and> lm_serve (lm_abs s) (lm_abs s'))"
    by (rule wp_mono [OF wp_try_schedule [OF assms(1) False]])
      (use False assms(2) granted_serve in \<open>auto simp: sched_inv_def granted_def shrunk_def\<close>)
  with False show ?thesis by simp
qed

lemma wp_insert_req:
  assumes inv: "sched_inv s" "scheduler_on s" and p: "registered_at s p"
  shows "wp (insert_req p s) (\<lambda>s'. mem_inv s' \<and> scheduler_on s' \<and> lm_abs s' = lm_request p (lm_abs s))"
proof -
  have m: "mem_inv s" using inv by (simp add: sched_inv_def)
  obtain c where c: "heap s p = Some c" "has_registered c"
    using p by (auto simp: registered_at_def split: option.splits)
  have "mem_inv (s\<lparr>mallocs := ms, requests := requests s @ [p]\<rparr>)"
    if "p \<notin> set (requests s)" "mallocs s = x # ms" for x ms
    using m c that unfolding mem_inv_def by auto
  then show ?thesis
    using insert_req_loop_eq [OF m c(1), of "requests s"] m inv(2)
    by (auto simp: insert_req_def wp pop_malloc_def lm_request_def lm_abs_def split: list.splits option.splits)
qed

lemma wp_req_lock:
  assumes "sched_inv s" "scheduler_on s" "registered_at s p"
  shows "wp (bindR (insert_req p s) (\<lambda>s. if \<not> lock_held s then try_schedule s else Inr s))
    (\<lambda>s'. sched_inv s' \<and> lm_step (lm_abs s) (Request p) (lm_abs s'))"
  unfolding wp_bind
  by (rule wp_mono [OF wp_insert_req [OF assms]], rule wp_mono [OF wp_serve]) (use assms(2) in auto)

lemma wp_lock_released:
  assumes inv: "sched_inv s" and on: "scheduler_on s" and p: "registered_at s p"
  shows "wp (bindR (remove_req p s) (\<lambda>s. if \<not> lock_held s then try_schedule s else Inr s))
    (\<lambda>s'. sched_inv s' \<and> lm_step (lm_abs s) (Release p) (lm_abs s'))"
proof -
  have m: "mem_inv s" using inv by (simp add: sched_inv_def)
  obtain c where c: "heap s p = Some c" using p by (auto simp: registered_at_def split: option.splits)
  have "wp (if \<not> lock_held (unrequest p s) then try_schedule (unrequest p s) else Inr (unrequest p s))
      (\<lambda>s'. sched_inv s' \<and> lm_serve (lm_abs (unrequest p s)) (lm_abs s'))"
    by (rule wp_serve) (use mem_inv_unrequest [OF m] on in \<open>auto simp: unrequest_def\<close>)
  with remove_req_eq [OF m c] on show ?thesis by (simp add: wp lm_abs_release)
qed

lemma wp_drop_client:
  assumes inv: "sched_inv s" and c: "heap s p = Some c"
  shows "wp (drop_client p s) (\<lambda>s'. sched_inv s' \<and> lm_step (lm_abs s) (Leave p) (lm_abs s'))"
  unfolding drop_client_def wp_bind
proof (rule wp_delete_client [OF _ c], goal_cases)
  case (2 k)
  let ?t = "(forget p s)\<lparr>kern := k\<rparr>"
  have m: "mem_inv ?t" and i: "sched_inv ?t" using inv by (auto simp: sched_inv_forget sched_inv_def mem_inv_forget)
  show ?case
  proof (cases "scheduler_on s")
    case True
    then show ?thesis using wp_serve [OF m] by (simp add: lm_abs_release)
  next
    case False
    then show ?thesis using i by (simp add: wp lm_abs_release)
  qed
qed (use inv in \<open>simp add: sched_inv_def\<close>)

lemma wp_expel:
  assumes inv: "sched_inv s" and c: "heap s p = Some c"
  shows "wp (delete_client p s) (\<lambda>s'. sched_inv s' \<and> lm_abs s' = lm_release p (lm_abs s))"
  by (rule wp_delete_client [OF _ c])
    (use inv in \<open>auto simp: sched_inv_def mem_inv_forget lm_abs_release\<close>)

lemma wp_expel_unregistered:
  assumes inv: "sched_inv s" and c: "heap s p = Some c" "\<not> has_registered c"
  shows "wp (delete_client p s) (\<lambda>s'. sched_inv s' \<and> lm_abs s' = lm_abs s)"
proof -
  have "p \<notin> set (requests s)"
    using inv c by (intro unregistered_no_request) (auto simp: sched_inv_def registered_at_def)
  then show ?thesis using wp_expel [OF inv c(1)] by (simp add: lm_release_absent)
qed

lemma wp_register:
  assumes inv: "sched_inv s" and c: "heap s p = Some c" and m: "message_ok m" "NUL \<in> set (m_data m)"
  shows "wp (bindR (register_client p m s) (\<lambda>(r, s). if r < 0 then delete_client p s else Inr s))
    (\<lambda>s'. sched_inv s' \<and> lm_step (lm_abs s) (if has_registered c then Expel p else Ignore) (lm_abs s'))"
  unfolding wp_bind
proof (rule wp_register_client [OF _ c m], goal_cases)
  case 2
  then show ?case using wp_expel [OF inv c] by simp
next
  case (3 i c' s')
  have inv': "sched_inv s'" and abs': "lm_abs s' = lm_abs s" and c': "heap s' p = Some c'"
    using 3 inv by (auto simp: sched_inv_def enrolled_def lm_abs_def)
  have "p \<notin> set (requests s)"
    using 3(1) c inv by (intro unregistered_no_request) (auto simp: sched_inv_def registered_at_def)
  then have "wp (delete_client p s') (\<lambda>s''. sched_inv s'' \<and> lm_abs s'' = lm_abs s)"
    using wp_expel [OF inv' c'] abs' by (simp add: lm_release_absent)
  then show ?case using 3(1) inv' abs' by (simp add: wp)
qed (use inv in \<open>simp add: sched_inv_def\<close>)

lemma wp_switch_on:
  assumes "sched_inv s" "\<not> scheduler_on s"
  shows "wp (bcast_status (s\<lparr>scheduler_on := True\<rparr>)) (\<lambda>s'. sched_inv s' \<and> lm_step (lm_abs s) Switch_on (lm_abs s'))"
proof (rule wp_mono [OF wp_bcast_status], goal_cases)
  case (2 s')
  with assms mem_invD(4) [of s'] show ?case
    by (auto simp: sched_inv_def informed_def shrunk_def lm_abs_def)
qed (use assms in \<open>simp add: sched_inv_def\<close>)

lemma wp_switch_off:
  assumes "sched_inv s" "scheduler_on s"
  shows "wp (bindR (bcast_status (s\<lparr>scheduler_on := False\<rparr>)) (\<lambda>s. Inr (s\<lparr>requests := [], lock_held := False\<rparr>)))
    (\<lambda>s'. sched_inv s' \<and> lm_step (lm_abs s) Switch_off (lm_abs s'))"
  unfolding wp_bind
proof (rule wp_mono [OF wp_bcast_status], goal_cases)
  case (2 s')
  with assms mem_inv_no_requests [of s'] show ?case
    by (auto simp: wp sched_inv_def informed_def shrunk_def lm_abs_def)
qed (use assms in \<open>simp add: sched_inv_def\<close>)

lemma wp_process_msg:
  assumes inv: "sched_inv s" and c: "heap s p = Some c" and m: "message_ok m" "NUL \<in> set (m_data m)"
  shows "wp (process_msg p m s) (\<lambda>s'. sched_inv s' \<and> lm_step (lm_abs s) (msg_event s p m) (lm_abs s'))"
proof -
  note reg = registered_at_def [of s p]
  show ?thesis
  proof (cases "message_type_of (m_type m)")
    case None
    with inv show ?thesis by (simp add: process_msg_def msg_event_def wp)
  next
    case (Some t)
    show ?thesis
    proof (cases t)
      case REGISTER
      with Some c wp_register [OF inv c m] show ?thesis by (simp add: process_msg_def msg_event_def reg)
    next
      case SCHED_ON
      with Some inv wp_switch_on [OF inv] show ?thesis by (simp add: process_msg_def msg_event_def wp)
    next
      case SCHED_OFF
      with Some inv wp_switch_off [OF inv] show ?thesis by (simp add: process_msg_def msg_event_def wp)
    next
      case REQ_LOCK
      with Some c inv wp_req_lock [OF inv, of p] wp_expel_unregistered [OF inv c] show ?thesis
        by (simp add: process_msg_def msg_event_def wp reg)
    next
      case LOCK_RELEASED
      with Some c inv wp_lock_released [OF inv, of p] wp_expel_unregistered [OF inv c] show ?thesis
        by (simp add: process_msg_def msg_event_def wp reg)
    next
      case SET_TQ
      with Some inv m(2) show ?thesis
        by (auto simp: process_msg_def msg_event_def process_set_tq_def wp Let_def sched_inv_def lm_abs_def)
    qed (use Some inv in \<open>simp_all add: process_msg_def msg_event_def wp\<close>)
  qed
qed

section \<open>The main thread implements it\<close>

text \<open>
  What the main thread relies on. For a new connection: the descriptor is none of an open
  connection, nor a value left behind in freed memory (so that \<open>stale_harmless\<close>, an assumption about the memory manager that
  C does not guarantee, still holds with the new client), and \<open>malloc\<close> returns a new object. For an event of a
  client: the object behind the event's pointer is live, and the strings in the message that
  is read end within the message.
\<close>

definition accept_ok :: "int \<Rightarrow> sched \<Rightarrow> bool" where
  "accept_ok lsock s \<longleftrightarrow>
     (case retry_intr (Sys_accept4 lsock) (kern s) of
        Inl _ \<Rightarrow> True
      | Inr (a, k) \<Rightarrow> ret a < 0 \<or> ((\<forall>p \<in> set (clients s). c_fd (the (heap s p)) \<noteq> ret a) \<and> (\<forall>q. stale s q \<noteq> ret a)))
     \<and> (case mallocs s of [] \<Rightarrow> True | None # _ \<Rightarrow> False | Some (p, c) # _ \<Rightarrow> p \<notin> set (clients s))"

definition receive_ok :: "addr \<Rightarrow> sched \<Rightarrow> bool" where
  "receive_ok p s \<longleftrightarrow>
     (case heap s p of
        None \<Rightarrow> False
      | Some c \<Rightarrow>
          (case nvshare_receive_noblock (c_fd c) sizeof_message (kern s) of
             Inl _ \<Rightarrow> True
           | Inr (a, buf, k) \<Rightarrow> NUL \<in> set (m_data (decode_message buf))))"

definition event_ok :: "int \<Rightarrow> epoll_event \<Rightarrow> sched \<Rightarrow> bool" where
  "event_ok lsock ev s \<longleftrightarrow>
     (if data_fd (ev_data ev) = lsock then accept_ok lsock s else receive_ok (ev_data ev) s)"

definition event_label :: "int \<Rightarrow> epoll_event \<Rightarrow> sched \<Rightarrow> lm_event" where
  "event_label lsock ev s =
     (let p = ev_data ev in
      if data_fd p = lsock then Ignore
      else if ev_events ev AND EPOLLIN \<noteq> 0 then
        (case receive_message p s of
           Inl _ \<Rightarrow> Ignore
         | Inr (r, m, _) \<Rightarrow> if r < 0 then Leave p else msg_event s p m)
      else if ev_events ev AND (EPOLLERR OR EPOLLHUP) \<noteq> 0 then Leave p
      else Ignore)"

lemma message_ok_zero_fill: "message_ok (decode_message (zero_fill sizeof_message bs))"
  by (auto simp: message_ok_def decode_message_def zero_fill_def msg_sizes min_def)

lemma receive_message_cases:
  assumes c: "heap s p = Some c" and ok: "receive_ok p s"
  shows "(\<exists>f. receive_message p s = Inl f \<and> \<not> undefined_behaviour f)
    \<or> (\<exists>m k. receive_message p s = Inr (- 1, m, s\<lparr>kern := k\<rparr>))
    \<or> (\<exists>m k. receive_message p s = Inr (0, m, s\<lparr>kern := k\<rparr>) \<and> message_ok m \<and> NUL \<in> set (m_data m))"
proof (cases "nvshare_receive_noblock (c_fd c) sizeof_message (kern s)")
  case (Inl f)
  then have "f = Blocked"
    by (auto simp: nvshare_receive_noblock_def bindR_Inl_iff dest: retry_intr_fault)
  with Inl c show ?thesis by (simp add: receive_message_def)
next
  case (Inr x)
  then obtain a buf k where r: "nvshare_receive_noblock (c_fd c) sizeof_message (kern s) = Inr (a, buf, k)"
    by (cases x) auto
  then have "message_ok (decode_message buf)"
    by (auto simp: nvshare_receive_noblock_def bindR_Inr_iff intro: message_ok_zero_fill [simplified])
  moreover have "NUL \<in> set (m_data (decode_message buf))" using ok c r by (simp add: receive_ok_def)
  ultimately show ?thesis using c r by (auto simp: receive_message_def Let_def)
qed

lemma msg_event_kern [simp]: "msg_event (s\<lparr>kern := k\<rparr>) p m = msg_event s p m"
  by (simp add: msg_event_def registered_at_def)

lemma wp_client_event:
  assumes inv: "sched_inv s" and ok: "receive_ok p s" and l: "data_fd p \<noteq> lsock"
  shows "wp (client_event ev p s) (\<lambda>s'. sched_inv s'
    \<and> lm_step (lm_abs s) (event_label lsock \<lparr>ev_events = ev, ev_data = p\<rparr> s) (lm_abs s'))"
proof -
  obtain c where c: "heap s p = Some c" using ok by (auto simp: receive_ok_def split: option.splits)
  have drop: "wp (drop_client p (s\<lparr>kern := k\<rparr>)) (\<lambda>s'. sched_inv s' \<and> lm_step (lm_abs s) (Leave p) (lm_abs s'))" for k
    using wp_drop_client [of "s\<lparr>kern := k\<rparr>" p c] inv c by simp
  have msg: "wp (process_msg p m (s\<lparr>kern := k\<rparr>)) (\<lambda>s'. sched_inv s' \<and> lm_step (lm_abs s) (msg_event s p m) (lm_abs s'))"
    if "message_ok m" "NUL \<in> set (m_data m)" for m k
    using wp_process_msg [of "s\<lparr>kern := k\<rparr>" p c m] inv c that by simp
  from receive_message_cases [OF c ok] drop msg drop [of "kern s"] inv l show ?thesis
    by (auto simp: client_event_def event_label_def wp Let_def)
qed

lemma mem_inv_connect:
  assumes inv: "mem_inv s" and p: "p \<notin> set (clients s)" and ok: "client_ok c" "\<not> has_registered c"
    and fd: "\<forall>q \<in> set (clients s). c_fd (the (heap s q)) \<noteq> c_fd c" "\<forall>q. stale s q \<noteq> c_fd c"
    and ms: "mallocs s = x # ms"
  shows "mem_inv (s\<lparr>mallocs := ms, kern := k, heap := (heap s)(p \<mapsto> c), clients := clients s @ [p]\<rparr>)"
proof -
  have live: "q \<in> set (clients s)" if "heap s q = Some d" for q d
    using that mem_invD(2) [OF inv] by auto
  have old: "heap s p = None" using p mem_invD(2) [OF inv] by auto
  have fds: "c_fd d \<noteq> c_fd c" if "heap s q = Some d" for q d
    using fd(1) live [OF that] that by fastforce
  have p_req: "q \<noteq> p" if "q \<in> set (requests s)" for q
    using mem_invD(8) [OF inv that] old by auto
  let ?h = "(heap s)(p \<mapsto> c)"
  let ?s = "s\<lparr>mallocs := ms, kern := k, heap := ?h, clients := clients s @ [p]\<rparr>"
  show ?thesis
  proof (rule mem_invI)
    show "distinct (clients ?s)" using p mem_invD(1) [OF inv] by simp
    show "dom (heap ?s) = set (clients ?s)" using mem_invD(2) [OF inv] by simp
    show "a = b" if "heap ?s a = Some d" "heap ?s b = Some e" "c_fd d = c_fd e" for a b d e
      using that fds [of a d] fds [of b e] mem_invD(6) [OF inv, of a d b e]
      by (cases "a = p"; cases "b = p") auto
    show "a = b" if "heap ?s a = Some d" "heap ?s b = Some e" "has_registered d" "c_id d = c_id e" for a b d e
    proof -
      have "has_registered e" using that(3,4) by (simp add: has_registered_def)
      then have "a \<noteq> p" "b \<noteq> p" using that(1-3) ok(2) by auto
      then show ?thesis using mem_invD(10) [OF inv, of a d b e] that by simp
    qed
    show "c_fd d \<noteq> stale ?s q" if "heap ?s a = Some d" for a d q
      using that fd(2) [rule_format, of q] mem_invD(7) [OF inv, of a d q] by (cases "a = p") auto
    show "client_ok d" if "heap ?s a = Some d" for a d
      using that ok(1) mem_invD(9) [OF inv, of a d] by (simp split: if_splits)
    show "\<exists>d. heap ?s a = Some d \<and> has_registered d" if "a \<in> set (requests ?s)" for a
      using that mem_invD(8) [OF inv, of a] p_req [of a] by simp
    show "client_ok d" if "Some (a, d) \<in> set (mallocs ?s)" for a d
      using that ms mem_invD(11) [OF inv, of a d] by simp
  qed (use mem_invD(3,4,5) [OF inv] in simp_all)
qed

lemma wp_new_connection:
  assumes inv: "sched_inv s" and ok: "accept_ok lsock s"
  shows "wp (new_connection lsock s) (\<lambda>s'. sched_inv s' \<and> lm_abs s' = lm_abs s)"
proof -
  have m: "mem_inv s" using inv by (simp add: sched_inv_def)
  have conn: "mem_inv (s\<lparr>mallocs := ms, kern := k, heap := (heap s)(p \<mapsto> c\<lparr>c_fd := ret a, c_id := NVSHARE_UNREGISTERED_ID\<rparr>),
      clients := clients s @ [p]\<rparr>)"
    if "retry_intr (Sys_accept4 lsock) (kern s) = Inr (a, k')" "\<not> ret a < 0" "mallocs s = Some (p, c) # ms"
    for a k' k p c ms
    by (rule mem_inv_connect [OF m]) (use that ok mem_invD(11) [OF m, of p c] in
      \<open>auto simp: accept_ok_def has_registered_def client_ok_def\<close>)
  have pop: "mem_inv (s\<lparr>mallocs := ms, kern := k\<rparr>)" if "mallocs s = x # ms" for x ms k
    using m that by (simp add: mem_inv_def)
  from conn pop inv ok show ?thesis
    by (auto simp: new_connection_def nvshare_accept_def wp Let_def pop_malloc_def accept_ok_def sched_inv_def
        lm_abs_def split: list.splits option.splits prod.splits)
qed

lemma wp_handle_event:
  assumes "sched_inv s" "event_ok lsock ev s"
  shows "wp (handle_event lsock ev s) (\<lambda>s'. sched_inv s' \<and> lm_step (lm_abs s) (event_label lsock ev s) (lm_abs s'))"
proof (cases "data_fd (ev_data ev) = lsock")
  case True
  then have "wp (new_connection lsock s) (\<lambda>s'. sched_inv s' \<and> lm_step (lm_abs s) Ignore (lm_abs s'))"
    using wp_new_connection [of s lsock] assms by (simp add: event_ok_def)
  with True show ?thesis by (simp add: handle_event_def event_label_def)
next
  case False
  then show ?thesis
    using wp_client_event [of s "ev_data ev" lsock "ev_events ev"] assms
    by (cases ev) (simp add: handle_event_def event_ok_def)
qed

section \<open>First come, first served\<close>

fun precedes :: "'a \<Rightarrow> 'a \<Rightarrow> 'a list \<Rightarrow> bool" where
  "precedes p q [] = False"
| "precedes p q (x # xs) = (if x = p then q \<in> set xs else precedes p q xs)"

lemma precedes_in_set: "precedes p q xs \<Longrightarrow> q \<in> set xs"
  by (induction xs) (auto split: if_splits)

lemma precedes_filter: "precedes q p (filter P xs @ new) \<Longrightarrow> p \<notin> set new \<Longrightarrow> precedes q p xs"
  by (induction xs) (auto split: if_splits dest: precedes_in_set)

text \<open>
  The contract of a first-come-first-served lock, over any kind of state: a step removes some
  clients from the queue, adds new ones only at its end, and does not take the lock from a
  holder that stays in the queue. The lemmas follow histories, lists of consecutive states.
\<close>

locale fcfs_lock =
  fixes step :: "'s \<Rightarrow> 's \<Rightarrow> bool" and queue :: "'s \<Rightarrow> 'a list" and held :: "'s \<Rightarrow> bool" and ok :: "'s \<Rightarrow> bool"
  assumes ok_step: "ok s \<Longrightarrow> step s t \<Longrightarrow> ok t"
    and ok_distinct: "ok s \<Longrightarrow> distinct (queue s)"
    and ok_held: "ok s \<Longrightarrow> held s \<Longrightarrow> queue s \<noteq> []"
    and fifo: "ok s \<Longrightarrow> step s t \<Longrightarrow>
      \<exists>P new. queue t = filter P (queue s) @ new \<and> set new \<inter> set (queue s) = {}"
    and keeps: "ok s \<Longrightarrow> step s t \<Longrightarrow> held s \<Longrightarrow> hd (queue s) \<in> set (queue t) \<Longrightarrow> held t"
begin

lemma not_overtaken_step:
  assumes "ok s" "step s t" "p \<in> set (queue s)" "\<not> precedes q p (queue s)" "p \<in> set (queue t)"
  shows "\<not> precedes q p (queue t)"
proof -
  obtain P new where t: "queue t = filter P (queue s) @ new" "set new \<inter> set (queue s) = {}"
    using fifo [OF assms(1,2)] by blast
  then show ?thesis using precedes_filter [of q p P "queue s" new] assms by auto
qed

lemma head_precedes: "held s \<Longrightarrow> ok s \<Longrightarrow> p \<in> set (queue s) \<Longrightarrow> p \<noteq> hd (queue s) \<Longrightarrow> precedes (hd (queue s)) p (queue s)"
  using ok_held [of s] by (cases "queue s") auto

text \<open>While \<open>p\<close> waits, nobody who was not ahead of it gets the lock.\<close>

lemma not_overtaken:
  assumes "(\<lambda>s t. step s t \<and> p \<in> set (queue t))\<^sup>*\<^sup>* s t"
    and "ok s" "p \<in> set (queue s)" "\<not> precedes q p (queue s)" "q \<noteq> p"
  shows "\<not> (held t \<and> hd (queue t) = q)"
proof -
  have "ok t \<and> p \<in> set (queue t) \<and> \<not> precedes q p (queue t)"
    using assms(1-4) by (induction rule: rtranclp_induct) (auto intro: ok_step dest: not_overtaken_step)
  then show ?thesis using head_precedes [of t p] assms(5) by auto
qed

lemma holder_stays:
  assumes "ok s" "step s t" "held s" "hd (queue s) \<in> set (queue t)"
  shows "held t \<and> hd (queue t) = hd (queue s)"
proof -
  obtain P new where t: "queue t = filter P (queue s) @ new" "set new \<inter> set (queue s) = {}"
    using fifo [OF assms(1,2)] by blast
  obtain p ps where s: "queue s = p # ps" using ok_held [OF assms(1,3)] by (cases "queue s") auto
  with t assms(4) ok_distinct [OF assms(1)] have "P p" by (auto split: if_splits)
  with s t keeps [OF assms] show ?thesis by simp
qed

text \<open>The lock passes to another client only after its holder has left the queue.\<close>

lemma holder_keeps_lock:
  assumes "(\<lambda>s t. step s t \<and> p \<in> set (queue t))\<^sup>*\<^sup>* s t" "ok s" "held s" "hd (queue s) = p"
  shows "held t \<and> hd (queue t) = p"
proof -
  have "ok t \<and> held t \<and> hd (queue t) = p"
    using assms by (induction rule: rtranclp_induct) (auto intro: ok_step dest: holder_stays)
  then show ?thesis by blast
qed

end

text \<open>Whatever simulates the abstract lock manager is such a lock.\<close>

locale lm_refinement =
  fixes step :: "'s \<Rightarrow> 's \<Rightarrow> bool" and abs :: "'s \<Rightarrow> lm" and ok :: "'s \<Rightarrow> bool"
  assumes ok_abs: "ok s \<Longrightarrow> lm_ok (abs s)"
    and simulates: "ok s \<Longrightarrow> step s t \<Longrightarrow> ok t \<and> (\<exists>e. lm_step (abs s) e (abs t))"

lemma suffix_filter: "distinct (ys @ xs) \<Longrightarrow> filter (\<lambda>p. p \<in> set xs) (ys @ xs) = xs"
  by (auto simp: filter_empty_conv)

lemma lm_serve_filter:
  assumes "lm_serve a b" "distinct (lm_queue a)"
  shows "\<exists>P. lm_queue b = filter P (lm_queue a)"
proof -
  obtain dead where "lm_queue a = dead @ lm_queue b"
    using assms(1) by (auto simp: lm_serve_def split: if_splits)
  with assms(2) suffix_filter [of dead "lm_queue b"] show ?thesis by metis
qed

lemma lm_release_queue: "lm_ok a \<Longrightarrow> lm_queue (lm_release p a) = filter (\<lambda>q. q \<noteq> p) (lm_queue a)"
  by (auto simp: lm_release_def lm_ok_def distinct_remove1_removeAll removeAll_filter_not_eq intro!: filter_cong)

lemma lm_step_fifo:
  assumes "lm_step a e b" "lm_ok a"
  shows "\<exists>P new. lm_queue b = filter P (lm_queue a) @ new \<and> set new \<inter> set (lm_queue a) = {}"
proof -
  have rel: ?thesis if s: "lm_serve (lm_release p a) b" for p
  proof -
    obtain P where "lm_queue b = filter P (lm_queue (lm_release p a))"
      using lm_serve_filter [OF s] lm_release_ok [OF assms(2), of p] by (auto simp: lm_ok_def)
    then show ?thesis using lm_release_queue [OF assms(2), of p] by (intro exI [of _ "\<lambda>q. q \<noteq> p \<and> P q"] exI [of _ "[]"]) simp
  qed
  have rel': ?thesis if "b = lm_release p a" for p
    using lm_release_queue [OF assms(2), of p] that by (intro exI [of _ "\<lambda>q. q \<noteq> p"] exI [of _ "[]"]) simp
  have req: ?thesis if s: "lm_serve (lm_request p a) b" "lm_on a" for p
  proof -
    obtain P where P: "lm_queue b = filter P (lm_queue (lm_request p a))"
      using lm_serve_filter [OF s(1)] lm_request_ok [OF assms(2) s(2), of p] by (auto simp: lm_ok_def)
    show ?thesis
      by (rule exI [of _ P], rule exI [of _ "if p \<in> set (lm_queue a) then [] else filter P [p]"])
        (use P in \<open>auto simp: lm_request_def\<close>)
  qed
  have nil: ?thesis if "lm_queue b = []" by (intro exI [of _ "\<lambda>_. False"] exI [of _ "[]"]) (simp add: that)
  have same: ?thesis if "b = a" by (intro exI [of _ "\<lambda>_. True"] exI [of _ "[]"]) (simp add: that)
  from assms(1) rel rel' req nil same show ?thesis by (cases e) auto
qed

lemma lm_step_keeps:
  assumes "lm_step a e b" "lm_ok a" "lm_held a" "hd (lm_queue a) \<in> set (lm_queue b)"
  shows "lm_held b"
proof -
  have ne: "lm_queue a \<noteq> []" using assms(2,3) by (simp add: lm_ok_def)
  have rel: "lm_held (lm_release p a)" if "hd (lm_queue a) \<in> set (lm_queue (lm_release p a))" for p
    using that assms(2,3) lm_release_queue [OF assms(2), of p] by (auto simp: lm_release_def)
  have serve: "lm_held b" if s: "lm_serve c b" "hd (lm_queue a) \<in> set (lm_queue c) \<Longrightarrow> lm_held c" for c
  proof -
    have "set (lm_queue b) \<subseteq> set (lm_queue c)" using s(1) by (auto simp: lm_serve_def split: if_splits)
    with s assms(4) show ?thesis by (auto simp: lm_serve_def)
  qed
  have "lm_held (lm_request p a)" for p using assms(3) by (simp add: lm_request_def)
  with serve rel assms show ?thesis by (cases e) auto
qed

sublocale lm_refinement \<subseteq> fcfs: fcfs_lock step "\<lambda>s. lm_queue (abs s)" "\<lambda>s. lm_held (abs s)" ok
proof
  show "ok t" if "ok s" "step s t" for s t using simulates that by blast
  show "distinct (lm_queue (abs s))" if "ok s" for s using ok_abs [OF that] by (simp add: lm_ok_def)
  show "lm_queue (abs s) \<noteq> []" if "ok s" "lm_held (abs s)" for s using ok_abs that by (simp add: lm_ok_def)
  show "\<exists>P new. lm_queue (abs t) = filter P (lm_queue (abs s)) @ new \<and> set new \<inter> set (lm_queue (abs s)) = {}"
    if "ok s" "step s t" for s t using simulates [OF that] ok_abs [OF that(1)] lm_step_fifo by blast
  show "lm_held (abs t)" if "ok s" "step s t" "lm_held (abs s)" "hd (lm_queue (abs s)) \<in> set (lm_queue (abs t))" for s t
    using simulates [OF that(1,2)] ok_abs [OF that(1)] lm_step_keeps that(3,4) by blast
qed

text \<open>The main thread of the scheduler, event by event.\<close>

definition sched_step :: "sched \<Rightarrow> sched \<Rightarrow> bool" where
  "sched_step s t \<longleftrightarrow> (\<exists>lsock ev. event_ok lsock ev s \<and> handle_event lsock ev s = Inr t)"

lemma sched_step_refines:
  assumes "sched_inv s" "event_ok lsock ev s" "handle_event lsock ev s = Inr t"
  shows "sched_inv t \<and> lm_step (lm_abs s) (event_label lsock ev s) (lm_abs t)"
  using wp_D [OF wp_handle_event [OF assms(1,2)] assms(3)] .

interpretation sched: lm_refinement sched_step lm_abs sched_inv
  by unfold_locales (auto simp: sched_step_def lm_ok_abs dest: sched_step_refines)

end
