(* ===== verification/Scheduler_Freed.thy ===== *)
theory Scheduler_Freed
  imports Scheduler_Inv
begin

text \<open>
  What the main thread does to the memory of clients: handling an event of a client never makes new objects, and freed memory
  is read only in a step that frees a client (the loop of \<open>delete_client\<close>, which reads \<open>client->fd\<close> after \<open>free(client)\<close>).
\<close>

definition freed :: "sched \<Rightarrow> sched \<Rightarrow> bool" where
  "freed s t \<longleftrightarrow> (\<forall>p. heap t p \<noteq> None \<longrightarrow> heap s p \<noteq> None) \<and> (uaf t \<longrightarrow> uaf s \<or> (\<exists>p. heap s p \<noteq> None \<and> heap t p = None))"

lemma freed_trans: "freed s t \<Longrightarrow> freed t u \<Longrightarrow> freed s u"
  unfolding freed_def by blast

lemma mem_eqD: "mem s = mem t \<Longrightarrow> heap s = heap t" "mem s = mem t \<Longrightarrow> uaf s = uaf t"
  by (simp_all add: mem_def)

lemma mem_more [simp]:
  "mem (s\<lparr>mallocs := ms\<rparr>) = mem s" "mem (s\<lparr>rands := rs\<rparr>) = mem s" "mem (s\<lparr>out_msg := m\<rparr>) = mem s"
  "mem (s\<lparr>scheduler_on := b\<rparr>) = mem s" "mem (s\<lparr>must_reset_timer := b\<rparr>) = mem s" "mem (s\<lparr>scheduling_round := r\<rparr>) = mem s"
  "mem (s\<lparr>timer_signals := n\<rparr>) = mem s" "mem (s\<lparr>tq := q\<rparr>) = mem s" "mem (set_out_type k s) = mem s"
  by (simp_all add: mem_def set_out_type_def)

lemma freed_refl: "freed s s"
  by (simp add: freed_def)

lemma freed_cong:
  assumes "mem u = mem s"
  shows "freed u t = freed s t" "freed t u = freed t s"
  using mem_eqD [OF assms] by (simp_all only: freed_def)

lemma freed_same: "mem t = mem s \<Longrightarrow> freed s t"
  using freed_cong(2) [of t s s] freed_refl by simp

text \<open>The loop: \<open>p\<close> may have been freed already.\<close>

definition loop_freed :: "addr \<Rightarrow> sched \<Rightarrow> sched \<Rightarrow> bool" where
  "loop_freed p s t \<longleftrightarrow> (\<forall>q. heap t q \<noteq> None \<longrightarrow> heap s q \<noteq> None) \<and> (uaf t \<longrightarrow> uaf s \<or> heap t p = None)"

lemma loop_freed_trans:
  assumes "loop_freed p s t" "loop_freed p t u"
  shows "loop_freed p s u"
proof -
  have "heap u p = None" if "heap t p = None" using assms(2) that by (auto simp: loop_freed_def)
  with assms show ?thesis unfolding loop_freed_def by auto
qed

lemma delete_client_loop_freed: "post (delete_client_loop p cs s) (loop_freed p s)"
proof (induction cs arbitrary: s)
  case (Cons c cs)
  have step: "post (delete_client_loop p cs u) (loop_freed p s)" if "loop_freed p s u" for u
    by (rule post_mono [OF Cons.IH [of u]]) (rule loop_freed_trans [OF that])
  show ?case
    by (auto simp: post Let_def peek_fd_def split: prod.splits option.splits intro!: step) (auto simp: loop_freed_def)
qed (simp add: post loop_freed_def)

lemma delete_client_freed:
  assumes "mem u = mem s"
  shows "post (delete_client p u) (freed s)"
proof (rule post_I)
  fix t assume "delete_client p u = Inr t"
  then obtain c v w k where run: "heap u p = Some c" "remove_req p u = Inr v" "delete_client_loop p (clients v) v = Inr w" "t = w\<lparr>kern := k\<rparr>"
    by (auto simp: delete_client_def bindR_Inr_iff Let_def deref_def split: option.splits if_splits)
  have v: "heap v = heap s" "uaf v = uaf s" using post_D [OF remove_req_frame run(2)] assms by (simp_all add: mem_def)
  have u: "heap s p \<noteq> None" using run(1) mem_eqD(1) [OF assms] by simp
  from post_D [OF delete_client_loop_freed run(3)] show "freed s t"
    using u unfolding run(4) by (simp add: loop_freed_def freed_def v) metis
qed

lemma try_schedule_freed: "post (try_schedule s) (freed s)"
proof (induction "length (requests s)" arbitrary: s rule: less_induct)
  case less
  show ?case
  proof (cases "requests s")
    case Nil
    then show ?thesis by (simp add: try_schedule.simps post freed_same)
  next
    case (Cons p rs)
    have lost: "post (delete_client p u) (\<lambda>v. post (try_schedule v) (freed s))"
      if "requests u = requests s" "mem u = mem s" for u
    proof (rule post_I)
      fix v assume d: "delete_client p u = Inr v"
      have "length (requests v) < length (requests s)"
        using post_D [OF delete_client_head_shorter d] Cons that(1) by simp
      from less [OF this] show "post (try_schedule v) (freed s)"
        by (rule post_mono) (rule freed_trans [OF post_D [OF delete_client_freed [OF that(2)] d]])
    qed
    show ?thesis
      unfolding try_schedule.simps [of s] Cons list.case Let_def post
      by (rule post_mono [OF send_message_frame]) (use lost Cons in \<open>auto simp: post freed_same\<close>)
  qed
qed

lemma serve_freed:
  assumes "freed s u"
  shows "post (if c then try_schedule u else Inr u) (freed s)"
  using post_mono [OF try_schedule_freed freed_trans [OF assms]] assms by (simp add: post)

lemma drop_client_freed: "mem u = mem s \<Longrightarrow> post (drop_client p u) (freed s)"
  unfolding drop_client_def post
  by (rule post_mono [OF delete_client_freed]) (assumption, rule serve_freed)

lemma bcast_status_loop_freed: "freed s u \<Longrightarrow> post (bcast_status_loop cs u) (freed s)"
proof (induction cs arbitrary: u)
  case (Cons c cs)
  have sent: "freed s (set_out_type k u\<lparr>kern := x\<rparr>)" for k x
    using Cons.prems by (simp add: freed_def set_out_type_def)
  have "post (delete_client c v) (\<lambda>w. post (bcast_status_loop cs w) (freed s))" if "freed s v" for v
    by (rule post_mono [OF delete_client_freed [OF refl]]) (rule Cons.IH, rule freed_trans [OF that])
  with sent Cons show ?case
    by (auto simp: post Let_def intro!: post_mono [OF send_message_frame])
qed (simp add: post)

lemma insert_req_freed: "post (insert_req p s) (freed s)"
  by (auto simp: insert_req_def pop_malloc_def post_def bindR_Inr_iff intro!: freed_same split: list.splits option.splits if_splits)

lemma freed_upd [simp]: "freed s (t\<lparr>out_msg := m\<rparr>) = freed s t" "freed s (t\<lparr>kern := k\<rparr>) = freed s t" "freed s (set_out_type x t) = freed s t"
  by (simp_all add: freed_def)

lemma register_client_freed: "post (register_client p m s) (\<lambda>(r, t). freed s t)"
proof -
  have snd: "post (send_message p x u) (\<lambda>(r, t). freed s t)" if "freed s u" for x u
    by (rule post_mono [OF send_message_frame]) (use that in auto)
  have upd: "freed s (s\<lparr>heap := (heap s)(p \<mapsto> c), rands := rs\<rparr>)" if "heap s p = Some d" for c d rs
    using that by (simp add: freed_def)
  show ?thesis
    by (auto simp: register_client_def post Let_def post_def [of "pick_id _ _"] post_def [of "deref_all _ _"] freed_refl upd
        case_prod_unfold intro!: post_mono [OF snd])
qed

lemma process_msg_freed: "mem u = mem s \<Longrightarrow> post (process_msg p m u) (freed s)"
proof -
  assume u: "mem u = mem s"
  have reg: "post (register_client p m u) (\<lambda>(r, v). post (if r < 0 then delete_client p v else Inr v) (freed s))"
    by (rule post_mono [OF register_client_freed])
      (use freed_cong [OF u] in \<open>auto simp: post intro!: post_mono [OF delete_client_freed [OF refl]] intro: freed_trans\<close>)
  have bc: "post (bcast_status v) (\<lambda>w. freed s w)" "post (bcast_status v) (\<lambda>w. freed s (w\<lparr>requests := [], lock_held := False\<rparr>))"
    if "mem v = mem s" for v
    unfolding bcast_status_def
    by (rule post_mono [OF bcast_status_loop_freed [OF freed_same [OF that]]], simp add: freed_def)+
  have req: "post (insert_req p u) (\<lambda>v. post (if \<not> lock_held v then try_schedule v else Inr v) (freed s))"
    by (rule post_mono [OF insert_req_freed], rule serve_freed) (simp add: freed_cong [OF u])
  have rel: "post (remove_req p u) (\<lambda>v. post (if \<not> lock_held v then try_schedule v else Inr v) (freed s))"
    by (rule post_mono [OF remove_req_frame], rule serve_freed) (simp add: freed_same u)
  show ?thesis
    using u reg req rel delete_client_freed [OF u] bc [of "u\<lparr>scheduler_on := True\<rparr>"] bc [of "u\<lparr>scheduler_on := False\<rparr>"]
    by (simp add: process_msg_def process_set_tq_def post freed_same Let_def case_prod_unfold split: option.splits message_type.splits)
qed

text \<open>Freed memory is read only when a client is freed.\<close>

lemma handle_event_freed:
  assumes "handle_event lsock ev s = Inr t" "uaf t"
  shows "uaf s \<or> (\<exists>p. heap s p \<noteq> None \<and> heap t p = None)"
proof (cases "data_fd (ev_data ev) = lsock")
  case True
  have "post (new_connection lsock s) (\<lambda>t. uaf t = uaf s)"
    by (auto simp: new_connection_def nvshare_accept_def pop_malloc_def post Let_def split: prod.splits list.splits option.splits)
  from post_D [OF this] assms True show ?thesis by (auto simp: handle_event_def)
next
  case False
  have "post (receive_message p s) (\<lambda>(r, m, v). mem v = mem s)" for p
    by (auto simp: receive_message_def nvshare_receive_noblock_def post Let_def split: prod.splits)
  then have "post (receive_message p s) (\<lambda>(r, m, v). post (if r < 0 then drop_client p v else process_msg p m v) (freed s))" for p
    by (rule post_mono) (auto simp: drop_client_freed process_msg_freed)
  then have "post (client_event e p s) (freed s)" for e p
    by (simp add: client_event_def post freed_refl drop_client_freed case_prod_unfold)
  from post_D [OF this] assms False show ?thesis by (auto simp: handle_event_def freed_def)
qed

end
