(* ===== verification/Scheduler_Props.thy ===== *)
theory Scheduler_Props
  imports Scheduler_Spec Scheduler_Freed
begin

text \<open>
  The properties of the scheduler's main thread, and the concrete states at which they are
  applied.
\<close>

section \<open>A concrete scheduler\<close>

text \<open>
  Two registered clients at the addresses 1 and 2; client 1 holds the lock, client 2 waits.
  The listening socket has the descriptor 3.
\<close>

definition ex_client :: "int \<Rightarrow> 64 word \<Rightarrow> nvshare_client" where
  "ex_client fd i = \<lparr>c_fd = fd, c_id = i, c_pod_name = replicate POD_NAME_LEN_MAX NUL,
     c_pod_namespace = replicate POD_NAMESPACE_LEN_MAX NUL\<rparr>"

definition ex_sched :: "sysret list \<Rightarrow> sched" where
  "ex_sched as = sched_globals\<lparr>lock_held := True, scheduler_on := True, tq := NVSHARE_DEFAULT_TQ,
     heap := [1 \<mapsto> ex_client 4 11, 2 \<mapsto> ex_client 5 12], clients := [1, 2], requests := [1, 2],
     kern := \<lparr>answers = as, calls = []\<rparr>\<rparr>"

definition ex_msg :: "message_type \<Rightarrow> message" where
  "ex_msg t = zero_message\<lparr>m_type := message_type_code t\<rparr>"

definition taken :: sysret where
  "taken = \<lparr>ret = int sizeof_message, err = 0, bytes = []\<rparr>"

definition delivers :: "message_type \<Rightarrow> sysret" where
  "delivers t = \<lparr>ret = int sizeof_message, err = 0, bytes = encode_message (ex_msg t)\<rparr>"

definition ex_event :: "addr \<Rightarrow> epoll_event" where
  "ex_event p = \<lparr>ev_events = EPOLLIN, ev_data = p\<rparr>"

lemma ex_client_sel [simp]:
  "c_fd (ex_client fd i) = fd" "c_id (ex_client fd i) = i" "client_ok (ex_client fd i)"
  "has_registered (ex_client fd i) \<longleftrightarrow> i \<noteq> NVSHARE_UNREGISTERED_ID"
  by (simp_all add: ex_client_def client_ok_def has_registered_def)

lemma ex_msg_ok [simp]: "message_ok (ex_msg t)" "m_type (ex_msg t) = message_type_code t" "NUL \<in> set (m_data (ex_msg t))"
  by (simp_all add: ex_msg_def) (simp add: zero_message_def msg_sizes)

lemma ex_inv [simp]: "mem_inv (ex_sched as)" "sched_inv (ex_sched as)"
proof -
  show "mem_inv (ex_sched as)"
    by (rule mem_invI) (auto simp: ex_sched_def sched_globals_def NVSHARE_UNREGISTERED_ID_def split: if_splits)
  then show "sched_inv (ex_sched as)" by (simp add: sched_inv_def ex_sched_def)
qed

lemma receives_delivers [simp]:
  "answers k = delivers t # as \<Longrightarrow> nvshare_receive_noblock fd 537 k =
     Inr (delivers t, encode_message (ex_msg t), k\<lparr>answers := as, calls := calls k @ [(Sys_read fd 537, delivers t)]\<rparr>)"
  by (simp add: nvshare_receive_noblock_def interrupted_def delivers_def zero_fill_def Let_def)

lemma data_fd_small [simp]: "data_fd 1 = 1" "data_fd 2 = 2"
  by (simp_all add: data_fd_def)

lemma ex_event_ok [simp]:
  "event_ok 3 (ex_event 1) (ex_sched (delivers t # as))"
  "event_ok 3 (ex_event 2) (ex_sched (delivers t # as))"
  by (simp_all add: event_ok_def ex_event_def receive_ok_def ex_sched_def decode_encode_message)

lemmas ex_simps = handle_event_def ex_event_def client_event_def ex_sched_def sched_globals_def
  receive_message_def delivers_def process_msg_def decode_encode_message EPOLLIN_def message_type_of_def
  remove_req_def deref_def NVSHARE_UNREGISTERED_ID_def set_out_type_def send_message_def
  nvshare_send_noblock_def taken_def interrupted_def Let_def delete_client_def peek_fd_def sys_def drop_client_def

lemma ex_release:
  "\<exists>t. handle_event 3 (ex_event 1) (ex_sched [delivers LOCK_RELEASED, taken]) = Inr t \<and> requests t = [2] \<and> lock_held t"
  by (simp add: ex_simps try_schedule.simps)

section \<open>Correctness\<close>

text \<open>
  C6: the main thread implements the lock manager. Take a state that satisfies the invariant (which includes that no freed memory holds
  the descriptor of a live client) and an event of \<open>epoll_wait\<close> that is in order (\<open>event_ok\<close>): for a new connection, the descriptor is a
  new one and \<open>malloc\<close> succeeds; for a client, its object has not been freed and the strings of the message read end
  within it. Then handling the event (a new connection, a message of any kind, a lost connection) ends, waits, or exits, with no
  undefined behaviour but one: freed memory is read only if the event frees a client (the read of \<open>client->fd\<close> in the loop of
  \<open>delete_client\<close>, which the flag \<open>uaf\<close> records and which yields whatever the memory holds). If it returns, the invariant
  holds again and what happened to the status, the queue and the lock is the step of the abstract lock manager for that event.
\<close>

theorem handle_event_refines:
  assumes "sched_inv s" "event_ok lsock ev s"
  shows "(\<forall>f. handle_event lsock ev s = Inl f \<longrightarrow> f = Exit \<or> f = Blocked)
    \<and> (\<forall>t. handle_event lsock ev s = Inr t \<longrightarrow>
         sched_inv t \<and> lm_step (lm_abs s) (event_label lsock ev s) (lm_abs t)
         \<and> (uaf t \<longrightarrow> uaf s \<or> (\<exists>p. heap s p \<noteq> None \<and> heap t p = None)))"
  using wp_handle_event [OF assms] handle_event_freed [of lsock ev s]
  by (auto simp: wp_def undefined_behaviour_def split: sum.splits)

theorem handle_event_refines_witness:
  "\<exists>t. handle_event 3 (ex_event 1) (ex_sched [delivers LOCK_RELEASED, taken]) = Inr t
    \<and> sched_inv t \<and> lm_step (lm_abs (ex_sched [delivers LOCK_RELEASED, taken])) (Release 1) (lm_abs t)"
proof -
  let ?s = "ex_sched [delivers LOCK_RELEASED, taken]"
  have "event_label 3 (ex_event 1) ?s = Release 1"
    by (simp add: event_label_def ex_simps msg_event_def registered_at_def)
  with handle_event_refines [OF ex_inv(2) ex_event_ok(1), of LOCK_RELEASED "[taken]"] ex_release
  show ?thesis by auto
qed

text \<open>
  C14: \<open>try_schedule\<close> serves the queue in order. With the lock free, it ends without undefined
  behaviour; the clients in front of the new holder were unreachable and are gone; the holder
  is the head of what is left of the queue, and exactly it has been sent a LOCK_OK; the round
  number, the timer flag and the timer's condition variable change if and only if the lock was granted.
\<close>

theorem try_schedule_in_order:
  assumes "mem_inv s" "\<not> lock_held s"
  shows "wp (try_schedule s) (\<lambda>t. mem_inv t \<and> granted s t)"
  using assms by (rule wp_try_schedule)

theorem try_schedule_in_order_witness:
  "wp (try_schedule ((ex_sched [taken])\<lparr>lock_held := False\<rparr>))
     (\<lambda>t. mem_inv t \<and> granted ((ex_sched [taken])\<lparr>lock_held := False\<rparr>) t)"
proof (rule try_schedule_in_order)
  show "mem_inv ((ex_sched [taken])\<lparr>lock_held := False\<rparr>)" using ex_inv(1) [of "[taken]"] by (simp add: mem_inv_def)
qed simp

text \<open>
  C7: first come, first served. Through any sequence of events during which the client at \<open>p\<close>
  stays in the queue, no client \<open>q\<close> that was not ahead of it at the start is given the lock.
\<close>

theorem no_overtaking:
  assumes "(\<lambda>s t. sched_step s t \<and> p \<in> set (requests t))\<^sup>*\<^sup>* s t"
    and "sched_inv s" "p \<in> set (requests s)" "\<not> precedes q p (requests s)" "q \<noteq> p"
  shows "holder t \<noteq> Some q"
  using sched.fcfs.not_overtaken [of p s t q] assms
  by (auto simp: holder_def split: if_splits list.splits)

lemma ex_step:
  "\<exists>t. (\<lambda>s t. sched_step s t \<and> 2 \<in> set (requests t))\<^sup>*\<^sup>* (ex_sched [delivers LOCK_RELEASED, taken]) t
     \<and> requests t = [2] \<and> lock_held t"
proof -
  obtain t where t: "handle_event 3 (ex_event 1) (ex_sched [delivers LOCK_RELEASED, taken]) = Inr t"
    "requests t = [2]" "lock_held t" using ex_release by blast
  then have "sched_step (ex_sched [delivers LOCK_RELEASED, taken]) t"
    unfolding sched_step_def using ex_event_ok(1) by blast
  with t show ?thesis by (intro exI [of _ t]) auto
qed

theorem no_overtaking_witness:
  "\<exists>t. (\<lambda>s t. sched_step s t \<and> 2 \<in> set (requests t))\<^sup>*\<^sup>* (ex_sched [delivers LOCK_RELEASED, taken]) t
     \<and> requests t = [2] \<and> holder t \<noteq> Some 7"
proof -
  obtain t where t: "(\<lambda>s t. sched_step s t \<and> 2 \<in> set (requests t))\<^sup>*\<^sup>* (ex_sched [delivers LOCK_RELEASED, taken]) t"
    "requests t = [2]" using ex_step by blast
  with no_overtaking [OF t(1) ex_inv(2), of 7] show ?thesis by (auto simp: ex_sched_def)
qed

text \<open>
  C8: mutual exclusion over time. Through any sequence of events during which the holder of the
  lock stays in the queue (it has not released the lock, is connected, and the scheduler has not
  been switched off), it remains the holder: nobody else is given the lock.
\<close>

theorem holder_not_preempted:
  assumes "(\<lambda>s t. sched_step s t \<and> p \<in> set (requests t))\<^sup>*\<^sup>* s t" "sched_inv s" "holder s = Some p"
  shows "holder t = Some p"
proof -
  from assms(3) have "lock_held s" "hd (requests s) = p" by (auto simp: holder_def split: if_splits list.splits)
  with sched.fcfs.holder_keeps_lock [of p s t] assms have h: "lock_held t" "hd (requests t) = p" by auto
  have "p \<in> set (requests t)"
    using assms(1) \<open>hd (requests s) = p\<close> mem_invD(4) [of s] \<open>lock_held s\<close> assms(2)
    by (induction rule: rtranclp_induct) (auto simp: sched_inv_def)
  with h show ?thesis by (cases "requests t") (auto simp: holder_def)
qed

theorem holder_not_preempted_witness:
  "holder (ex_sched []) = Some 1 \<and> (\<exists>t. sched_step (ex_sched [delivers REQ_LOCK]) t \<and> holder t = Some 1)"
proof -
  let ?s = "ex_sched [delivers REQ_LOCK]"
  obtain t where t: "handle_event 3 (ex_event 2) ?s = Inr t" "requests t = [1, 2]"
    by (simp add: ex_simps insert_req_def)
  then have st: "sched_step ?s t" unfolding sched_step_def using ex_event_ok(2) by blast
  have "holder t = Some 1"
    by (rule holder_not_preempted [OF r_into_rtranclp ex_inv(2)]) (use st t in \<open>auto simp: holder_def ex_sched_def\<close>)
  moreover have "holder (ex_sched []) = Some 1" by (simp add: holder_def ex_sched_def)
  ultimately show ?thesis using st by blast
qed

text \<open>
  C9: the GPU is not left idle. If nobody waited in front of a free lock before an event, nobody
  does after it, whatever the event, unless the event is a protocol violation of the holder
  itself (a second REGISTER).
\<close>

theorem gpu_not_left_idle:
  assumes "sched_inv s" "no_idle s" "event_ok lsock ev s" "handle_event lsock ev s = Inr t"
    and "\<And>p. event_label lsock ev s = Expel p \<Longrightarrow> holder s \<noteq> Some p"
  shows "no_idle t"
  using lm_step_no_idle [OF conjunct2 [OF sched_step_refines [OF assms(1,3,4)]] lm_ok_abs [OF assms(1)]] assms(2,5)
  by (simp add: no_idle_abs holder_abs)

theorem gpu_not_left_idle_witness:
  "\<exists>t. handle_event 3 (ex_event 1) (ex_sched [delivers LOCK_RELEASED, taken]) = Inr t \<and> no_idle t"
proof -
  let ?s = "ex_sched [delivers LOCK_RELEASED, taken]"
  obtain t where t: "handle_event 3 (ex_event 1) ?s = Inr t" using ex_release by blast
  have "no_idle t"
    by (rule gpu_not_left_idle [OF ex_inv(2) _ ex_event_ok(1) t])
      (simp_all add: event_label_def ex_simps msg_event_def registered_at_def no_idle_def)
  with t show ?thesis by blast
qed

text \<open>
  C36: the exception to the previous property is real. When the holder sends a second REGISTER while
  others wait, the handler removes it and returns: the lock is free, the others wait, and no
  LOCK_OK has been sent.
\<close>

theorem second_register_idles_gpu:
  assumes inv: "sched_inv s" and q: "requests s = p # q # rs" and on: "scheduler_on s"
    and m: "message_ok m" "NUL \<in> set (m_data m)" "m_type m = message_type_code REGISTER"
    and run: "process_msg p m s = Inr t"
  shows "\<not> lock_held t \<and> requests t = q # rs \<and> \<not> no_idle t \<and> (\<forall>fd. sent_to fd (kern t) = sent_to fd (kern s))"
proof -
  have i: "mem_inv s" using inv by (simp add: sched_inv_def)
  obtain c where c: "heap s p = Some c" "has_registered c" using mem_invD(8) [OF i, of p] q by auto
  have "wp (delete_client p s) (\<lambda>t. \<not> lock_held t \<and> requests t = q # rs \<and> scheduler_on t
      \<and> (\<forall>fd. sent_to fd (kern t) = sent_to fd (kern s)))"
    by (rule wp_delete_client [OF i c(1)]) (use q on in auto)
  moreover have "process_msg p m s = delete_client p s"
    using m(3) c by (simp add: process_msg_def register_client_def message_type_of_Some del: message_type_code.simps)
  ultimately show ?thesis using run wp_D by (fastforce simp: no_idle_def)
qed

theorem second_register_idles_gpu_witness:
  "\<exists>t. process_msg 1 (ex_msg REGISTER) (ex_sched [taken\<lparr>ret := 0\<rparr>, taken\<lparr>ret := 0\<rparr>]) = Inr t \<and> \<not> no_idle t"
proof -
  let ?s = "ex_sched [taken\<lparr>ret := 0\<rparr>, taken\<lparr>ret := 0\<rparr>]"
  obtain t where t: "process_msg 1 (ex_msg REGISTER) ?s = Inr t"
    by (simp add: ex_simps register_client_def)
  with second_register_idles_gpu [OF ex_inv(2) _ _ ex_msg_ok(1,3,2) t, of 2 "[]"] show ?thesis
    by (auto simp: ex_sched_def)
qed

text \<open>
  a status broadcast reaches everyone. \<open>bcast_status\<close> has no undefined behaviour; afterwards every registered client
  that is still connected has been sent the current status exactly once, unregistered clients
  have been sent nothing, and the only clients removed are among those that were in the list.
\<close>

theorem bcast_status_informs:
  assumes "mem_inv s"
  shows "wp (bcast_status s) (\<lambda>t. mem_inv t \<and> informed (clients s) s t)"
  using assms by (rule wp_bcast_status)

theorem bcast_status_informs_witness:
  "wp (bcast_status (ex_sched [taken, taken])) (\<lambda>t. mem_inv t \<and> informed [1, 2] (ex_sched [taken, taken]) t)"
  using bcast_status_informs [OF ex_inv(1), of "[taken, taken]"] by (simp add: ex_sched_def)

text \<open>
  C23: a registration gives the client an ID of its own, and tells it. After a successful \<open>register_client\<close>
  the client has an ID that is not the reserved one and that no other client has; what it
  has been sent is one message of the current status whose data, read back with
  \<open>sscanf("%lx")\<close> as the client does, is that ID.
\<close>

theorem registration_gives_id:
  assumes inv: "mem_inv s" and c: "heap s p = Some c" "\<not> has_registered c"
    and m: "message_ok m" "NUL \<in> set (m_data m)" and run: "register_client p m s = Inr (0, t)"
  shows "\<exists>c' msg. heap t p = Some c' \<and> has_registered c' \<and> c_fd c' = c_fd c
    \<and> (\<forall>q d. q \<noteq> p \<and> heap t q = Some d \<longrightarrow> c_id d \<noteq> c_id c')
    \<and> sent_to (c_fd c) (kern t) = sent_to (c_fd c) (kern s) @ encode_message msg \<and> message_ok msg
    \<and> message_type_of (m_type msg) = Some (sched_status s) \<and> sscanf_lx (cstr (m_data msg)) = Some (c_id c')"
proof -
  let ?P = "\<lambda>(r, t). r = 0 \<longrightarrow> (\<exists>c' i. heap t p = Some c' \<and> has_registered c' \<and> c_fd c' = c_fd c \<and> c_id c' = i
    \<and> (\<forall>q d. q \<noteq> p \<and> heap t q = Some d \<longrightarrow> c_id d \<noteq> i)
    \<and> sent_to (c_fd c) (kern t) = sent_to (c_fd c) (kern s) @ encode_message (id_msg i s))"
  have "wp (register_client p m s) ?P"
  proof (rule wp_register_client [OF inv c(1) m], goal_cases)
    case (2 i c' s')
    then have "heap s' = (heap s)(p \<mapsto> c')" by (auto simp: enrolled_def)
    with 2(2-5) show ?case by auto
  qed (use c in simp)
  from wp_D [OF this run] obtain c' where c': "heap t p = Some c'" "has_registered c'" "c_fd c' = c_fd c"
    "\<forall>q d. q \<noteq> p \<and> heap t q = Some d \<longrightarrow> c_id d \<noteq> c_id c'"
    "sent_to (c_fd c) (kern t) = sent_to (c_fd c) (kern s) @ encode_message (id_msg (c_id c') s)" by auto
  moreover have "message_ok (id_msg (c_id c') s)" using id_msg_ok mem_invD(5) [OF inv] by blast
  moreover have "message_type_of (m_type (id_msg (c_id c') s)) = Some (sched_status s)" by (simp add: id_msg_def)
  moreover have "sscanf_lx (cstr (m_data (id_msg (c_id c') s))) = Some (c_id c')"
    by (simp add: id_msg_def sscanf_show_016x show_016x_no_NUL)
  ultimately show ?thesis by blast
qed

text \<open>A scheduler with one client that has connected and not yet registered.\<close>

definition ex_new :: sched where
  "ex_new = sched_globals\<lparr>scheduler_on := True, heap := [1 \<mapsto> ex_client 4 NVSHARE_UNREGISTERED_ID], clients := [1],
     kern := \<lparr>answers = [taken], calls = []\<rparr>, rands := [0, 0, 9]\<rparr>"

lemma ex_new_inv: "mem_inv ex_new"
  by (rule mem_invI) (auto simp: ex_new_def sched_globals_def split: if_splits)

theorem registration_gives_id_witness:
  "\<exists>t c'. register_client 1 (ex_msg REGISTER) ex_new = Inr (0, t) \<and> heap t 1 = Some c' \<and> has_registered c'"
proof -
  have "NUL \<in> set (drop (Suc 0) (encode_message (ex_msg REGISTER)))" "NUL \<in> set (drop (Suc POD_NAME_LEN_MAX) (encode_message (ex_msg REGISTER)))"
    by (simp_all add: encode_message_def ex_msg_def zero_message_def msg_sizes drop_Cons' del: le_bytes.simps)
  note cp = strlcpy_string [OF this(1)] strlcpy_string [OF this(2)]
  have "\<exists>t. register_client 1 (ex_msg REGISTER) ex_new = Inr (0, t)"
    using cp
    by (simp add: register_client_def ex_new_def sched_globals_def ex_simps has_registered_def pick_id.simps
        nvshare_generate_id_eq snprintf_def length_show_016x ex_client_def msg_sizes)
  then obtain t where t: "register_client 1 (ex_msg REGISTER) ex_new = Inr (0, t)" by blast
  have "heap ex_new 1 = Some (ex_client 4 NVSHARE_UNREGISTERED_ID)" by (simp add: ex_new_def)
  from registration_gives_id [OF ex_new_inv this _ ex_msg_ok(1,3) t] t show ?thesis by auto
qed

text \<open>
  C24: what \<open>delete_client\<close> does. The client leaves the list, the queue and the heap, and nothing else
  changes there; if it was the head of the queue, the lock is free. The
  loop over the clients has read the freed object exactly when the client was not the last of the list.
\<close>

theorem delete_client_effect:
  assumes "mem_inv s" "heap s p = Some c" "delete_client p s = Inr t"
  shows "clients t = remove1 p (clients s) \<and> requests t = remove1 p (requests s) \<and> heap t = (heap s)(p := None)
    \<and> lock_held t = (lock_held s \<and> holder s \<noteq> Some p) \<and> mem_inv t \<and> (uaf t \<longleftrightarrow> uaf s \<or> p \<noteq> last (clients s))"
proof -
  have "wp (delete_client p s) (\<lambda>t. \<exists>k. t = (forget p s)\<lparr>kern := k\<rparr>)"
    by (rule wp_delete_client [OF assms(1,2)]) blast
  with assms(3) obtain k where t: "t = (forget p s)\<lparr>kern := k\<rparr>" by (blast dest: wp_D)
  have "lock_held s \<Longrightarrow> requests s \<noteq> []" by (rule mem_invD(4) [OF assms(1)])
  then show ?thesis using mem_inv_forget [OF assms(1), of p] by (auto simp: t holder_def split: list.splits)
qed

theorem delete_client_effect_witness:
  "\<exists>t. delete_client 1 (ex_sched [taken\<lparr>ret := 0\<rparr>, taken\<lparr>ret := 0\<rparr>]) = Inr t \<and> requests t = [2] \<and> uaf t"
proof -
  let ?s = "ex_sched [taken\<lparr>ret := 0\<rparr>, taken\<lparr>ret := 0\<rparr>]"
  obtain t where t: "delete_client 1 ?s = Inr t" by (simp add: ex_simps)
  with delete_client_effect [OF ex_inv(1) _ t] show ?thesis by (auto simp: ex_sched_def)
qed

text \<open>
  Without \<open>stale_harmless\<close> the loop can do worse. If the freed memory happens to read as the descriptor of the next client in the list,
  that client is taken off the list and freed as well; its connection is not closed, and a request it has made stays in the queue and points to freed memory.
\<close>

lemma stale_read_frees_another:
  assumes "clients s = p # q # cs" "heap s p = Some c" "heap s q = Some d" "p \<noteq> q" "stale s p = c_fd d"
  shows "delete_client_loop p (clients s) s =
    delete_client_loop p cs (s\<lparr>uaf := True, clients := cs, heap := (heap s)(p := None, q := None)\<rparr>)"
  using assms by (simp add: deref_def peek_fd_def Let_def)

definition refused :: sysret where
  "refused = \<lparr>ret = - 1, err = EPIPE, bytes = []\<rparr>"

lemma handle_dead_event:
  assumes "data_fd (ev_data ev) \<noteq> lsock" "ev_events ev AND (EPOLLIN OR EPOLLERR OR EPOLLHUP) \<noteq> 0" "heap s (ev_data ev) = None"
  shows "handle_event lsock ev s = Inl UseAfterFree"
proof -
  have "ev_events ev AND EPOLLIN \<noteq> 0 \<or> ev_events ev AND (EPOLLERR OR EPOLLHUP) \<noteq> 0"
  proof (rule ccontr)
    assume "\<not> ?thesis"
    then have "ev_events ev AND (EPOLLIN OR (EPOLLERR OR EPOLLHUP)) = 0" by (simp only: bit.conj_disj_distrib) simp
    with assms(2) show False by (simp only: or.assoc)
  qed
  with assms(1,3) show ?thesis
    by (auto simp: handle_event_def client_event_def receive_message_def drop_client_def delete_client_def deref_def)
qed

text \<open>
  C39: when a batch of events makes the main thread use a freed client. \<open>epoll_wait\<close> has returned two events, the second one for a client.
  If the first event is in order, and so is the second one unless its client is gone by then, then handling the batch
  runs into undefined behaviour if and only if handling the first event frees the client of the second one, and then the
  main thread reads the freed object. (The read in \<open>delete_client\<close> itself, recorded by \<open>uaf\<close>, is not counted here.)
\<close>

theorem batch_use_after_free:
  assumes inv: "sched_inv s" and e1: "event_ok lsock e1 s"
    and e2: "data_fd (ev_data e2) \<noteq> lsock" "ev_events e2 AND (EPOLLIN OR EPOLLERR OR EPOLLHUP) \<noteq> 0"
      "\<And>t. handle_event lsock e1 s = Inr t \<Longrightarrow> heap t (ev_data e2) \<noteq> None \<Longrightarrow> event_ok lsock e2 t"
  shows "((\<exists>f. main_round lsock 2 [e1, e2] s = Inl f \<and> undefined_behaviour f)
      \<longleftrightarrow> (\<exists>t. handle_event lsock e1 s = Inr t \<and> heap t (ev_data e2) = None))
    \<and> (\<forall>f. main_round lsock 2 [e1, e2] s = Inl f \<longrightarrow> f = UseAfterFree \<or> f = Exit \<or> f = Blocked)"
proof (cases "handle_event lsock e1 s")
  case (Inl f)
  moreover have "\<not> undefined_behaviour f" using wp_no_ub [OF wp_handle_event [OF inv e1] Inl] .
  ultimately show ?thesis by (auto simp: main_round_def numeral_2_eq_2 undefined_behaviour_def)
next
  case (Inr t)
  then have round: "main_round lsock 2 [e1, e2] s = bindR (handle_event lsock e2 t) Inr"
    by (simp add: main_round_def numeral_2_eq_2 bindR_def split: sum.split)
  have "sched_inv t" using wp_D [OF wp_handle_event [OF inv e1] Inr] by simp
  show ?thesis
  proof (cases "heap t (ev_data e2) = None")
    case True
    with Inr round handle_dead_event [OF e2(1,2)] show ?thesis by auto
  next
    case False
    from wp_handle_event [OF \<open>sched_inv t\<close> e2(3) [OF Inr False]] Inr round False show ?thesis
      by (auto simp: wp_def undefined_behaviour_def bindR_def split: sum.splits)
  qed
qed

text \<open>The second client is granted the lock, cannot be reached and is freed, while its event is still to be handled.\<close>

theorem batch_use_after_free_witness:
  "main_round 3 2 [ex_event 1, ex_event 2] (ex_sched [delivers LOCK_RELEASED, refused, taken\<lparr>ret := 0\<rparr>, taken\<lparr>ret := 0\<rparr>]) = Inl UseAfterFree"
proof -
  let ?s = "ex_sched [delivers LOCK_RELEASED, refused, taken\<lparr>ret := 0\<rparr>, taken\<lparr>ret := 0\<rparr>]"
  have "\<exists>t. handle_event 3 (ex_event 1) ?s = Inr t \<and> heap t 2 = None"
    by (simp add: ex_simps refused_def try_schedule.simps)
  then obtain t where t: "handle_event 3 (ex_event 1) ?s = Inr t" "heap t 2 = None" by blast
  have "data_fd (ev_data (ex_event 2)) \<noteq> 3" "ev_events (ex_event 2) AND (EPOLLIN OR EPOLLERR OR EPOLLHUP) \<noteq> 0"
    by (simp_all add: ex_event_def EPOLLIN_def EPOLLERR_def EPOLLHUP_def)
  note e = this
  have "event_ok 3 (ex_event 2) u" if "handle_event 3 (ex_event 1) ?s = Inr u" "heap u (ev_data (ex_event 2)) \<noteq> None" for u
    using that t by (simp add: ex_event_def)
  then have "((\<exists>f. main_round 3 2 [ex_event 1, ex_event 2] ?s = Inl f \<and> undefined_behaviour f)
      \<longleftrightarrow> (\<exists>t. handle_event 3 (ex_event 1) ?s = Inr t \<and> heap t (ev_data (ex_event 2)) = None))
    \<and> (\<forall>f. main_round 3 2 [ex_event 1, ex_event 2] ?s = Inl f \<longrightarrow> f = UseAfterFree \<or> f = Exit \<or> f = Blocked)"
    by (rule batch_use_after_free [OF ex_inv(2) ex_event_ok(1) e])
  moreover have "ev_data (ex_event 2) = 2" by (simp add: ex_event_def)
  ultimately show ?thesis using t by (auto simp: undefined_behaviour_def)
qed

section \<open>Start-up\<close>

lemma sched_boot:
  assumes "sched_main path (sched_globals\<lparr>kern := k, mallocs := ms, rands := rs, stale := st\<rparr>) = Inr (lsock, s)"
    and "\<And>p c. Some (p, c) \<in> set ms \<Longrightarrow> client_ok c"
  shows "sched_inv s \<and> no_idle s \<and> scheduler_on s \<and> tq s = 30 \<and> clients s = [] \<and> requests s = []
    \<and> \<not> lock_held s \<and> 0 \<le> lsock"
proof -
  let ?s = "sched_globals\<lparr>kern := k, mallocs := ms, rands := rs, stale := st\<rparr>"
  have "post (sched_main path ?s) (\<lambda>(l, t). 0 \<le> l \<and> (\<exists>k'. t = ?s\<lparr>scheduler_on := True, tq := 30, kern := k',
      out_msg := (out_msg ?s)\<lparr>m_id := 7331\<rparr>\<rparr>))"
    by (auto simp: sched_main_def post NVSHARE_DEFAULT_TQ_def Let_def nvshare_get_scheduler_path_def
        intro!: post_mono [OF nvshare_bind_and_listen_post] split: prod.splits)
  from post_D [OF this assms(1)] obtain k' where "0 \<le> lsock"
    and s: "s = ?s\<lparr>scheduler_on := True, tq := 30, kern := k', out_msg := (out_msg ?s)\<lparr>m_id := 7331\<rparr>\<rparr>" by auto
  moreover have "mem_inv s" using assms(2) by (intro mem_invI) (auto simp: s sched_globals_def)
  ultimately show ?thesis by (simp add: sched_inv_def no_idle_def s sched_globals_def)
qed

text \<open>
  the scheduler starts in a correct state. When the initialisation in \<open>main\<close> returns, the scheduler is
  on, the time quantum is the default, nobody is connected or waiting, the listening socket
  is a valid descriptor and the invariant holds.
\<close>

theorem sched_main_starts:
  assumes "sched_main path (sched_globals\<lparr>kern := k, mallocs := ms, rands := rs, stale := st\<rparr>) = Inr (lsock, s)"
    and "\<And>p c. Some (p, c) \<in> set ms \<Longrightarrow> client_ok c"
  shows "sched_inv s \<and> no_idle s \<and> scheduler_on s \<and> tq s = 30 \<and> clients s = [] \<and> requests s = []
    \<and> \<not> lock_held s \<and> 0 \<le> lsock"
  using sched_boot [OF assms] .

definition ex_boot :: sched where
  "ex_boot = sched_globals\<lparr>kern := \<lparr>answers = map (\<lambda>r. \<lparr>ret = r, err = 0, bytes = []\<rparr>) [0, 0, 5, 6, 0, 0, 0, 0, 0], calls = []\<rparr>\<rparr>"

lemma ex_boot_runs: "\<exists>s. sched_main (replicate NVSHARE_SOCK_PATH_MAX NUL) ex_boot = Inr (6, s)"
proof -
  obtain path where p: "nvshare_get_scheduler_path (replicate NVSHARE_SOCK_PATH_MAX NUL) = Inr (0, path)" "NUL \<in> set path"
    using nvshare_get_scheduler_path_eq [of "replicate NVSHARE_SOCK_PATH_MAX NUL"] by auto
  have "\<exists>b n. strlcpy (replicate NVSHARE_SOCK_PATH_MAX NUL) path NVSHARE_SOCK_PATH_MAX = Inr (b, n)"
    using strlcpy_string [OF p(2), of NVSHARE_SOCK_PATH_MAX "replicate NVSHARE_SOCK_PATH_MAX NUL"]
    by (simp add: Let_def NVSHARE_SOCK_PATH_MAX_def)
  with p(1) show ?thesis
    by (auto simp: sched_main_def ex_boot_def sched_globals_def sys_def nvshare_bind_and_listen_def
        nvshare_unix_bind_def Let_def)
qed

theorem sched_main_starts_witness:
  "\<exists>s. sched_main (replicate NVSHARE_SOCK_PATH_MAX NUL) ex_boot = Inr (6, s) \<and> sched_inv s \<and> tq s = 30"
proof -
  obtain s where s: "sched_main (replicate NVSHARE_SOCK_PATH_MAX NUL) ex_boot = Inr (6, s)" using ex_boot_runs by blast
  then have "sched_main (replicate NVSHARE_SOCK_PATH_MAX NUL) (sched_globals\<lparr>kern := kern ex_boot, mallocs := [],
      rands := [], stale := (\<lambda>_. - 1)\<rparr>) = Inr (6, s)"
    by (simp add: ex_boot_def sched_globals_def)
  from sched_main_starts [OF this] s show ?thesis by auto
qed

end
