(* ===== verification/Timer.thy ===== *)
theory Timer
  imports Scheduler_Props
begin

text \<open>
  The timer thread of the scheduler, \<open>timer_thr_fn\<close> in \<open>src/src/scheduler.c\<close>. The thread owns the
  global mutex except while it waits in \<open>pthread_cond_timedwait\<close>, so it moves in atomic steps: it
  arms the timer, and it handles one return of the wait. The second half of the theory
  interleaves it with the main thread and follows the clock.
\<close>

section \<open>The thread\<close>

record timer =
  round_at_start :: "32 word"
  timer_end_ts :: timespec
  drop_lock_sent :: bool

definition drop_msg :: message where
  "drop_msg = zero_message\<lparr>m_id := 1337, m_type := message_type_code DROP_LOCK\<rparr>"

text \<open>The head of the \<open>while\<close> loop, at the time \<open>now\<close>.\<close>

definition timer_arm :: "timespec \<Rightarrow> sched \<times> timer \<Rightarrow> sched \<times> timer" where
  "timer_arm now = (\<lambda>(s, t). (s\<lparr>must_reset_timer := False\<rparr>,
     t\<lparr>round_at_start := scheduling_round s, timer_end_ts := now\<lparr>tv_sec := tv_sec now + tq s\<rparr>\<rparr>))"

definition timer_start :: "timespec \<Rightarrow> sched \<Rightarrow> sched \<times> timer" where
  "timer_start now s = timer_arm now (s,
     \<lparr>round_at_start = 0, timer_end_ts = \<lparr>tv_sec = 0, tv_nsec = 0\<rparr>, drop_lock_sent = False\<rparr>)"

text \<open>The wait returns \<open>r\<close>; the loop is entered again at the time \<open>now\<close>, or the wait is resumed.\<close>

definition timer_wake :: "int \<Rightarrow> timespec \<Rightarrow> sched \<times> timer \<Rightarrow> (sched \<times> timer) res" where
  "timer_wake r now = (\<lambda>(s, t).
     if r = ETIMEDOUT then
       (if \<not> lock_held s then Inr (timer_arm now (s, t))
        else if drop_lock_sent t then Inr (timer_arm now (s, t))
        else if round_at_start t \<noteq> scheduling_round s
        then Inr (timer_arm now (s, t\<lparr>drop_lock_sent := False\<rparr>))
        else
          case requests s of
            [] \<Rightarrow> Inl NullDeref
          | p # _ \<Rightarrow>
              bindR (send_message p drop_msg s) (\<lambda>(n, s).
                if n < 0 then
                  bindR (case requests s of [] \<Rightarrow> Inl NullDeref | q # _ \<Rightarrow> delete_client q s) (\<lambda>s.
                  bindR (try_schedule s) (\<lambda>s.
                    Inr (timer_arm now (s, t\<lparr>drop_lock_sent := False\<rparr>))))
                else Inr (timer_arm now (s, t\<lparr>drop_lock_sent := True\<rparr>))))
     else if r \<noteq> 0 then Inl Exit
     else if must_reset_timer s then Inr (timer_arm now (s, t\<lparr>drop_lock_sent := False\<rparr>))
     else Inr (s, t))"

section \<open>One wake-up\<close>

lemma drop_msg_ok [simp]: "message_ok drop_msg"
  by (simp add: drop_msg_def)

lemma timer_arm_simps [simp]:
  "fst (timer_arm now (s, t)) = s\<lparr>must_reset_timer := False\<rparr>"
  "drop_lock_sent (snd (timer_arm now (s, t))) = drop_lock_sent t"
  "round_at_start (snd (timer_arm now (s, t))) = scheduling_round s"
  "timer_end_ts (snd (timer_arm now (s, t))) = now\<lparr>tv_sec := tv_sec now + tq s\<rparr>"
  by (simp_all add: timer_arm_def)

lemma lm_abs_must_reset [simp]: "lm_abs (s\<lparr>must_reset_timer := b\<rparr>) = lm_abs s"
  by (simp add: lm_abs_def)

lemma sched_inv_must_reset [simp]: "sched_inv (s\<lparr>must_reset_timer := b\<rparr>) = sched_inv s"
  by (simp add: sched_inv_def)

text \<open>When the timer fires for a holder.\<close>

definition fires :: "int \<Rightarrow> sched \<Rightarrow> timer \<Rightarrow> bool" where
  "fires r s t \<longleftrightarrow> r = ETIMEDOUT \<and> lock_held s \<and> \<not> drop_lock_sent t \<and> round_at_start t = scheduling_round s"

text \<open>What a wake-up does: the holder is told to drop the lock, or it is gone and the next one has the lock, or nothing.\<close>

definition woken :: "int \<Rightarrow> sched \<Rightarrow> timer \<Rightarrow> sched \<Rightarrow> timer \<Rightarrow> bool" where
  "woken r s t s' t' \<longleftrightarrow>
     (if fires r s t then
        (let p = hd (requests s) in
         (drop_lock_sent t' \<and> (\<exists>k. s' = s\<lparr>kern := k, must_reset_timer := False\<rparr>)
           \<and> (\<forall>q c. heap s q = Some c \<longrightarrow> sent_to (c_fd c) (kern s') = sent_to (c_fd c) (kern s)
                @ (if q = p then encode_message drop_msg else [])))
         \<or> (\<not> drop_lock_sent t' \<and> lm_step (lm_abs s) (Leave p) (lm_abs s')))
      else s' = s \<or> s' = s\<lparr>must_reset_timer := False\<rparr>)"

lemma wp_timer_wake:
  assumes inv: "sched_inv s"
  shows "wp (timer_wake r now (s, t)) (\<lambda>(s', t'). sched_inv s' \<and> woken r s t s' t')"
proof (cases "fires r s t")
  case False
  with inv show ?thesis
    by (auto simp: timer_wake_def wp woken_def fires_def timer_arm_def)
next
  case True
  have m: "mem_inv s" using inv by (simp add: sched_inv_def)
  obtain p rs where q: "requests s = p # rs"
    using True mem_invD(4) [OF m] by (cases "requests s") (auto simp: fires_def)
  obtain c where c: "heap s p = Some c" using live_request [OF m, of p] q by auto
  have on: "scheduler_on s" using inv q by (auto simp: sched_inv_def)
  have lost: "wp (delete_client p (s\<lparr>kern := k\<rparr>)) (\<lambda>u. wp (try_schedule u) (\<lambda>v. sched_inv v \<and> lm_step (lm_abs s) (Leave p) (lm_abs v)))" for k
  proof (rule wp_delete_client)
    fix k'
    let ?u = "(forget p (s\<lparr>kern := k\<rparr>))\<lparr>kern := k'\<rparr>"
    have "mem_inv ?u" using m by (simp add: mem_inv_forget)
    then show "wp (try_schedule ?u) (\<lambda>v. sched_inv v \<and> lm_step (lm_abs s) (Leave p) (lm_abs v))"
      using wp_serve [of ?u] on q by (simp add: lm_abs_release)
  qed (use m c in auto)
  show ?thesis
    using True q
    apply (simp add: timer_wake_def fires_def wp)
    apply (rule wp_send_message [where c = c])
       apply (rule c)
      apply simp
    subgoal for k
      using lost [of k] q True
      by (auto simp: wp woken_def Let_def timer_arm_def elim!: wp_mono)
    subgoal for k
      using q True c inv live_fd_eq [OF m _ c]
      by (auto simp: wp woken_def Let_def timer_arm_def)
    done
qed

section \<open>What the main thread does to the timer's variables\<close>

definition tctl :: "sched \<Rightarrow> 32 word \<times> int \<times> bool" where
  "tctl s = (scheduling_round s, tq s, must_reset_timer s)"

definition ticked :: "sched \<Rightarrow> sched \<Rightarrow> bool" where
  "ticked s s' \<longleftrightarrow> tctl s' = tctl s
     \<or> (must_reset_timer s' \<and> (scheduling_round s' = scheduling_round s
          \<or> scheduling_round s' = scheduling_round s + 1 \<and> tq s' = tq s))"

lemma tctl_upd [simp]:
  "tctl (s\<lparr>kern := k\<rparr>) = tctl s" "tctl (s\<lparr>mallocs := ms\<rparr>) = tctl s" "tctl (s\<lparr>requests := q\<rparr>) = tctl s"
  "tctl (s\<lparr>heap := h\<rparr>) = tctl s" "tctl (s\<lparr>clients := cl\<rparr>) = tctl s" "tctl (s\<lparr>rands := rs\<rparr>) = tctl s"
  "tctl (s\<lparr>out_msg := m\<rparr>) = tctl s" "tctl (s\<lparr>lock_held := l\<rparr>) = tctl s" "tctl (s\<lparr>scheduler_on := b\<rparr>) = tctl s"
  "tctl (set_out_type t s) = tctl s"
  by (simp_all add: tctl_def)

lemma ctl_tctl: "ctl s = ctl t \<Longrightarrow> tctl s = tctl t"
  by (simp add: ctl_def tctl_def)

lemma ticked_same: "tctl s' = tctl s \<Longrightarrow> ticked s s'"
  by (simp add: ticked_def)

lemma ticked_cong: "tctl s1 = tctl s \<Longrightarrow> ticked s1 s' = ticked s s'"
  by (auto simp: ticked_def tctl_def)

lemma send_message_tctl: "post (send_message p m s) (\<lambda>(r, s'). tctl s' = tctl s)"
  by (rule post_mono [OF send_message_frame]) auto

lemma delete_client_tctl: "post (delete_client p s) (\<lambda>s'. tctl s' = tctl s)"
  by (rule post_mono [OF delete_client_frame]) (rule ctl_tctl)

lemma remove_req_tctl: "post (remove_req p s) (\<lambda>s'. tctl s' = tctl s)"
  by (rule post_mono [OF remove_req_frame]) (auto intro: ctl_tctl)

lemma insert_req_tctl: "post (insert_req p s) (\<lambda>s'. tctl s' = tctl s)"
  by (auto simp: insert_req_def post pop_malloc_def post_def bindR_Inr_iff split: list.splits option.splits if_splits)

lemma receive_message_tctl: "post (receive_message p s) (\<lambda>(r, m, s'). tctl s' = tctl s)"
  by (auto simp: receive_message_def nvshare_receive_noblock_def post Let_def split: prod.splits)

lemma register_client_tctl: "post (register_client p m s) (\<lambda>(r, s'). tctl s' = tctl s)"
proof -
  have snd: "post (send_message p x u) (\<lambda>(r, s'). tctl s' = tctl s)" if "tctl u = tctl s" for x u
    using send_message_tctl [of p x u] that by simp
  show ?thesis
    by (auto simp: register_client_def post Let_def post_def [of "pick_id _ _"] post_def [of "deref_all _ _"]
        case_prod_unfold intro!: post_mono [OF snd])
qed

lemma bcast_status_loop_tctl: "post (bcast_status_loop cs s) (\<lambda>s'. tctl s' = tctl s)"
proof (induction cs arbitrary: s)
  case (Cons c cs)
  have IH: "post (bcast_status_loop cs u) (\<lambda>s'. tctl s' = tctl s)" if "tctl u = tctl s" for u
    using Cons [of u] that by simp
  have "post (delete_client c u) (\<lambda>v. post (bcast_status_loop cs v) (\<lambda>s'. tctl s' = tctl s))" if "tctl u = tctl s" for u
    using delete_client_tctl by (rule post_mono) (use IH that in auto)
  with IH show ?case
    by (auto simp: post Let_def intro!: post_mono [OF send_message_tctl])
qed (simp add: post)

lemma try_schedule_ticked: "post (try_schedule s) (ticked s)"
proof (induction "length (requests s)" arbitrary: s rule: less_induct)
  case less
  show ?case
  proof (cases "requests s")
    case Nil
    then show ?thesis by (simp add: try_schedule.simps post ticked_same)
  next
    case (Cons p rs)
    have rec: "post (try_schedule u) (ticked s)" if "length (requests u) < length (requests s)" "tctl u = tctl s" for u
      using less [OF that(1)] ticked_cong [OF that(2)] by (simp add: post_def)
    have lost: "post (delete_client p u) (\<lambda>v. post (try_schedule v) (ticked s))"
      if "requests u = requests s" "tctl u = tctl s" for u
    proof (rule post_I)
      fix v assume d: "delete_client p u = Inr v"
      have "length (requests v) < length (requests s)"
        using post_D [OF delete_client_head_shorter d] Cons that(1) by simp
      with post_D [OF delete_client_tctl d] that(2) show "post (try_schedule v) (ticked s)" by (simp add: rec)
    qed
    show ?thesis
      unfolding try_schedule.simps [of s] Cons list.case Let_def post
      by (rule post_mono [OF send_message_frame]) (use lost Cons in \<open>auto simp: post ticked_def tctl_def\<close>)
  qed
qed

lemma serve_ticked:
  assumes "tctl u = tctl s"
  shows "post (if c then try_schedule u else Inr u) (ticked s)"
  using try_schedule_ticked [of u] ticked_cong [OF assms] ticked_same [OF assms] by (simp add: post post_def)

lemma drop_client_ticked: "tctl u = tctl s \<Longrightarrow> post (drop_client p u) (ticked s)"
  unfolding drop_client_def post
  by (rule post_mono [OF delete_client_tctl]) (rule serve_ticked, simp)

lemma process_msg_ticked:
  assumes "tctl u = tctl s"
  shows "post (process_msg p m u) (ticked s)"
proof -
  have del: "post (delete_client p v) (ticked s)" if "tctl v = tctl s" for v
    by (rule post_mono [OF delete_client_tctl]) (use that ticked_same in auto)
  have bc: "post (bcast_status v) (ticked s)" if "tctl v = tctl s" for v
    unfolding bcast_status_def by (rule post_mono [OF bcast_status_loop_tctl]) (use that ticked_same in auto)
  have off: "post (bcast_status v) (\<lambda>w. ticked s (w\<lparr>requests := [], lock_held := False\<rparr>))" if "tctl v = tctl s" for v
    unfolding bcast_status_def by (rule post_mono [OF bcast_status_loop_tctl]) (use that ticked_same in auto)
  have reg: "post (register_client p m u) (\<lambda>(r, v). post (if r < 0 then delete_client p v else Inr v) (ticked s))"
    by (rule post_mono [OF register_client_tctl]) (use assms del ticked_same in \<open>auto simp: post\<close>)
  have req: "post (insert_req p u) (\<lambda>v. post (if \<not> lock_held v then try_schedule v else Inr v) (ticked s))"
    by (rule post_mono [OF insert_req_tctl], rule serve_ticked) (use assms in simp)
  have rel: "post (remove_req p u) (\<lambda>v. post (if \<not> lock_held v then try_schedule v else Inr v) (ticked s))"
    by (rule post_mono [OF remove_req_tctl], rule serve_ticked) (use assms in simp)
  have tq: "post (process_set_tq m u) (ticked s)"
    using assms by (auto simp: process_set_tq_def post Let_def ticked_def tctl_def)
  show ?thesis
    using assms reg req rel tq del [of u] bc [of "u\<lparr>scheduler_on := True\<rparr>"] off [of "u\<lparr>scheduler_on := False\<rparr>"]
    by (simp add: process_msg_def post ticked_same case_prod_unfold split: option.splits message_type.splits)
qed

lemma handle_event_ticked: "post (handle_event lsock ev s) (ticked s)"
proof -
  have conn: "post (new_connection lsock s) (ticked s)"
    by (auto simp: new_connection_def nvshare_accept_def pop_malloc_def post Let_def ticked_same
        split: prod.splits list.splits option.splits)
  have "post (client_event e p s) (ticked s)" for e p
    by (auto simp: client_event_def post ticked_same drop_client_ticked process_msg_ticked
        intro!: post_mono [OF receive_message_tctl])
  with conn show ?thesis by (simp add: handle_event_def)
qed

end
