(* ===== verification/Scheduler_Sent.thy ===== *)
theory Scheduler_Sent
  imports Timer
begin

text \<open>
  What the scheduler sends, and to whom, when it handles an event: the view of the lock manager that
  its clients have. \<open>dealt add del\<close> describes an event that puts the clients in \<open>add\<close> into the queue and takes
  those in \<open>del\<close> out: the clients that are still connected afterwards keep their place otherwise, a holder keeps the
  lock, and exactly the client that becomes the holder is sent a LOCK_OK.
\<close>

definition dealt :: "addr set \<Rightarrow> addr set \<Rightarrow> sched \<Rightarrow> sched \<Rightarrow> bool" where
  "dealt add del s s' \<longleftrightarrow> scheduler_on s' = scheduler_on s
     \<and> (\<forall>q c. heap s' q = Some c \<longrightarrow> heap s q = Some c
          \<and> (q \<in> set (requests s') \<longleftrightarrow> q \<in> add \<or> q \<in> set (requests s) \<and> q \<notin> del)
          \<and> (holder s = Some q \<and> q \<notin> del \<longrightarrow> holder s' = Some q)
          \<and> sent_to (c_fd c) (kern s') = sent_to (c_fd c) (kern s)
              @ (if holder s' = Some q \<and> holder s \<noteq> Some q then encode_message (lock_ok_msg s) else []))"

lemma dealtI:
  assumes "scheduler_on s' = scheduler_on s"
    and "\<And>q c. heap s' q = Some c \<Longrightarrow> heap s q = Some c
      \<and> (q \<in> set (requests s') \<longleftrightarrow> q \<in> add \<or> q \<in> set (requests s) \<and> q \<notin> del)
      \<and> (holder s = Some q \<and> q \<notin> del \<longrightarrow> holder s' = Some q)
      \<and> sent_to (c_fd c) (kern s') = sent_to (c_fd c) (kern s)
          @ (if holder s' = Some q \<and> holder s \<noteq> Some q then encode_message (lock_ok_msg s) else [])"
  shows "dealt add del s s'"
  using assms unfolding dealt_def by blast

lemma dealtD:
  assumes "dealt add del s s'"
  shows "scheduler_on s' = scheduler_on s"
    and "heap s' q = Some c \<Longrightarrow> heap s q = Some c"
    and "heap s' q = Some c \<Longrightarrow> q \<in> set (requests s') \<longleftrightarrow> q \<in> add \<or> q \<in> set (requests s) \<and> q \<notin> del"
    and "heap s' q = Some c \<Longrightarrow> holder s = Some q \<Longrightarrow> q \<notin> del \<Longrightarrow> holder s' = Some q"
    and "heap s' q = Some c \<Longrightarrow> sent_to (c_fd c) (kern s') = sent_to (c_fd c) (kern s)
          @ (if holder s' = Some q \<and> holder s \<noteq> Some q then encode_message (lock_ok_msg s) else [])"
  using assms unfolding dealt_def by blast+

lemma holder_kern [simp]: "holder (s\<lparr>kern := k\<rparr>) = holder s"
  by (simp add: holder_def)

lemma dealt_same:
  assumes "heap s' = heap s" "requests s' = requests s" "lock_held s' = lock_held s" "scheduler_on s' = scheduler_on s"
    and "\<And>fd. sent_to fd (kern s') = sent_to fd (kern s)"
  shows "dealt {} {} s s'"
proof -
  have "holder s' = holder s" using assms by (simp add: holder_def)
  with assms show ?thesis by (intro dealtI) auto
qed

lemma granted_dealt:
  assumes free: "\<not> lock_held s" and g: "granted s s'"
  shows "dealt {} {} s s'"
proof -
  from g obtain dead where d: "requests s = dead @ requests s'" "shrunk (set dead) s s'" by (auto simp: granted_def)
  have h: "holder s' = Some q \<longleftrightarrow> requests s' \<noteq> [] \<and> hd (requests s') = q" for q
    using g by (auto simp: granted_def holder_def split: list.splits)
  have n: "holder s = None" using free by (simp add: holder_def)
  show ?thesis
  proof (rule dealtI)
    show "scheduler_on s' = scheduler_on s" using d(2) by (simp add: shrunk_def)
    fix q c assume c: "heap s' q = Some c"
    then have "heap s q = Some c" "q \<notin> set dead" using shrunk_heap [OF d(2)] by auto
    moreover have "sent_to (c_fd c) (kern s') = sent_to (c_fd c) (kern s)
        @ (if requests s' \<noteq> [] \<and> hd (requests s') = q then encode_message (lock_ok_msg s) else [])"
      using g c unfolding granted_def by blast
    ultimately show "heap s q = Some c \<and> (q \<in> set (requests s') \<longleftrightarrow> q \<in> {} \<or> q \<in> set (requests s) \<and> q \<notin> {})
      \<and> (holder s = Some q \<and> q \<notin> {} \<longrightarrow> holder s' = Some q)
      \<and> sent_to (c_fd c) (kern s') = sent_to (c_fd c) (kern s)
          @ (if holder s' = Some q \<and> holder s \<noteq> Some q then encode_message (lock_ok_msg s) else [])"
      by (simp add: h n d(1))
  qed
qed

lemma wp_serve_dealt:
  assumes "mem_inv s"
  shows "wp (if \<not> lock_held s then try_schedule s else Inr s) (dealt {} {} s)"
proof (cases "lock_held s")
  case False
  with wp_try_schedule [OF assms] granted_dealt show ?thesis by (auto elim!: wp_mono)
qed (simp add: wp dealt_same)

text \<open>A change of the queue, followed by what \<open>try_schedule\<close> does.\<close>

lemma dealt_after:
  assumes d: "dealt {} {} t s'"
    and t: "scheduler_on t = scheduler_on s" "lock_ok_msg t = lock_ok_msg s" "\<And>fd. sent_to fd (kern t) = sent_to fd (kern s)"
    and q: "\<And>q c. heap s' q = Some c \<Longrightarrow> heap t q = Some c \<Longrightarrow> heap s q = Some c
      \<and> (q \<in> set (requests t) \<longleftrightarrow> q \<in> add \<or> q \<in> set (requests s) \<and> q \<notin> del)
      \<and> (holder s = Some q \<and> q \<notin> del \<longrightarrow> holder t = Some q) \<and> (holder t = Some q \<longrightarrow> holder s = Some q)
      \<and> (holder s = Some q \<longrightarrow> q \<notin> set (requests t) \<or> holder t = Some q)"
  shows "dealt add del s s'"
proof (rule dealtI)
  show "scheduler_on s' = scheduler_on s" using dealtD(1) [OF d] t(1) by simp
  fix p c assume c: "heap s' p = Some c"
  note D = dealtD(2-5) [OF d c]
  note Q = q [OF c D(1)]
  have in_q: "p \<in> set (requests s')" if "holder s' = Some p"
    using that by (auto simp: holder_def split: if_splits list.splits)
  have h: "holder s' = Some p \<and> holder t \<noteq> Some p \<longleftrightarrow> holder s' = Some p \<and> holder s \<noteq> Some p"
    using in_q D(2) Q by blast
  have "sent_to (c_fd c) (kern s') = sent_to (c_fd c) (kern s)
      @ (if holder s' = Some p \<and> holder s \<noteq> Some p then encode_message (lock_ok_msg s) else [])"
    using D(4) unfolding h t(2,3) .
  moreover have "holder s = Some p \<and> p \<notin> del \<longrightarrow> holder s' = Some p" using D(3) Q by blast
  moreover have "p \<in> set (requests s') \<longleftrightarrow> p \<in> add \<or> p \<in> set (requests s) \<and> p \<notin> del" using D(2) Q by blast
  ultimately show "heap s p = Some c \<and> (p \<in> set (requests s') \<longleftrightarrow> p \<in> add \<or> p \<in> set (requests s) \<and> p \<notin> del)
      \<and> (holder s = Some p \<and> p \<notin> del \<longrightarrow> holder s' = Some p)
      \<and> sent_to (c_fd c) (kern s') = sent_to (c_fd c) (kern s)
          @ (if holder s' = Some p \<and> holder s \<noteq> Some p then encode_message (lock_ok_msg s) else [])"
    using conjunct1 [OF Q] by blast
qed

section \<open>Requests and releases\<close>

lemma holder_eq: "holder s = Some p \<longleftrightarrow> lock_held s \<and> requests s \<noteq> [] \<and> hd (requests s) = p"
  by (auto simp: holder_def split: list.splits)

lemma wp_request_dealt:
  assumes inv: "sched_inv s" and c: "heap s p = Some c" "has_registered c"
  shows "wp (bindR (insert_req p s) (\<lambda>s. if \<not> lock_held s then try_schedule s else Inr s)) (dealt {p} {} s)"
proof -
  have m: "mem_inv s" using inv by (simp add: sched_inv_def)
  have serve: "wp (if \<not> lock_held t then try_schedule t else Inr t) (dealt {p} {} s)"
    if t: "mem_inv t" "heap t = heap s" "requests t = (if p \<in> set (requests s) then requests s else requests s @ [p])"
      "lock_held t = lock_held s" "scheduler_on t = scheduler_on s" "out_msg t = out_msg s" "kern t = kern s" for t
  proof (rule wp_mono [OF wp_serve_dealt [OF t(1)]], erule dealt_after)
    have "holder t = holder s" using t mem_invD(4) [OF m] by (auto simp: holder_def split: list.splits)
    then show "heap s q = Some d \<and> (q \<in> set (requests t) \<longleftrightarrow> q \<in> {p} \<or> q \<in> set (requests s) \<and> q \<notin> {})
      \<and> (holder s = Some q \<and> q \<notin> {} \<longrightarrow> holder t = Some q) \<and> (holder t = Some q \<longrightarrow> holder s = Some q)
      \<and> (holder s = Some q \<longrightarrow> q \<notin> set (requests t) \<or> holder t = Some q)" if "heap t q = Some d" for q d
      using that t by auto
  qed (use t in \<open>auto simp: lock_ok_msg_def\<close>)
  have "mem_inv (s\<lparr>mallocs := ms, requests := requests s @ [p]\<rparr>)"
    if "p \<notin> set (requests s)" "mallocs s = x # ms" for x ms
    using m c that unfolding mem_inv_def by auto
  with serve [of s] serve [of "s\<lparr>mallocs := _, requests := requests s @ [p]\<rparr>"] show ?thesis
    using insert_req_loop_eq [OF m c(1), of "requests s"] m
    by (auto simp: insert_req_def wp pop_malloc_def split: list.splits option.splits)
qed

lemma holder_unrequest:
  assumes "mem_inv s"
  shows "holder (unrequest p s) = (if holder s = Some p then None else holder s)"
    "holder (forget p s) = (if holder s = Some p then None else holder s)"
proof -
  have "holder (unrequest p s) = (if holder s = Some p then None else holder s)"
    using mem_invD(4) [OF assms] by (cases "requests s") (auto simp: holder_def unrequest_def)
  moreover have "requests (forget p s) = requests (unrequest p s)" "lock_held (forget p s) = lock_held (unrequest p s)"
    by (simp_all add: forget_def)
  then have "holder (forget p s) = holder (unrequest p s)" unfolding holder_def by (simp only:)
  ultimately show "holder (unrequest p s) = (if holder s = Some p then None else holder s)"
    "holder (forget p s) = (if holder s = Some p then None else holder s)" by simp_all
qed

lemma wp_release_dealt:
  assumes m: "mem_inv s" and c: "heap s p = Some c"
  shows "wp (bindR (remove_req p s) (\<lambda>s. if \<not> lock_held s then try_schedule s else Inr s)) (dealt {} {p} s)"
proof -
  have "wp (if \<not> lock_held (unrequest p s) then try_schedule (unrequest p s) else Inr (unrequest p s)) (dealt {} {p} s)"
  proof (rule wp_mono [OF wp_serve_dealt [OF mem_inv_unrequest [OF m]]], erule dealt_after, goal_cases)
    case (4 t q d)
    then show ?case using mem_invD(3) [OF m] by (auto simp: holder_unrequest [OF m])
  qed (auto simp: lock_ok_msg_def unrequest_def)
  then show ?thesis by (simp add: remove_req_eq [OF m c])
qed

lemma wp_leave_dealt:
  assumes m: "mem_inv s" and c: "heap s p = Some c"
  shows "wp (drop_client p s) (dealt {} {} s)"
  unfolding drop_client_def wp_bind
proof (rule wp_delete_client [OF m c], goal_cases)
  case (1 k)
  let ?t = "(forget p s)\<lparr>kern := k\<rparr>"
  have mt: "mem_inv ?t" using mem_inv_forget [OF m, of p] by simp
  have gone: "dealt {} {} s u" if "dealt {} {} ?t u" for u
    using that
  proof (rule dealt_after, goal_cases)
    case (4 q d)
    then have "q \<noteq> p" by auto
    with 4 show ?case by (auto simp: holder_unrequest(2) [OF m] )
  qed (use 1 in \<open>auto simp: lock_ok_msg_def\<close>)
  have "wp (if \<not> lock_held ?t then try_schedule ?t else Inr ?t) (dealt {} {} s)"
    by (rule wp_mono [OF wp_serve_dealt [OF mt] gone])
  then show ?case using gone [OF dealt_same [OF refl refl refl refl refl]] by (auto simp: wp split: if_splits)
qed

section \<open>Messages, connections and the timer\<close>

text \<open>A registration tells the client its ID; everyone else is left alone.\<close>

definition welcomed :: "addr \<Rightarrow> sched \<Rightarrow> sched \<Rightarrow> bool" where
  "welcomed p s s' \<longleftrightarrow> scheduler_on s' = scheduler_on s \<and> requests s' = requests s \<and> lock_held s' = lock_held s
     \<and> (\<forall>q c. q \<noteq> p \<and> heap s' q = Some c \<longrightarrow> heap s q = Some c \<and> sent_to (c_fd c) (kern s') = sent_to (c_fd c) (kern s))
     \<and> (\<forall>c'. heap s' p = Some c' \<longrightarrow> has_registered c'
          \<and> sent_to (c_fd c') (kern s') = sent_to (c_fd c') (kern s) @ encode_message (id_msg (c_id c') s))"

lemma wp_register_welcomed:
  assumes inv: "mem_inv s" and c: "heap s p = Some c" "\<not> has_registered c" and m: "message_ok m" "NUL \<in> set (m_data m)"
  shows "wp (bindR (register_client p m s) (\<lambda>(r, s). if r < 0 then delete_client p s else Inr s)) (welcomed p s)"
  unfolding wp_bind
proof (rule wp_register_client [OF inv c(1) m], goal_cases)
  case (2 i c' s')
  have q: "p \<notin> set (requests s)" using mem_invD(8) [OF inv] c by fastforce
  have other: "c_fd d \<noteq> c_fd c" if "q \<noteq> p" "heap s q = Some d" for q d
    using that mem_invD(6) [OF inv _ c(1)] by blast
  have s': "heap s' = (heap s)(p \<mapsto> c')" "scheduler_on s' = scheduler_on s" "requests s' = requests s" "lock_held s' = lock_held s"
    using 2(6) by (auto simp: enrolled_def)
  have "wp (delete_client p s') (welcomed p s)"
    by (rule wp_delete_client [OF 2(7)]) (use s' q 2(8) other mem_invD(4) [OF inv] in
      \<open>auto simp: welcomed_def remove1_idem split: if_splits\<close>)
  moreover have "welcomed p s s'"
    if "sent_to (c_fd c) (kern s') = sent_to (c_fd c) (kern s) @ encode_message (id_msg i s)"
    using that s' 2 other by (auto simp: welcomed_def split: if_splits)
  ultimately show ?case by (simp add: wp)
qed (use c in simp)

lemma wp_new_connection_dealt:
  assumes inv: "mem_inv s" and ok: "accept_ok lsock s"
  shows "wp (new_connection lsock s) (\<lambda>s'. scheduler_on s' = scheduler_on s \<and> requests s' = requests s \<and> lock_held s' = lock_held s
     \<and> (\<forall>fd. sent_to fd (kern s') = sent_to fd (kern s)) \<and> (\<forall>q c. heap s' q = Some c \<longrightarrow> heap s q = Some c \<or> heap s q = None \<and> \<not> has_registered c))"
proof -
  have quiet: "sent_to fd k = sent_to fd (kern s)" if "retry_intr (Sys_accept4 lsock) (kern s) = Inr (a, k)" for fd a k
    using retry_intr_sent [OF that, of fd] by simp
  have calls: "sent_to fd (k\<lparr>answers := as, calls := calls k @ cs\<rparr>) = sent_to fd k @ concat (map (sent_by fd) cs)" for fd k as cs
    by (simp add: sent_to_def)
  have free: "heap s p = None" if "p \<notin> set (clients s)" for p using that mem_invD(2) [OF inv] by auto
  show ?thesis
    using ok
    by (auto simp: new_connection_def nvshare_accept_def wp pop_malloc_def Let_def accept_ok_def has_registered_def
        calls quiet free split: list.splits option.splits)
qed

text \<open>What a message of a connected client means for everyone, while the scheduler is on.\<close>

lemma wp_process_dealt:
  assumes inv: "sched_inv s" and on: "scheduler_on s" and c: "heap s p = Some c" and m: "message_ok m" "NUL \<in> set (m_data m)"
    and t: "message_type_of (m_type m) = t" and ok: "t \<noteq> Some SCHED_OFF" "t = Some REGISTER \<Longrightarrow> \<not> has_registered c"
      "t = Some REQ_LOCK \<or> t = Some LOCK_RELEASED \<Longrightarrow> has_registered c"
  shows "wp (process_msg p m s) (\<lambda>s'. if t = Some REGISTER then welcomed p s s'
    else dealt (if t = Some REQ_LOCK then {p} else {}) (if t = Some LOCK_RELEASED then {p} else {}) s s')"
proof -
  have i: "mem_inv s" using inv by (simp add: sched_inv_def)
  show ?thesis
  proof (cases t)
    case None
    with t show ?thesis by (simp add: process_msg_def wp dealt_same)
  next
    case (Some u)
    show ?thesis
    proof (cases u)
      case REGISTER
      with Some t wp_register_welcomed [OF i c _ m] ok show ?thesis by (simp add: process_msg_def)
    next
      case REQ_LOCK
      with Some t wp_request_dealt [OF inv c] ok c on show ?thesis by (simp add: process_msg_def)
    next
      case LOCK_RELEASED
      with Some t wp_release_dealt [OF i c] ok c on show ?thesis by (simp add: process_msg_def)
    next
      case SET_TQ
      with Some t m(2) show ?thesis
        by (auto simp: process_msg_def process_set_tq_def wp Let_def intro: dealt_same)
    qed (use Some t ok on in \<open>simp_all add: process_msg_def wp dealt_same\<close>)
  qed
qed

text \<open>Only what has been sent matters of the kernel's log.\<close>

lemma dealt_kern:
  assumes "\<And>fd. sent_to fd k = sent_to fd (kern s)"
  shows "dealt A D (s\<lparr>kern := k\<rparr>) s' = dealt A D s s'"
  using assms by (simp add: dealt_def lock_ok_msg_def)

lemma welcomed_kern:
  assumes "\<And>fd. sent_to fd k = sent_to fd (kern s)"
  shows "welcomed p (s\<lparr>kern := k\<rparr>) s' = welcomed p s s'"
  using assms by (simp add: welcomed_def id_msg_def sched_status_def)

text \<open>The timer thread tells the holder to drop the lock; if the holder cannot be reached, the next client has the lock.\<close>

definition warned :: "sched \<Rightarrow> sched \<Rightarrow> bool" where
  "warned s s' \<longleftrightarrow> scheduler_on s' = scheduler_on s \<and> heap s' = heap s \<and> requests s' = requests s \<and> lock_held s' = lock_held s
     \<and> (\<forall>q c. heap s q = Some c \<longrightarrow> sent_to (c_fd c) (kern s') = sent_to (c_fd c) (kern s)
          @ (if holder s = Some q then encode_message drop_msg else []))"

lemma dealt_must_reset [simp]: "dealt A D s (s'\<lparr>must_reset_timer := b\<rparr>) = dealt A D s s'"
  by (simp add: dealt_def holder_def)

lemma wp_timer_dealt:
  assumes inv: "sched_inv s"
  shows "wp (timer_wake r now (s, t)) (\<lambda>(s', t'). dealt {} {} s s' \<or> warned s s')"
proof (cases "fires r s t")
  case False
  have "dealt {} {} s s" by (simp add: dealt_same)
  with False show ?thesis
    by (auto simp: timer_wake_def wp fires_def timer_arm_def)
next
  case True
  have m: "mem_inv s" using inv by (simp add: sched_inv_def)
  obtain p rs where q: "requests s = p # rs"
    using True mem_invD(4) [OF m] by (cases "requests s") (auto simp: fires_def)
  obtain c where c: "heap s p = Some c" using live_request [OF m, of p] q by auto
  have h: "holder s = Some p" using True q by (simp add: fires_def holder_def)
  have on: "scheduler_on s" using inv q by (auto simp: sched_inv_def)
  have lost: "wp (delete_client p (s\<lparr>kern := k\<rparr>)) (\<lambda>u. wp (try_schedule u) (dealt {} {} s))"
    if k: "\<And>fd. fd \<noteq> c_fd c \<Longrightarrow> sent_to fd k = sent_to fd (kern s)" for k
  proof (rule wp_delete_client)
    fix k' assume k': "\<And>fd. sent_to fd k' = sent_to fd (kern (s\<lparr>kern := k\<rparr>))"
    let ?u = "(forget p (s\<lparr>kern := k\<rparr>))\<lparr>kern := k'\<rparr>"
    have mu: "mem_inv ?u" using m by (simp add: mem_inv_forget)
    have free: "\<not> lock_held ?u" using q by simp
    show "wp (try_schedule ?u) (dealt {} {} s)"
    proof (rule wp_mono [OF wp_try_schedule [OF mu free]])
      fix u assume "mem_inv u \<and> granted ?u u"
      then have d: "dealt {} {} ?u u" using granted_dealt [OF free] by blast
      show "dealt {} {} s u"
      proof (rule dealtI)
        show "scheduler_on u = scheduler_on s" using dealtD(1) [OF d] by simp
        fix x d' assume x: "heap u x = Some d'"
        have xp: "x \<noteq> p" "heap s x = Some d'" using dealtD(2) [OF d x] by (auto split: if_splits)
        then have "c_fd d' \<noteq> c_fd c" using mem_invD(6) [OF m xp(2) c] by auto
        moreover have "holder ?u = None" by (simp only: holder_def free if_False)
        ultimately show "heap s x = Some d' \<and> (x \<in> set (requests u) \<longleftrightarrow> x \<in> {} \<or> x \<in> set (requests s) \<and> x \<notin> {})
            \<and> (holder s = Some x \<and> x \<notin> {} \<longrightarrow> holder u = Some x)
            \<and> sent_to (c_fd d') (kern u) = sent_to (c_fd d') (kern s)
                @ (if holder u = Some x \<and> holder s \<noteq> Some x then encode_message (lock_ok_msg s) else [])"
          using dealtD(3,5) [OF d x] xp h k k' q by (simp add: lock_ok_msg_def)
      qed
    qed
  qed (use m c in auto)
  show ?thesis
    using True q
    apply (simp add: timer_wake_def fires_def wp)
    apply (rule wp_send_message [where c = c])
       apply (rule c)
      apply simp
    subgoal for k
      using lost [of k] q True by (auto simp: wp timer_arm_def elim!: wp_mono)
    subgoal for k
      using q c h live_fd_eq [OF m _ c] by (auto simp: wp timer_arm_def warned_def)
    done
qed

end
