(* ===== verification/Clock.thy ===== *)
theory Clock
  imports Scheduler_Sent
begin

text \<open>
  The two threads of the scheduler together, and the clock. A configuration has the shared
  state, the timer thread's variables and the time; the further fields only record history:
  when the timer was armed and for how long, when the lock was last granted, how often it has been
  granted since the timer was armed, and how many DROP_LOCK messages the timer has sent since it was
  last restarted. Times are in nanoseconds.
\<close>

record clocked =
  cs :: sched
  ct :: timer
  now :: timespec
  armed_at :: int
  armed_tq :: int
  grant_at :: int
  grants :: nat
  drops :: nat

definition clock_start :: "timespec \<Rightarrow> sched \<Rightarrow> clocked" where
  "clock_start n s = \<lparr>cs = fst (timer_start n s), ct = snd (timer_start n s), now = n,
     armed_at = timespec_ns n, armed_tq = tq s, grant_at = timespec_ns n, grants = 0, drops = 0\<rparr>"

definition after_main :: "clocked \<Rightarrow> sched \<Rightarrow> clocked" where
  "after_main c s' =
     (if scheduling_round s' = scheduling_round (cs c) then c\<lparr>cs := s'\<rparr>
      else c\<lparr>cs := s', grant_at := timespec_ns (now c), grants := Suc (grants c), drops := 0\<rparr>)"

definition after_wake :: "int \<Rightarrow> clocked \<Rightarrow> sched \<Rightarrow> timer \<Rightarrow> clocked" where
  "after_wake r c s' t' =
     (if r = 0 \<and> \<not> must_reset_timer (cs c) then c\<lparr>cs := s', ct := t'\<rparr>
      else c\<lparr>cs := s', ct := t', armed_at := timespec_ns (now c), armed_tq := tq s', grants := 0,
        grant_at := (if scheduling_round s' = scheduling_round (cs c) then grant_at c else timespec_ns (now c)),
        drops := (if fires r (cs c) (ct c) then (if drop_lock_sent t' then Suc (drops c) else 0)
                  else if drop_lock_sent t' then drops c else 0)\<rparr>)"

inductive clock_step :: "clocked \<Rightarrow> clocked \<Rightarrow> bool" where
  pass: "timespec_ns (now c) \<le> timespec_ns n \<Longrightarrow> clock_step c (c\<lparr>now := n\<rparr>)"
| main: "event_ok lsock ev (cs c) \<Longrightarrow> handle_event lsock ev (cs c) = Inr s' \<Longrightarrow> clock_step c (after_main c s')"
| wake: "(r = ETIMEDOUT \<longrightarrow> timespec_ns (timer_end_ts (ct c)) \<le> timespec_ns (now c)) \<Longrightarrow>
    timer_wake r (now c) (cs c, ct c) = Inr (s', t') \<Longrightarrow> clock_step c (after_wake r c s' t')"

definition clock_inv :: "clocked \<Rightarrow> bool" where
  "clock_inv c \<longleftrightarrow> sched_inv (cs c)
     \<and> scheduling_round (cs c) = round_at_start (ct c) + of_nat (grants c)
     \<and> (grants c = 0 \<longrightarrow> grant_at c \<le> armed_at c)
     \<and> grant_at c \<le> timespec_ns (now c)
     \<and> timespec_ns (timer_end_ts (ct c)) = armed_at c + armed_tq c * 10 ^ 9
     \<and> (\<not> must_reset_timer (cs c) \<longrightarrow> armed_tq c = tq (cs c))
     \<and> drops c \<le> 1 \<and> (drops c = 1 \<longrightarrow> drop_lock_sent (ct c))"

lemma clock_inv_start: "sched_inv s \<Longrightarrow> clock_inv (clock_start n s)"
  by (simp add: clock_inv_def clock_start_def timer_start_def timespec_ns_def algebra_simps)

lemma clock_inv_main:
  assumes "clock_inv c" "event_ok lsock ev (cs c)" "handle_event lsock ev (cs c) = Inr s'"
  shows "clock_inv (after_main c s')"
proof -
  have "sched_inv s'" using sched_step_refines assms by (auto simp: clock_inv_def)
  moreover have "ticked (cs c) s'" by (rule post_D [OF handle_event_ticked assms(3)])
  ultimately show ?thesis
    using assms(1) by (auto simp: clock_inv_def after_main_def ticked_def tctl_def)
qed

lemma timer_wake_arms:
  assumes "timer_wake r n (s, t) = Inr (s', t')"
  shows "if r = 0 \<and> \<not> must_reset_timer s then s' = s \<and> t' = t
    else round_at_start t' = scheduling_round s' \<and> timer_end_ts t' = n\<lparr>tv_sec := tv_sec n + tq s'\<rparr>
      \<and> \<not> must_reset_timer s' \<and> (drop_lock_sent t' \<longrightarrow> drop_lock_sent t \<or> fires r s t)"
  using assms
  by (auto simp: timer_wake_def bindR_Inr_iff timer_arm_def fires_def split: if_splits list.splits)

lemma clock_inv_wake:
  assumes inv: "clock_inv c" and run: "timer_wake r (now c) (cs c, ct c) = Inr (s', t')"
  shows "clock_inv (after_wake r c s' t')"
proof -
  have w: "sched_inv s' \<and> woken r (cs c) (ct c) s' t'"
    using wp_D [OF wp_timer_wake run] inv by (auto simp: clock_inv_def)
  note a = timer_wake_arms [OF run]
  have fin: "timespec_ns ((now c)\<lparr>tv_sec := tv_sec (now c) + tq s'\<rparr>) = timespec_ns (now c) + tq s' * 10 ^ 9"
    by (simp add: timespec_ns_def algebra_simps)
  show ?thesis
  proof (cases "r = 0 \<and> \<not> must_reset_timer (cs c)")
    case True
    with a inv show ?thesis by (simp add: clock_inv_def after_wake_def)
  next
    case False
    have "drops c = 0" if "fires r (cs c) (ct c)" using inv that by (auto simp: clock_inv_def fires_def le_Suc_eq)
    with False a w fin inv show ?thesis by (auto simp: clock_inv_def after_wake_def)
  qed
qed

definition clock_reach :: "timespec \<Rightarrow> sched \<Rightarrow> clocked \<Rightarrow> bool" where
  "clock_reach n s c \<longleftrightarrow> clock_step\<^sup>*\<^sup>* (clock_start n s) c"

lemma clock_inv_step: "clock_step c d \<Longrightarrow> clock_inv c \<Longrightarrow> clock_inv d"
proof (induction rule: clock_step.induct)
  case (pass c n)
  then show ?case by (simp add: clock_inv_def)
qed (blast intro: clock_inv_main clock_inv_wake)+

lemma clock_inv_reach: "clock_reach n s c \<Longrightarrow> sched_inv s \<Longrightarrow> clock_inv c"
  unfolding clock_reach_def
  by (induction rule: rtranclp_induct) (auto intro: clock_inv_start clock_inv_step)

section \<open>Properties of the time quantum\<close>




text \<open>
  Only once. In every configuration the two threads can reach, the timer has sent at most one
  DROP_LOCK since it was last restarted (by a grant, a change of the time quantum, or the loss of the holder),
  and it remembers that it has.
\<close>

theorem drop_lock_only_once:
  assumes "clock_reach n s c" "sched_inv s"
  shows "drops c \<le> 1 \<and> (drops c = 1 \<longrightarrow> drop_lock_sent (ct c))"
  using clock_inv_reach [OF assms] by (simp add: clock_inv_def)

text \<open>Client 1 holds the lock and has just been granted it when the timer is armed; 31 seconds later the wait times out.\<close>

definition ex_clock :: "sysret list \<Rightarrow> clocked" where
  "ex_clock as = (clock_start \<lparr>tv_sec = 100, tv_nsec = 0\<rparr> (ex_sched as))\<lparr>now := \<lparr>tv_sec = 131, tv_nsec = 0\<rparr>\<rparr>"

lemma ex_clock_reach: "clock_reach \<lparr>tv_sec = 100, tv_nsec = 0\<rparr> (ex_sched as) (ex_clock as)"
  unfolding clock_reach_def ex_clock_def
  by (rule r_into_rtranclp, rule pass) (simp add: clock_start_def timespec_ns_def)

lemma ex_clock_wakes:
  "\<exists>s' t'. timer_wake ETIMEDOUT (now (ex_clock [taken])) (cs (ex_clock [taken]), ct (ex_clock [taken])) = Inr (s', t') \<and> drop_lock_sent t'"
  by (simp add: ex_clock_def clock_start_def timer_start_def timer_arm_def timer_wake_def ex_simps)

lemma ex_clock_fires: "fires ETIMEDOUT (cs (ex_clock as)) (ct (ex_clock as))"
  by (simp add: ex_clock_def clock_start_def timer_start_def timer_arm_def fires_def ex_sched_def)

lemma ex_clock_due:
  "timespec_ns (timer_end_ts (ct (ex_clock as))) \<le> timespec_ns (now (ex_clock as))" "grants (ex_clock as) < 2 ^ 32"
  by (simp_all add: ex_clock_def clock_start_def timer_start_def timer_arm_def timespec_ns_def ex_sched_def NVSHARE_DEFAULT_TQ_def)



theorem drop_lock_only_once_witness:
  "\<exists>c. clock_reach \<lparr>tv_sec = 100, tv_nsec = 0\<rparr> (ex_sched [taken]) c \<and> drops c = 1 \<and> drop_lock_sent (ct c)"
proof -
  let ?c = "ex_clock [taken]"
  obtain s' t' where w: "timer_wake ETIMEDOUT (now ?c) (cs ?c, ct ?c) = Inr (s', t')" "drop_lock_sent t'"
    using ex_clock_wakes by blast
  let ?d = "after_wake ETIMEDOUT ?c s' t'"
  have "clock_step ?c ?d" by (rule wake [OF _ w(1)]) (simp add: ex_clock_due)
  with ex_clock_reach [of "[taken]"] have reach: "clock_reach \<lparr>tv_sec = 100, tv_nsec = 0\<rparr> (ex_sched [taken]) ?d"
    by (simp add: clock_reach_def)
  have "drops ?d = 1" using w(2) ex_clock_fires [of "[taken]"] by (simp add: after_wake_def, simp add: ex_clock_def clock_start_def)
  with drop_lock_only_once [OF reach ex_inv(2)] reach show ?thesis by blast
qed

section \<open>A lost reset\<close>

fun timer_wakes :: "(int \<times> timespec) list \<Rightarrow> sched \<times> timer \<Rightarrow> (sched \<times> timer) res" where
  "timer_wakes [] st = Inr st"
| "timer_wakes ((r, n) # ws) st = bindR (timer_wake r n st) (timer_wakes ws)"

lemma timer_wakes_deaf:
  assumes "drop_lock_sent t" "\<not> must_reset_timer s" "\<forall>(r, n) \<in> set ws. r = ETIMEDOUT \<or> r = 0"
  shows "\<exists>t'. timer_wakes ws (s, t) = Inr (s, t') \<and> drop_lock_sent t'"
  using assms
proof (induction ws arbitrary: t)
  case (Cons w ws)
  obtain r n where w: "w = (r, n)" by (cases w)
  have s: "s\<lparr>must_reset_timer := False\<rparr> = s" using Cons.prems(2) by (cases s) simp
  have "\<exists>t1. timer_wake r n (s, t) = Inr (s, t1) \<and> drop_lock_sent t1"
    using Cons.prems w s by (cases "lock_held s"; cases "r = 0") (simp_all add: timer_wake_def timer_arm_def)
  with Cons w show ?case by auto
qed simp

text \<open>
  C38: a wait that times out can swallow the reset. The timer has told the previous holder to drop
  the lock; the lock has since been granted to another client, which has set
  \<open>must_reset_timer\<close>, but the wait returns \<open>ETIMEDOUT\<close>. Then \<open>drop_lock_sent\<close> is examined before the round
  number is, so it stays set while \<open>must_reset_timer\<close> is cleared: however often the wait
  returns after that, no DROP_LOCK is sent to the new holder.
\<close>

theorem timer_loses_reset:
  assumes "drop_lock_sent t" "lock_held s" "round_at_start t \<noteq> scheduling_round s" "must_reset_timer s"
    and "\<forall>(r, n) \<in> set ws. r = ETIMEDOUT \<or> r = 0"
  shows "\<exists>t'. timer_wakes ((ETIMEDOUT, n) # ws) (s, t) = Inr (s\<lparr>must_reset_timer := False\<rparr>, t')"
proof -
  obtain t1 where "timer_wake ETIMEDOUT n (s, t) = Inr (s\<lparr>must_reset_timer := False\<rparr>, t1)" "drop_lock_sent t1"
    using assms(1,2) by (simp add: timer_wake_def timer_arm_def)
  with timer_wakes_deaf [of t1 "s\<lparr>must_reset_timer := False\<rparr>" ws] assms(5) show ?thesis by auto
qed

theorem timer_loses_reset_witness:
  "\<exists>t'. timer_wakes [(ETIMEDOUT, \<lparr>tv_sec = 50, tv_nsec = 0\<rparr>), (ETIMEDOUT, \<lparr>tv_sec = 90, tv_nsec = 0\<rparr>)]
     ((ex_sched [])\<lparr>must_reset_timer := True\<rparr>, \<lparr>round_at_start = 5, timer_end_ts = \<lparr>tv_sec = 50, tv_nsec = 0\<rparr>, drop_lock_sent = True\<rparr>)
     = Inr ((ex_sched [])\<lparr>must_reset_timer := False\<rparr>, t')"
  using timer_loses_reset [of "\<lparr>round_at_start = 5, timer_end_ts = \<lparr>tv_sec = 50, tv_nsec = 0\<rparr>, drop_lock_sent = True\<rparr>"
      "(ex_sched [])\<lparr>must_reset_timer := True\<rparr>" "[(ETIMEDOUT, \<lparr>tv_sec = 90, tv_nsec = 0\<rparr>)]" "\<lparr>tv_sec = 50, tv_nsec = 0\<rparr>"]
  by (simp add: ex_sched_def sched_globals_def)

end
