(* ===== verification/Client.thy ===== *)
theory Client
  imports Comm
begin

text \<open>
  The nvshare client, \<open>src/src/client.c\<close>: the code that runs inside every CUDA application. Three kinds
  of threads share one mutex: application threads, which pass through \<open>continue_with_lock\<close> before each
  piece of GPU work; the client thread, which talks to the scheduler; and the thread that
  releases the lock early. Each runs atomically between the points where it gives up the mutex (a
  wait on a condition variable, or the end of the critical section), and the model has one function for each such stretch.

  The CUDA driver and NVML are not part of the repository. Their functions are calls to an
  environment, \<open>cuda\<close>: a list of arbitrary answers, and a log of the calls made. Calls of pthread
  functions and semaphores succeed; waking the waiters of a condition variable is counted.
\<close>

section \<open>The CUDA driver and NVML as seen from outside\<close>

datatype cuda_call =
    Cu_Init "32 word"
  | Cu_CtxGetCurrent
  | Cu_CtxSetCurrent "64 word"
  | Cu_CtxSynchronize
  | Cu_GetErrorString int
  | Cu_GetErrorName int
  | Cu_MemAllocManaged "64 word" nat
  | Cu_MemFree "64 word"
  | Cu_MemGetInfo
  | Cu_LaunchKernel "64 word" "32 word list" "64 word list"
  | Cu_Memcpy "char list" "64 word" "64 word" "64 word" "64 word option"
  | Cu_GetProcAddress "char list" "char list" int "64 word"
  | Nvml_Init
  | Nvml_DeviceGetHandleByIndex nat
  | Nvml_DeviceGetUtilizationRates

text \<open>An answer: the result code and up to two values stored through pointer arguments.\<close>

record cuda_ret =
  cu_result :: int
  cu_val :: "64 word"
  cu_val2 :: "64 word"

record cuda =
  cu_answers :: "cuda_ret list"
  cu_calls :: "(cuda_call \<times> cuda_ret) list"

definition CUDA_SUCCESS :: int where "CUDA_SUCCESS = 0"
definition NVML_SUCCESS :: int where "NVML_SUCCESS = 0"

definition cuda_sys :: "cuda_call \<Rightarrow> cuda \<Rightarrow> (cuda_ret \<times> cuda) res" where
  "cuda_sys c d =
     (case cu_answers d of
        [] \<Rightarrow> Inl Blocked
      | a # as \<Rightarrow> Inr (a, d\<lparr>cu_answers := as, cu_calls := cu_calls d @ [(c, a)]\<rparr>))"

text \<open>\<open>cuda_driver_check_error\<close> of \<open>src/src/hook.c\<close>: an error is looked up and logged, no more.\<close>

definition cuda_driver_check_error :: "int \<Rightarrow> cuda \<Rightarrow> cuda res" where
  "cuda_driver_check_error e d =
     (if e \<noteq> CUDA_SUCCESS
      then bindR (cuda_sys (Cu_GetErrorString e) d) (\<lambda>(_, d).
           bindR (cuda_sys (Cu_GetErrorName e) d) (\<lambda>(_, d). Inr d))
      else Inr d)"

section \<open>State\<close>

record app =
  a_scheduler_on :: bool
  a_own_lock :: bool
  a_need_lock :: bool
  a_did_work :: bool
  a_client_id :: "64 word"
  a_rsock :: int
  a_cuda_ctx :: "64 word"
  a_cuda_ctx_ok :: bool
  a_req_lock_msg :: message
  a_out_msg :: message
  a_pending_kernel_window :: int
  a_nvml_ok :: bool
  a_kern :: kernel
  a_cuda :: cuda
  a_own_signals :: nat
  a_early_signals :: nat

definition cuda_call :: "cuda_call \<Rightarrow> app \<Rightarrow> (cuda_ret \<times> app) res" where
  "cuda_call c s = bindR (cuda_sys c (a_cuda s)) (\<lambda>(a, d). Inr (a, s\<lparr>a_cuda := d\<rparr>))"

definition check_error :: "int \<Rightarrow> app \<Rightarrow> app res" where
  "check_error e s = bindR (cuda_driver_check_error e (a_cuda s)) (\<lambda>d. Inr (s\<lparr>a_cuda := d\<rparr>))"

text \<open>\<open>true_or_exit(write_whole(rsock, &msg, sizeof(msg)) == sizeof(msg))\<close>\<close>

definition send_whole :: "message \<Rightarrow> app \<Rightarrow> app res" where
  "send_whole m s =
     bindR (write_whole (a_rsock s) (encode_message m) (a_kern s)) (\<lambda>(n, k).
       if n = int sizeof_message then Inr (s\<lparr>a_kern := k\<rparr>) else Inl Exit)"

text \<open>\<open>true_or_exit(nvshare_receive_block(rsock, &in_msg, sizeof(in_msg)) == sizeof(in_msg))\<close>\<close>

definition receive_whole :: "app \<Rightarrow> (message \<times> app) res" where
  "receive_whole s =
     bindR (nvshare_receive_block (a_rsock s) sizeof_message (a_kern s)) (\<lambda>(n, buf, k).
       if n = int sizeof_message then Inr (decode_message buf, s\<lparr>a_kern := k\<rparr>) else Inl Exit)"

section \<open>Application threads\<close>

definition cuda_sync_context :: "app \<Rightarrow> app res" where
  "cuda_sync_context s =
     bindR (cuda_call (Cu_CtxSetCurrent (a_cuda_ctx s)) (s\<lparr>a_pending_kernel_window := 1\<rparr>)) (\<lambda>(a, s).
     bindR (check_error (cu_result a) s) (\<lambda>s.
     bindR (cuda_call Cu_CtxSynchronize s) (\<lambda>(a, s).
       check_error (cu_result a) s)))"

text \<open>
  \<open>continue_with_lock\<close> from its start, or from the return of \<open>pthread_cond_wait\<close>, to its end (result
  \<open>True\<close>) or to the next \<open>pthread_cond_wait\<close> (\<open>False\<close>).
\<close>

definition get_context :: "app \<Rightarrow> app res" where
  "get_context s =
     (if a_cuda_ctx_ok s then Inr s
      else bindR (cuda_call Cu_CtxGetCurrent s) (\<lambda>(a, s).
        let s = s\<lparr>a_cuda_ctx := cu_val a\<rparr> in
        bindR (check_error (cu_result a) s) (\<lambda>s.
          if cu_result a \<noteq> CUDA_SUCCESS then Inl Exit else Inr (s\<lparr>a_cuda_ctx_ok := True\<rparr>))))"

definition cwl_resume :: "app \<Rightarrow> (bool \<times> app) res" where
  "cwl_resume s =
     (if a_own_lock s
      then Inr (True, s\<lparr>a_did_work := True, a_early_signals := a_early_signals s + 1\<rparr>)
      else if \<not> a_need_lock s
      then bindR (send_whole (a_req_lock_msg s) (s\<lparr>a_need_lock := True\<rparr>)) (\<lambda>s. Inr (False, s))
      else Inr (False, s))"

definition continue_with_lock :: "app \<Rightarrow> (bool \<times> app) res" where
  "continue_with_lock s = bindR (get_context s) cwl_resume"

section \<open>The client thread\<close>

text \<open>
  What start-up finds in the process environment: \<open>KUBERNETES_SERVICE_HOST\<close> is set, the value of \<open>HOSTNAME\<close>, and the contents of the
  namespace file if it can be opened.
\<close>

record penv =
  kubernetes :: bool
  hostname :: "char list option"
  ns_file :: "char list option"

text \<open>\<open>fgets\<close>: nothing at the end of the file; otherwise one line, with its newline if it fits.\<close>

definition fgets :: "char list \<Rightarrow> nat \<Rightarrow> char list \<Rightarrow> char list option" where
  "fgets buf siz txt =
     (let line = take (siz - 1) (takeWhile (\<lambda>c. c \<noteq> CHR 0x0A) txt @ take 1 (dropWhile (\<lambda>c. c \<noteq> CHR 0x0A) txt)) in
      if txt = [] then None else Some (line @ NUL # drop (length line + 1) buf))"

definition read_pod_name :: "char list \<Rightarrow> nat \<Rightarrow> penv \<Rightarrow> char list res" where
  "read_pod_name pod_name siz e =
     (case hostname e of
        Some v \<Rightarrow> bindR (strlcpy pod_name (v @ [NUL]) siz) (\<lambda>(b, _). Inr b)
      | None \<Rightarrow> bindR (strlcpy pod_name (''none'' @ [NUL]) siz) (\<lambda>(b, _). Inr b))"

definition read_pod_namespace :: "char list \<Rightarrow> nat \<Rightarrow> penv \<Rightarrow> char list res" where
  "read_pod_namespace pod_namespace siz e =
     (case ns_file e of
        None \<Rightarrow> bindR (strlcpy pod_namespace (''none'' @ [NUL]) siz) (\<lambda>(b, _). Inr b)
      | Some txt \<Rightarrow>
          (case fgets pod_namespace siz txt of
             Some b \<Rightarrow> Inr b
           | None \<Rightarrow> bindR (strlcpy pod_namespace (''none'' @ [NUL]) siz) (\<lambda>(b, _). Inr b)))"

definition pod_names :: "penv \<Rightarrow> message \<Rightarrow> message res" where
  "pod_names e m =
     (if kubernetes e
      then bindR (read_pod_namespace (m_pod_namespace m) POD_NAMESPACE_LEN_MAX e) (\<lambda>ns.
           bindR (read_pod_name (m_pod_name m) POD_NAME_LEN_MAX e) (\<lambda>pn.
             Inr (m\<lparr>m_pod_namespace := ns, m_pod_name := pn\<rparr>)))
      else bindR (strlcpy (m_pod_namespace m) (''none'' @ [NUL]) POD_NAMESPACE_LEN_MAX) (\<lambda>(ns, _).
           bindR (strlcpy (m_pod_name m) (''none'' @ [NUL]) POD_NAME_LEN_MAX) (\<lambda>(pn, _).
             Inr (m\<lparr>m_pod_namespace := ns, m_pod_name := pn\<rparr>))))"

text \<open>The initial status: the ID in the data, as \<open>sscanf\<close> reads it, and the flags.\<close>

definition initial_status :: "message \<Rightarrow> app \<Rightarrow> app res" where
  "initial_status m s =
     (case message_type_of (m_type m) of
        Some SCHED_ON \<Rightarrow>
          (if NUL \<notin> set (m_data m) then Inl OutOfBounds
           else case sscanf_lx (cstr (m_data m)) of
             None \<Rightarrow> Inl Exit
           | Some i \<Rightarrow> Inr (s\<lparr>a_client_id := i, a_scheduler_on := True, a_own_lock := False, a_need_lock := False\<rparr>))
      | Some SCHED_OFF \<Rightarrow>
          (if NUL \<notin> set (m_data m) then Inl OutOfBounds
           else case sscanf_lx (cstr (m_data m)) of
             None \<Rightarrow> Inl Exit
           | Some i \<Rightarrow> Inr (s\<lparr>a_client_id := i, a_scheduler_on := False, a_own_lock := True, a_need_lock := False\<rparr>))
      | _ \<Rightarrow> Inl Exit)"

definition client_ready :: "message \<Rightarrow> app \<Rightarrow> app res" where
  "client_ready m s =
     bindR (initial_status m s) (\<lambda>s. Inr (s\<lparr>a_out_msg := zero_message\<lparr>m_id := a_client_id s\<rparr>\<rparr>))"

text \<open>\<open>client_fn\<close> up to \<open>sem_post\<close>.\<close>

definition client_start :: "penv \<Rightarrow> char list \<Rightarrow> app \<Rightarrow> app res" where
  "client_start e nvscheduler_socket_path s =
     bindR (cuda_call (Cu_Init 0) s) (\<lambda>(a, s).
     bindR (check_error (cu_result a) s) (\<lambda>s.
       if cu_result a \<noteq> CUDA_SUCCESS then Inl Exit
       else
         bindR (pod_names e (zero_message\<lparr>m_id := 1234\<rparr>)) (\<lambda>m.
         bindR (nvshare_get_scheduler_path nvscheduler_socket_path) (\<lambda>(r, path).
           if r \<noteq> 0 then Inl Exit
           else
             bindR (nvshare_connect path (a_kern s)) (\<lambda>(r, sock, _, k).
               if r \<noteq> 0 then Inl Exit
               else
                 bindR (send_whole (m\<lparr>m_type := message_type_code REGISTER\<rparr>) (s\<lparr>a_rsock := sock, a_kern := k\<rparr>)) (\<lambda>s.
                 bindR (receive_whole s) (\<lambda>(in_msg, s). client_ready in_msg s)))))))"

text \<open>\<open>initialize_client\<close>: the client thread runs until it has the initial status.\<close>

definition initialize_client :: "penv \<Rightarrow> char list \<Rightarrow> app \<Rightarrow> app res" where
  "initialize_client e path s =
     bindR (client_start e path (s\<lparr>a_scheduler_on := False, a_cuda_ctx := 0, a_own_lock := False, a_need_lock := False\<rparr>)) (\<lambda>s.
       Inr (s\<lparr>a_req_lock_msg := zero_message\<lparr>m_type := message_type_code REQ_LOCK, m_id := a_client_id s\<rparr>\<rparr>))"

text \<open>The body of the \<open>switch\<close> in the loop of \<open>client_fn\<close>.\<close>

definition client_handle :: "message \<Rightarrow> app \<Rightarrow> app res" where
  "client_handle in_msg s =
     (case message_type_of (m_type in_msg) of
        Some LOCK_OK \<Rightarrow>
          Inr (s\<lparr>a_need_lock := False, a_own_lock := True, a_did_work := True,
            a_own_signals := a_own_signals s + 1, a_early_signals := a_early_signals s + 1\<rparr>)
      | Some DROP_LOCK \<Rightarrow>
          (if a_own_lock s
           then bindR (cuda_sync_context (s\<lparr>a_own_lock := False\<rparr>)) (\<lambda>s.
             let s = s\<lparr>a_out_msg := (a_out_msg s)\<lparr>m_type := message_type_code LOCK_RELEASED\<rparr>\<rparr> in
             send_whole (a_out_msg s) s)
           else Inr s)
      | Some SCHED_ON \<Rightarrow>
          Inr (if \<not> a_scheduler_on s
               then s\<lparr>a_scheduler_on := True, a_need_lock := False, a_own_lock := False\<rparr> else s)
      | Some SCHED_OFF \<Rightarrow>
          Inr (if a_scheduler_on s
               then s\<lparr>a_scheduler_on := False, a_own_lock := True, a_need_lock := False,
                 a_own_signals := a_own_signals s + 1\<rparr> else s)
      | _ \<Rightarrow> Inr s)"

definition client_msg :: "app \<Rightarrow> app res" where
  "client_msg s = bindR (receive_whole s) (\<lambda>(in_msg, s). client_handle in_msg s)"

section \<open>The early-release thread\<close>

definition release_early_check_interval :: int where "release_early_check_interval = 5"

definition nvml_init :: "app \<Rightarrow> app res" where
  "nvml_init s =
     (if a_nvml_ok s then
        bindR (cuda_call Nvml_Init s) (\<lambda>(a, s).
          if cu_result a \<noteq> NVML_SUCCESS then Inr (s\<lparr>a_nvml_ok := False\<rparr>)
          else bindR (cuda_call (Nvml_DeviceGetHandleByIndex 0) s) (\<lambda>(a, s).
            Inr (if cu_result a \<noteq> NVML_SUCCESS then s\<lparr>a_nvml_ok := False\<rparr> else s)))
      else Inr s)"

text \<open>The head of the loop: the interval starts at \<open>now\<close>; the result has the end of the wait.\<close>

definition release_arm :: "timespec \<Rightarrow> app \<Rightarrow> app \<times> timespec" where
  "release_arm now s = (s\<lparr>a_did_work := False\<rparr>, now\<lparr>tv_sec := tv_sec now + release_early_check_interval\<rparr>)"

definition elapsed_ms :: "timespec \<Rightarrow> 32 word" where
  "elapsed_ms d = of_int (tv_sec d) * 1000 + of_int (tv_nsec d div 1000000)"

definition release_message :: "app \<Rightarrow> message" where
  "release_message s = zero_message\<lparr>m_type := message_type_code LOCK_RELEASED, m_id := a_client_id s\<rparr>"

text \<open>
  Is the GPU busy? With NVML, the utilization decides (a failing query counts as busy, once);
  without, the time a synchronization takes, measured by the clock readings \<open>t0\<close> and \<open>t1\<close>.
\<close>

definition gpu_busy :: "timespec \<Rightarrow> timespec \<Rightarrow> app \<Rightarrow> (bool \<times> app) res" where
  "gpu_busy t0 t1 s =
     (if a_nvml_ok s then
        bindR (cuda_call Nvml_DeviceGetUtilizationRates s) (\<lambda>(a, s).
          if cu_result a \<noteq> NVML_SUCCESS then Inr (True, s\<lparr>a_nvml_ok := False\<rparr>)
          else Inr (0 < (ucast (cu_val a) :: 32 word), s))
      else bindR (cuda_sync_context s) (\<lambda>s. Inr (100 \<le> elapsed_ms (timespecsub t1 t0), s)))"

definition release_wake :: "int \<Rightarrow> timespec \<Rightarrow> timespec \<Rightarrow> timespec \<Rightarrow> app \<times> timespec \<Rightarrow> (app \<times> timespec) res" where
  "release_wake r t0 t1 now = (\<lambda>(s, timer_end).
     if r = ETIMEDOUT then
       (if \<not> a_scheduler_on s \<or> \<not> a_own_lock s then Inr (release_arm now s)
        else if a_did_work s then Inr (release_arm now s)
        else bindR (gpu_busy t0 t1 s) (\<lambda>(busy, s).
          if busy then Inr (release_arm now s)
          else bindR (send_whole (release_message s) s) (\<lambda>s.
            Inr (release_arm now (s\<lparr>a_own_lock := False\<rparr>)))))
     else if r \<noteq> 0 then Inl Exit
     else if a_did_work s then Inr (release_arm now s)
     else Inr (s, timer_end))"

end
