(* ===== verification/Client_Props.thy ===== *)
theory Client_Props
  imports Client
begin

text \<open>
  The properties of the client. \<open>lc\<close> is the client as the protocol sees it: does it own the
  lock, and has it asked for it. Every stretch of code of the three kinds of threads is a step of
  \<open>lc\<close> that sends the messages \<open>lc\<close> sends, as long as the scheduler stays on.
\<close>

section \<open>Frames\<close>

text \<open>\<open>t\<close> is \<open>s\<close> after the messages \<open>ms\<close> have been written to the scheduler.\<close>

definition wrote :: "message list \<Rightarrow> app \<Rightarrow> app \<Rightarrow> bool" where
  "wrote ms s t \<longleftrightarrow> a_rsock t = a_rsock s \<and>
     sent_to (a_rsock s) (a_kern t) = sent_to (a_rsock s) (a_kern s) @ concat (map encode_message ms)"

definition flags :: "app \<Rightarrow> bool \<times> bool \<times> bool \<times> 64 word \<times> message \<times> message" where
  "flags s = (a_scheduler_on s, a_own_lock s, a_need_lock s, a_client_id s, a_req_lock_msg s, a_out_msg s)"

lemma wrote_Nil: "a_rsock t = a_rsock s \<Longrightarrow> a_kern t = a_kern s \<Longrightarrow> wrote [] s t"
  by (simp add: wrote_def)

lemma wrote_upd [simp]:
  "wrote ms s (t\<lparr>a_own_lock := b\<rparr>) = wrote ms s t" "wrote ms s (t\<lparr>a_did_work := b\<rparr>) = wrote ms s t"
  "wrote ms s (t\<lparr>a_out_msg := m\<rparr>) = wrote ms s t" "wrote ms s (t\<lparr>a_need_lock := b\<rparr>) = wrote ms s t"
  "wrote ms s (t\<lparr>a_early_signals := i\<rparr>) = wrote ms s t"
  by (simp_all add: wrote_def)

lemma send_whole_post:
  assumes "message_ok m"
  shows "post (send_whole m s) (\<lambda>t. \<exists>k. t = s\<lparr>a_kern := k\<rparr> \<and> wrote [m] s t)"
proof (rule post_I)
  fix t assume "send_whole m s = Inr t"
  then obtain k where w: "write_whole (a_rsock s) (encode_message m) (a_kern s) = Inr (int sizeof_message, k)"
    and t: "t = s\<lparr>a_kern := k\<rparr>"
    by (auto simp: send_whole_def bindR_Inr_iff split: if_splits)
  show "\<exists>k. t = s\<lparr>a_kern := k\<rparr> \<and> wrote [m] s t"
    using write_whole_transmits [OF w] assms t by (auto simp: wrote_def)
qed

lemma post_cuda_sys [post]:
  "post (cuda_sys c d) P =
     (\<forall>a as. cu_answers d = a # as \<longrightarrow> P (a, d\<lparr>cu_answers := as, cu_calls := cu_calls d @ [(c, a)]\<rparr>))"
  by (auto simp: cuda_sys_def post_def split: list.splits)

lemma wp_cuda_sys [wp]:
  "wp (cuda_sys c d) P =
     (\<forall>a as. cu_answers d = a # as \<longrightarrow> P (a, d\<lparr>cu_answers := as, cu_calls := cu_calls d @ [(c, a)]\<rparr>))"
  by (auto simp: cuda_sys_def wp_def split: list.splits)

lemmas cuda_defs = cuda_call_def check_error_def cuda_driver_check_error_def

text \<open>The CUDA calls made between two states.\<close>

definition cuda_made :: "app \<Rightarrow> app \<Rightarrow> cuda_call list" where
  "cuda_made s t = map fst (drop (length (cu_calls (a_cuda s))) (cu_calls (a_cuda t)))"

lemma cuda_sync_context_post:
  "post (cuda_sync_context s) (\<lambda>t. \<exists>d. t = s\<lparr>a_pending_kernel_window := 1, a_cuda := d\<rparr>
     \<and> (\<exists>es. cuda_made s t = Cu_CtxSetCurrent (a_cuda_ctx s) # es \<and> Cu_CtxSynchronize \<in> set es))"
  by (auto simp: cuda_sync_context_def cuda_defs cuda_made_def post)

lemma get_context_post:
  "post (get_context s) (\<lambda>t. flags t = flags s \<and> wrote [] s t \<and> a_cuda_ctx_ok t)"
  by (auto simp: get_context_def cuda_defs post Let_def flags_def intro: wrote_Nil)

section \<open>The client as the protocol sees it\<close>

record lc =
  lc_on :: bool
  lc_own :: bool
  lc_need :: bool

datatype lc_out = Req | Rel

definition lc_want :: "lc \<Rightarrow> lc \<times> lc_out list" where
  "lc_want c = (if lc_own c \<or> lc_need c then (c, []) else (c\<lparr>lc_need := True\<rparr>, [Req]))"

definition lc_recv :: "message_type option \<Rightarrow> lc \<Rightarrow> lc \<times> lc_out list" where
  "lc_recv m c =
     (case m of
        Some LOCK_OK \<Rightarrow> (c\<lparr>lc_own := True, lc_need := False\<rparr>, [])
      | Some DROP_LOCK \<Rightarrow> if lc_own c then (c\<lparr>lc_own := False\<rparr>, [Rel]) else (c, [])
      | Some SCHED_ON \<Rightarrow> (if lc_on c then c else \<lparr>lc_on = True, lc_own = False, lc_need = False\<rparr>, [])
      | Some SCHED_OFF \<Rightarrow> (if lc_on c then \<lparr>lc_on = False, lc_own = True, lc_need = False\<rparr> else c, [])
      | _ \<Rightarrow> (c, []))"

definition lc_early :: "lc \<Rightarrow> lc \<times> lc_out list" where
  "lc_early c = (if lc_on c \<and> lc_own c then (c\<lparr>lc_own := False\<rparr>, [Rel]) else (c, []))"

definition lc_abs :: "app \<Rightarrow> lc" where
  "lc_abs s = \<lparr>lc_on = a_scheduler_on s, lc_own = a_own_lock s, lc_need = a_need_lock s\<rparr>"

definition wire :: "app \<Rightarrow> lc_out \<Rightarrow> message" where
  "wire s x = (case x of
     Req \<Rightarrow> zero_message\<lparr>m_type := message_type_code REQ_LOCK, m_id := a_client_id s\<rparr>
   | Rel \<Rightarrow> zero_message\<lparr>m_type := message_type_code LOCK_RELEASED, m_id := a_client_id s\<rparr>)"

definition app_ok :: "app \<Rightarrow> bool" where
  "app_ok s \<longleftrightarrow> \<not> (a_own_lock s \<and> a_need_lock s)
     \<and> a_req_lock_msg s = zero_message\<lparr>m_type := message_type_code REQ_LOCK, m_id := a_client_id s\<rparr>
     \<and> (a_out_msg s)\<lparr>m_type := 0\<rparr> = zero_message\<lparr>m_id := a_client_id s\<rparr>"

lemma app_ok_out:
  assumes "app_ok s"
  shows "(a_out_msg s)\<lparr>m_type := message_type_code LOCK_RELEASED\<rparr> = wire s Rel"
proof -
  have "((a_out_msg s)\<lparr>m_type := 0\<rparr>)\<lparr>m_type := message_type_code LOCK_RELEASED\<rparr>
      = (zero_message\<lparr>m_id := a_client_id s\<rparr>)\<lparr>m_type := message_type_code LOCK_RELEASED\<rparr>"
    using assms by (simp only: app_ok_def)
  then show ?thesis by (simp add: wire_def zero_message_def)
qed

lemma wire_ok [simp]: "message_ok (wire s x)"
  by (cases x) (simp_all add: wire_def)

text \<open>What a stretch of code does, in terms of \<open>lc\<close>.\<close>

definition acts :: "(lc \<Rightarrow> lc \<times> lc_out list) \<Rightarrow> app \<Rightarrow> app \<Rightarrow> bool" where
  "acts f s t \<longleftrightarrow> app_ok t \<and> a_client_id t = a_client_id s \<and> lc_abs t = fst (f (lc_abs s))
     \<and> wrote (map (wire s) (snd (f (lc_abs s)))) s t"

lemma cwl_resume_acts:
  assumes "app_ok s"
  shows "post (cwl_resume s) (\<lambda>(fin, t). acts lc_want s t \<and> fin = a_own_lock s)"
proof -
  have req: "message_ok (a_req_lock_msg s)" "a_req_lock_msg s = wire s Req"
    using assms by (simp_all add: app_ok_def wire_def)
  have w: "wrote ms (s\<lparr>a_need_lock := b\<rparr>) t = wrote ms s t" for ms b t by (simp add: wrote_def)
  show ?thesis
    using assms req
    by (auto simp: cwl_resume_def post acts_def lc_want_def lc_abs_def app_ok_def w
        intro!: post_mono [OF send_whole_post] wrote_Nil)
qed

lemma continue_with_lock_acts:
  assumes "app_ok s"
  shows "post (continue_with_lock s) (\<lambda>(fin, t). acts lc_want s t \<and> fin = a_own_lock s)"
  unfolding continue_with_lock_def post
proof (rule post_mono [OF get_context_post])
  fix u assume u: "flags u = flags s \<and> wrote [] s u \<and> a_cuda_ctx_ok u"
  then have "app_ok u" using assms by (simp add: app_ok_def flags_def)
  then have "post (cwl_resume u) (\<lambda>(fin, t). acts lc_want u t \<and> fin = a_own_lock u)" by (rule cwl_resume_acts)
  then show "post (cwl_resume u) (\<lambda>(fin, t). acts lc_want s t \<and> fin = a_own_lock s)"
    by (rule post_mono) (use u in \<open>auto simp: acts_def flags_def lc_abs_def wrote_def wire_def [abs_def]\<close>)
qed

lemma client_handle_drop:
  assumes "app_ok s" "a_own_lock s" "message_type_of (m_type m) = Some DROP_LOCK"
  shows "post (client_handle m s) (\<lambda>t. acts (lc_recv (Some DROP_LOCK)) s t
    \<and> (\<exists>es. cuda_made s t = Cu_CtxSetCurrent (a_cuda_ctx s) # es \<and> Cu_CtxSynchronize \<in> set es))"
proof -
  let ?Q = "\<lambda>t. acts (lc_recv (Some DROP_LOCK)) s t
    \<and> (\<exists>es. cuda_made s t = Cu_CtxSetCurrent (a_cuda_ctx s) # es \<and> Cu_CtxSynchronize \<in> set es)"
  have "post (send_whole (wire s Rel) (u\<lparr>a_out_msg := wire s Rel\<rparr>)) ?Q"
    if u: "u = s\<lparr>a_own_lock := False, a_pending_kernel_window := 1, a_cuda := d\<rparr>"
      and es: "\<exists>es. cuda_made s u = Cu_CtxSetCurrent (a_cuda_ctx s) # es \<and> Cu_CtxSynchronize \<in> set es" for u d
  proof (rule post_mono [OF send_whole_post [OF wire_ok]], elim exE conjE)
    fix x k assume x: "x = u\<lparr>a_out_msg := wire s Rel\<rparr>\<lparr>a_kern := k\<rparr>" "wrote [wire s Rel] (u\<lparr>a_out_msg := wire s Rel\<rparr>) x"
    have "(wire s Rel)\<lparr>m_type := 0\<rparr> = zero_message\<lparr>m_id := a_client_id s\<rparr>" by (simp add: wire_def zero_message_def)
    with assms(1,2) x u have "acts (lc_recv (Some DROP_LOCK)) s x"
      by (simp add: acts_def lc_recv_def lc_abs_def app_ok_def wrote_def)
    moreover have "cuda_made s x = cuda_made s u" using x(1) by (simp add: cuda_made_def)
    ultimately show "?Q x" using es by simp
  qed
  note snd = this
  have "post (cuda_sync_context (s\<lparr>a_own_lock := False\<rparr>)) (\<lambda>u. post (send_whole (wire s Rel) (u\<lparr>a_out_msg := wire s Rel\<rparr>)) ?Q)"
    by (rule post_mono [OF cuda_sync_context_post], elim exE conjE, rule snd) (auto simp: cuda_made_def)
  moreover have "(a_out_msg u)\<lparr>m_type := message_type_code LOCK_RELEASED\<rparr> = wire s Rel"
    if "cuda_sync_context (s\<lparr>a_own_lock := False\<rparr>) = Inr u" for u
    using post_D [OF cuda_sync_context_post that] app_ok_out [OF assms(1)] by auto
  ultimately show ?thesis
    using assms(2,3) unfolding client_handle_def post_def
    by (auto simp: Let_def bindR_Inr_iff simp del: message_type_code.simps)
qed

lemma acts_same: "app_ok t \<Longrightarrow> a_client_id t = a_client_id s \<Longrightarrow> lc_abs t = fst (f (lc_abs s)) \<Longrightarrow> snd (f (lc_abs s)) = [] \<Longrightarrow>
    a_rsock t = a_rsock s \<Longrightarrow> a_kern t = a_kern s \<Longrightarrow> acts f s t"
  by (simp add: acts_def wrote_Nil)

lemma client_handle_acts:
  assumes "app_ok s"
  shows "post (client_handle m s) (acts (lc_recv (message_type_of (m_type m))) s)"
proof (cases "message_type_of (m_type m) = Some DROP_LOCK \<and> a_own_lock s")
  case True
  with client_handle_drop [OF assms, of m] show ?thesis by (auto simp: post_def)
next
  case False
  with assms show ?thesis
    by (auto simp: client_handle_def post app_ok_def lc_abs_def lc_recv_def intro!: acts_same
        split: option.splits message_type.splits)
qed

section \<open>Early release\<close>

definition idle_evidence :: "timespec \<Rightarrow> timespec \<Rightarrow> app \<Rightarrow> app \<Rightarrow> bool" where
  "idle_evidence t0 t1 s t \<longleftrightarrow>
     (if a_nvml_ok s
      then \<exists>a. cu_calls (a_cuda t) = cu_calls (a_cuda s) @ [(Nvml_DeviceGetUtilizationRates, a)] \<and> cu_result a = NVML_SUCCESS
        \<and> (ucast (cu_val a) :: 32 word) = 0
      else Cu_CtxSynchronize \<in> set (cuda_made s t) \<and> elapsed_ms (timespecsub t1 t0) < 100)"

lemma gpu_busy_post:
  "post (gpu_busy t0 t1 s) (\<lambda>(busy, t). flags t = flags s \<and> wrote [] s t \<and> (\<not> busy \<longrightarrow> idle_evidence t0 t1 s t))"
proof (cases "a_nvml_ok s")
  case True
  then show ?thesis
    by (auto simp: gpu_busy_def cuda_defs post flags_def idle_evidence_def word_gt_0 intro: wrote_Nil)
next
  case False
  then show ?thesis
    by (auto simp: gpu_busy_def post flags_def idle_evidence_def intro!: post_mono [OF cuda_sync_context_post] wrote_Nil)
qed

text \<open>An early release happens for an idle owner only, and looks like a release after DROP_LOCK.\<close>

definition may_release :: "int \<Rightarrow> app \<Rightarrow> bool" where
  "may_release r s \<longleftrightarrow> r = ETIMEDOUT \<and> a_scheduler_on s \<and> a_own_lock s \<and> \<not> a_did_work s"

lemma release_wake_acts:
  assumes "app_ok s"
  shows "post (release_wake r t0 t1 now (s, e)) (\<lambda>(t, e').
    acts (\<lambda>c. (c, [])) s t \<or> (may_release r s \<and> idle_evidence t0 t1 s t \<and> acts lc_early s t))"
proof -
  have same: "acts (\<lambda>c. (c, [])) s (u\<lparr>a_did_work := b\<rparr>)" if "flags u = flags s" "wrote [] s u" for u b
    using that assms by (simp add: acts_def app_ok_def flags_def lc_abs_def)
  have "post (send_whole (release_message u) u) (\<lambda>v. idle_evidence t0 t1 s (v\<lparr>a_own_lock := False, a_did_work := False\<rparr>)
      \<and> acts lc_early s (v\<lparr>a_own_lock := False, a_did_work := False\<rparr>))"
    if u: "flags u = flags s" "wrote [] s u" and i: "idle_evidence t0 t1 s u" and r: "may_release r s" for u
  proof (rule post_mono [OF send_whole_post])
    show "message_ok (release_message u)" by (simp add: release_message_def)
    fix v assume "\<exists>k. v = u\<lparr>a_kern := k\<rparr> \<and> wrote [release_message u] u v"
    then obtain k where v: "v = u\<lparr>a_kern := k\<rparr>" "wrote [release_message u] u v" by blast
    have "release_message u = wire s Rel" using u(1) by (simp add: release_message_def wire_def flags_def)
    with v u r assms have "acts lc_early s (v\<lparr>a_own_lock := False, a_did_work := False\<rparr>)"
      by (simp add: acts_def app_ok_def flags_def lc_abs_def lc_early_def wrote_def may_release_def)
    moreover have "idle_evidence t0 t1 s (v\<lparr>a_own_lock := False, a_did_work := False\<rparr>)"
    proof -
      have "cuda_made s (v\<lparr>a_own_lock := False, a_did_work := False\<rparr>) = cuda_made s u" using v(1) by (simp add: cuda_made_def)
      with i v(1) show ?thesis by (simp add: idle_evidence_def)
    qed
    ultimately show "idle_evidence t0 t1 s (v\<lparr>a_own_lock := False, a_did_work := False\<rparr>)
      \<and> acts lc_early s (v\<lparr>a_own_lock := False, a_did_work := False\<rparr>)" by blast
  qed
  note rel = this
  have "post (gpu_busy t0 t1 s) (\<lambda>(busy, u). post (if busy then Inr (release_arm now u)
      else bindR (send_whole (release_message u) u) (\<lambda>s. Inr (release_arm now (s\<lparr>a_own_lock := False\<rparr>))))
      (\<lambda>(t, e'). acts (\<lambda>c. (c, [])) s t \<or> (may_release r s \<and> idle_evidence t0 t1 s t \<and> acts lc_early s t)))"
    if "may_release r s"
    by (rule post_mono [OF gpu_busy_post])
      (use that same rel in \<open>auto simp: post release_arm_def intro: post_mono [OF rel]\<close>)
  moreover have "acts (\<lambda>c. (c, [])) s s" "acts (\<lambda>c. (c, [])) s (s\<lparr>a_did_work := False\<rparr>)"
    using same [of s] assms by (simp_all add: wrote_Nil acts_def)
  ultimately show ?thesis
    unfolding release_wake_def by (auto simp: post release_arm_def may_release_def case_prod_unfold)
qed

section \<open>Start-up\<close>

lemma strlcpy_ok:
  assumes "NUL \<in> set src" "0 < n" "n \<le> length dst"
  shows "\<exists>b k. strlcpy dst src n = Inr (b, k) \<and> length b = length dst \<and> NUL \<in> set b"
  using strlcpy_string [OF assms] assms(2,3) by (simp add: Let_def)

lemma fgets_ok: "fgets buf n txt = Some b \<Longrightarrow> 0 < n \<Longrightarrow> n \<le> length buf \<Longrightarrow> length b = length buf \<and> NUL \<in> set b"
  by (auto simp: fgets_def Let_def split: if_splits)

lemma wp_strlcpy:
  assumes "0 < n" "n \<le> length dst" "\<And>b k. length b = length dst \<Longrightarrow> NUL \<in> set b \<Longrightarrow> Q (b, k)"
  shows "wp (strlcpy dst (txt @ [NUL]) n) Q"
  using strlcpy_ok [of "txt @ [NUL]" n dst] assms by (auto simp: wp)

lemma wp_read_pod_name:
  assumes "length buf = n" "0 < n" "\<And>b. length b = n \<Longrightarrow> NUL \<in> set b \<Longrightarrow> Q b"
  shows "wp (read_pod_name buf n e) Q"
proof -
  have cp: "wp (strlcpy buf (v @ [NUL]) n) (\<lambda>x. wp (case x of (b, _) \<Rightarrow> Inr b) Q)" for v
    by (rule wp_strlcpy) (use assms in \<open>simp_all add: wp\<close>)
  show ?thesis using cp [of "''none''"] cp
    by (simp add: read_pod_name_def wp del: append.simps split: option.split)
qed

lemma wp_read_pod_namespace:
  assumes "length buf = n" "0 < n" "\<And>b. length b = n \<Longrightarrow> NUL \<in> set b \<Longrightarrow> Q b"
  shows "wp (read_pod_namespace buf n e) Q"
proof -
  have "wp (strlcpy buf (''none'' @ [NUL]) n) (\<lambda>x. wp (case x of (b, _) \<Rightarrow> Inr b) Q)"
    by (rule wp_strlcpy) (use assms in \<open>simp_all add: wp\<close>)
  then show ?thesis
    using assms fgets_ok [of buf n]
    by (auto simp: read_pod_namespace_def wp simp del: append.simps split: option.split)
qed

lemma wp_pod_names:
  assumes "message_ok m"
  shows "wp (pod_names e m) (\<lambda>m'. message_ok m' \<and> NUL \<in> set (m_pod_name m') \<and> NUL \<in> set (m_pod_namespace m')
    \<and> m_data m' = m_data m \<and> m_id m' = m_id m)"
proof -
  note len = assms [unfolded message_ok_def]
  show ?thesis
    unfolding pod_names_def
    apply (simp only: wp split: if_split)
    apply (intro conjI impI)
     apply (rule wp_read_pod_namespace)
       apply (use len in \<open>simp_all add: msg_sizes\<close>)
     apply (rule wp_read_pod_name)
       apply (use len in \<open>simp_all add: msg_sizes wp message_ok_def\<close>)
    apply (rule wp_strlcpy [of _ _ _ "''none''", simplified])
      apply (simp_all add: wp)
    apply (rule wp_strlcpy [of _ _ _ "''none''", simplified])
      apply (simp_all add: wp)
    done
qed

lemma initial_status_post:
  "post (initial_status m s) (\<lambda>t. a_rsock t = a_rsock s \<and> a_own_lock t = (\<not> a_scheduler_on t) \<and> \<not> a_need_lock t)"
  by (auto simp: initial_status_def post split: option.splits message_type.splits)

lemma post_any: "(\<And>x. post (f x) P) \<Longrightarrow> post (bindR m f) P"
  by (auto simp: post_def bindR_Inr_iff)

lemma client_start_post:
  "post (client_start e path s) (\<lambda>t. a_own_lock t = (\<not> a_scheduler_on t) \<and> \<not> a_need_lock t
     \<and> a_out_msg t = zero_message\<lparr>m_id := a_client_id t\<rparr>)"
proof -
  have "post (client_ready m u)
      (\<lambda>t. a_own_lock t = (\<not> a_scheduler_on t) \<and> \<not> a_need_lock t \<and> a_out_msg t = zero_message\<lparr>m_id := a_client_id t\<rparr>)" for m u
    unfolding client_ready_def post by (rule post_mono [OF initial_status_post]) simp
  then show ?thesis
    unfolding client_start_def by (intro post_any) (auto simp: post_Inl split: prod.splits intro!: post_any)
qed

lemma initialize_client_post:
  "post (initialize_client e path s) (\<lambda>t. app_ok t \<and> a_own_lock t = (\<not> a_scheduler_on t) \<and> \<not> a_need_lock t)"
  unfolding initialize_client_def post
  by (rule post_mono [OF client_start_post]) (simp add: app_ok_def zero_message_def)

section \<open>A concrete client\<close>

definition ex_app :: "bool \<Rightarrow> sysret list \<Rightarrow> cuda_ret list \<Rightarrow> app" where
  "ex_app own as ds = \<lparr>a_scheduler_on = True, a_own_lock = own, a_need_lock = False, a_did_work = False,
     a_client_id = 11, a_rsock = 7, a_cuda_ctx = 0, a_cuda_ctx_ok = True,
     a_req_lock_msg = zero_message\<lparr>m_type := message_type_code REQ_LOCK, m_id := 11\<rparr>,
     a_out_msg = zero_message\<lparr>m_id := 11\<rparr>, a_pending_kernel_window = 4, a_nvml_ok = True,
     a_kern = \<lparr>answers = as, calls = []\<rparr>, a_cuda = \<lparr>cu_answers = ds, cu_calls = []\<rparr>,
     a_own_signals = 0, a_early_signals = 0\<rparr>"

definition cu_ok :: cuda_ret where
  "cu_ok = \<lparr>cu_result = 0, cu_val = 0, cu_val2 = 0\<rparr>"

definition wrote_all :: sysret where
  "wrote_all = \<lparr>ret = int sizeof_message, err = 0, bytes = []\<rparr>"

lemma ex_app_ok [simp]: "app_ok (ex_app own as ds)"
  by (simp add: app_ok_def ex_app_def zero_message_def)

lemma send_whole_once:
  assumes "message_ok m" "answers (a_kern s) = wrote_all # as"
  shows "\<exists>k. send_whole m s = Inr (s\<lparr>a_kern := k\<rparr>)"
proof -
  have "encode_message m \<noteq> []" by (simp add: encode_message_def)
  then show ?thesis
    using assms
    by (simp add: send_whole_def write_whole_def write_loop.simps [of _ "encode_message m"] write_loop.simps [of _ "[]"]
        wrote_all_def interrupted_def Let_def) (rule exI, rule refl)
qed

section \<open>Properties\<close>

text \<open>
  No GPU work without the lock. \<open>continue_with_lock\<close> lets the calling thread go on exactly when the
  application owns the lock (which includes the time the scheduler is off). Otherwise the
  thread waits, and a REQ_LOCK is sent for the whole application exactly if none is under way.
\<close>

theorem continue_only_with_lock:
  assumes "app_ok s" "continue_with_lock s = Inr (fin, t)"
  shows "fin = a_own_lock s \<and> a_own_lock t = a_own_lock s \<and> a_scheduler_on t = a_scheduler_on s \<and> (\<not> fin \<longrightarrow> a_need_lock t)
    \<and> wrote (if a_own_lock s \<or> a_need_lock s then [] else [a_req_lock_msg s]) s t \<and> app_ok t"
proof -
  have "acts lc_want s t" "fin = a_own_lock s" using post_D [OF continue_with_lock_acts [OF assms(1)] assms(2)] by auto
  moreover have "a_req_lock_msg s = wire s Req" using assms(1) by (simp add: app_ok_def wire_def)
  ultimately show ?thesis
    by (cases "a_own_lock s \<or> a_need_lock s") (auto simp: acts_def lc_want_def lc_abs_def)
qed

theorem continue_only_with_lock_witness:
  "\<exists>t. continue_with_lock (ex_app False [wrote_all] []) = Inr (False, t) \<and> a_need_lock t
    \<and> sent_to 7 (a_kern t) = encode_message (zero_message\<lparr>m_type := message_type_code REQ_LOCK, m_id := 11\<rparr>)"
proof -
  let ?s = "ex_app False [wrote_all] []"
  have "\<exists>k. send_whole (a_req_lock_msg ?s) (?s\<lparr>a_need_lock := True\<rparr>) = Inr (?s\<lparr>a_need_lock := True\<rparr>\<lparr>a_kern := k\<rparr>)"
    by (rule send_whole_once) (simp_all add: ex_app_def)
  then obtain t where t: "continue_with_lock ?s = Inr (False, t)"
    by (auto simp: continue_with_lock_def get_context_def cwl_resume_def ex_app_def)
  with continue_only_with_lock [OF ex_app_ok t] show ?thesis
    by (auto simp: ex_app_def wrote_def sent_to_def)
qed

text \<open>
  C12: the client thread follows the protocol. Whatever message arrives, handling it changes the
  status, ownership and request flags as the protocol prescribes, sends a LOCK_RELEASED exactly
  when the owner is told to drop the lock, and keeps the client's invariant (an owner has no
  request under way, and both prepared messages carry the client's ID).
\<close>

theorem client_follows_protocol:
  assumes "app_ok s" "client_handle m s = Inr t"
  shows "app_ok t \<and> lc_abs t = fst (lc_recv (message_type_of (m_type m)) (lc_abs s))
    \<and> wrote (map (wire s) (snd (lc_recv (message_type_of (m_type m)) (lc_abs s)))) s t"
  using post_D [OF client_handle_acts [OF assms(1)] assms(2)] by (simp add: acts_def)

theorem client_follows_protocol_witness:
  "\<exists>t. client_handle (zero_message\<lparr>m_type := message_type_code LOCK_OK\<rparr>) (ex_app False [] []) = Inr t
    \<and> lc_own (lc_abs t)"
proof -
  obtain t where t: "client_handle (zero_message\<lparr>m_type := message_type_code LOCK_OK\<rparr>) (ex_app False [] []) = Inr t"
    by (simp add: client_handle_def message_type_of_def)
  with client_follows_protocol [OF ex_app_ok t] show ?thesis
    by (auto simp: lc_recv_def message_type_of_def)
qed

text \<open>
  C13: work is finished before the lock is given back. When the owner is told to drop the lock, then
  by the time the handler returns it no longer owns the lock, the CUDA context has been
  synchronised, and one LOCK_RELEASED has been sent. If the synchronisation does not
  return, neither does the handler.
\<close>

theorem drop_lock_synchronises:
  assumes "app_ok s" "a_own_lock s" "message_type_of (m_type m) = Some DROP_LOCK"
  shows "(\<forall>t. client_handle m s = Inr t \<longrightarrow> \<not> a_own_lock t \<and> wrote [wire s Rel] s t
      \<and> (\<exists>es. cuda_made s t = Cu_CtxSetCurrent (a_cuda_ctx s) # es \<and> Cu_CtxSynchronize \<in> set es))
    \<and> (cuda_sync_context (s\<lparr>a_own_lock := False\<rparr>) = Inl f \<longrightarrow> client_handle m s = Inl f)"
proof -
  have "post (client_handle m s) (\<lambda>t. \<not> a_own_lock t \<and> wrote [wire s Rel] s t
      \<and> (\<exists>es. cuda_made s t = Cu_CtxSetCurrent (a_cuda_ctx s) # es \<and> Cu_CtxSynchronize \<in> set es))"
    by (rule post_mono [OF client_handle_drop [OF assms]])
      (use assms(2) in \<open>auto simp: acts_def lc_recv_def lc_abs_def\<close>)
  then show ?thesis using assms(2,3) by (auto simp: post_def client_handle_def)
qed

theorem drop_lock_synchronises_witness:
  "\<exists>t. client_handle (zero_message\<lparr>m_type := message_type_code DROP_LOCK\<rparr>) (ex_app True [wrote_all] [cu_ok, cu_ok]) = Inr t
    \<and> \<not> a_own_lock t \<and> Cu_CtxSynchronize \<in> set (cuda_made (ex_app True [wrote_all] [cu_ok, cu_ok]) t)"
proof -
  let ?s = "ex_app True [wrote_all] [cu_ok, cu_ok]" and ?m = "zero_message\<lparr>m_type := message_type_code DROP_LOCK\<rparr>"
  have sync: "cuda_sync_context (?s\<lparr>a_own_lock := False\<rparr>) = Inr (?s\<lparr>a_own_lock := False, a_pending_kernel_window := 1,
      a_cuda := \<lparr>cu_answers = [], cu_calls = [(Cu_CtxSetCurrent 0, cu_ok), (Cu_CtxSynchronize, cu_ok)]\<rparr>\<rparr>)"
    by (simp add: cuda_sync_context_def cuda_defs cuda_sys_def ex_app_def cu_ok_def CUDA_SUCCESS_def)
  have "message_ok ((a_out_msg ?s)\<lparr>m_type := message_type_code LOCK_RELEASED\<rparr>)" by (simp add: ex_app_def)
  note snd = send_whole_once [OF this]
  have "\<exists>t. client_handle ?m ?s = Inr t"
    using sync snd [of "?s\<lparr>a_own_lock := False, a_pending_kernel_window := 1,
      a_cuda := \<lparr>cu_answers = [], cu_calls = [(Cu_CtxSetCurrent 0, cu_ok), (Cu_CtxSynchronize, cu_ok)]\<rparr>,
      a_out_msg := (a_out_msg ?s)\<lparr>m_type := message_type_code LOCK_RELEASED\<rparr>\<rparr>" "[]"]
    by (auto simp: client_handle_def message_type_of_def Let_def ex_app_def)
  then obtain t where t: "client_handle ?m ?s = Inr t" by blast
  moreover have "message_type_of (m_type ?m) = Some DROP_LOCK" by (simp add: message_type_of_def)
  moreover have "a_own_lock ?s" by (simp add: ex_app_def)
  ultimately show ?thesis using drop_lock_synchronises [where f = Exit, OF ex_app_ok] by fastforce
qed

text \<open>
  C15: an early release is for idle owners only. If a wake-up of the early-release thread
  changes who owns the lock or sends anything, then the interval had elapsed, the scheduler was on,
  the application owned the lock and had submitted nothing in the interval, and the GPU was
  found idle: NVML reported a utilisation of zero, or (without NVML) the context was
  synchronised in less than 100 ms. What it does then is to give up the lock and send one LOCK_RELEASED.
\<close>

theorem early_release_when_idle:
  assumes "app_ok s" "release_wake r t0 t1 now (s, e) = Inr (t, e')"
  shows "app_ok t \<and> ((lc_abs t = lc_abs s \<and> wrote [] s t)
    \<or> (r = ETIMEDOUT \<and> a_scheduler_on s \<and> a_own_lock s \<and> \<not> a_did_work s \<and> idle_evidence t0 t1 s t
       \<and> \<not> a_own_lock t \<and> wrote [wire s Rel] s t))"
  using post_D [OF release_wake_acts [OF assms(1)] assms(2)]
  by (auto simp: acts_def may_release_def lc_early_def lc_abs_def)

theorem early_release_when_idle_witness:
  "\<exists>t e'. release_wake ETIMEDOUT \<lparr>tv_sec = 1, tv_nsec = 0\<rparr> \<lparr>tv_sec = 1, tv_nsec = 0\<rparr> \<lparr>tv_sec = 9, tv_nsec = 0\<rparr>
      (ex_app True [wrote_all] [cu_ok], \<lparr>tv_sec = 9, tv_nsec = 0\<rparr>) = Inr (t, e') \<and> \<not> a_own_lock t"
proof -
  let ?s = "ex_app True [wrote_all] [cu_ok]"
  let ?u = "?s\<lparr>a_cuda := \<lparr>cu_answers = [], cu_calls = [(Nvml_DeviceGetUtilizationRates, cu_ok)]\<rparr>\<rparr>"
  let ?w = "release_wake ETIMEDOUT \<lparr>tv_sec = 1, tv_nsec = 0\<rparr> \<lparr>tv_sec = 1, tv_nsec = 0\<rparr> \<lparr>tv_sec = 9, tv_nsec = 0\<rparr> (?s, \<lparr>tv_sec = 9, tv_nsec = 0\<rparr>)"
  have busy: "gpu_busy t0 t1 ?s = Inr (False, ?u)" for t0 t1
    by (simp add: gpu_busy_def cuda_defs cuda_sys_def ex_app_def cu_ok_def NVML_SUCCESS_def)
  obtain k where k: "send_whole (release_message ?u) ?u = Inr (?u\<lparr>a_kern := k\<rparr>)"
    using send_whole_once [of "release_message ?u" ?u "[]"] by (auto simp: release_message_def ex_app_def)
  have flags: "a_scheduler_on ?s" "a_own_lock ?s" "\<not> a_did_work ?s" by (simp_all add: ex_app_def)
  have "\<exists>t e'. ?w = Inr (t, e') \<and> lc_abs t \<noteq> lc_abs ?s"
    using busy k flags by (simp add: release_wake_def release_arm_def lc_abs_def)
  then obtain t e' where t: "?w = Inr (t, e')" "lc_abs t \<noteq> lc_abs ?s" by blast
  with early_release_when_idle [OF ex_app_ok t(1)] show ?thesis by auto
qed

text \<open>
  a client starts consistent with the status it was told. When \<open>initialize_client\<close> returns, the client
  may use the GPU at once exactly if the scheduler is off, no request is under way, and the
  prepared messages carry the ID it was given.
\<close>

theorem client_starts_consistent:
  "case initialize_client e path s of
     Inl f \<Rightarrow> True
   | Inr t \<Rightarrow> app_ok t \<and> a_own_lock t = (\<not> a_scheduler_on t) \<and> \<not> a_need_lock t"
  using initialize_client_post [of e path s] by (auto simp: post_def split: sum.split)

end
