(* ===== verification/System.thy ===== *)
theory System
  imports Scheduler_Sent Client_Props
begin

text \<open>
  The whole system: the two threads of the scheduler, the applications with their three kinds of
  threads, and the connections between them. A world has the scheduler's state, the timer thread's
  variables and, for each connection (identified by the address of the \<open>struct nvshare_client\<close> at the
  scheduler's end), the application at its other end and the messages under way in both
  directions. A connection is a stream socket: reliable and in order. The messages that enter it are
  those whose bytes a step of the code has written, and a step of the code that reads takes the first one.

  The applications run libnvshare, and nobody switches the scheduler off: with the scheduler off
  every application may use the GPU, so there is nothing to exclude. A connection that the
  scheduler has closed leaves the world, together with its application.
\<close>

section \<open>The world\<close>

record world =
  w_sched :: sched
  w_timer :: timer
  w_app :: "addr \<Rightarrow> app option"
  w_up :: "addr \<Rightarrow> message list"
  w_down :: "addr \<Rightarrow> message list"

text \<open>The messages \<open>out p\<close> are what a step of the scheduler has sent to the connection \<open>p\<close>.\<close>

definition relayed :: "sched \<Rightarrow> sched \<Rightarrow> (addr \<Rightarrow> message list) \<Rightarrow> bool" where
  "relayed s s' out \<longleftrightarrow> (\<forall>p c. heap s' p = Some c \<longrightarrow> list_all message_ok (out p)
     \<and> sent_to (c_fd c) (kern s') = sent_to (c_fd c) (kern s) @ concat (map encode_message (out p)))"

text \<open>If the event delivers a message, it is the first one under way from that client.\<close>

definition reads :: "int \<Rightarrow> epoll_event \<Rightarrow> sched \<Rightarrow> (addr \<Rightarrow> message list) \<Rightarrow> (addr \<Rightarrow> message list) \<Rightarrow> bool" where
  "reads lsock ev s up up' \<longleftrightarrow>
     (let p = ev_data ev in
      if data_fd p \<noteq> lsock \<and> ev_events ev AND EPOLLIN \<noteq> 0
      then (case receive_message p s of
              Inl _ \<Rightarrow> up' = up
            | Inr (r, m, _) \<Rightarrow> if r < 0 then up' = up else \<exists>ms. up p = m # ms \<and> up' = up(p := ms))
      else up' = up)"

definition sched_moved :: "sched \<Rightarrow> timer \<Rightarrow> (addr \<Rightarrow> message list) \<Rightarrow> (addr \<Rightarrow> message list) \<Rightarrow> world \<Rightarrow> world" where
  "sched_moved s' t' up out w = w\<lparr>w_sched := s', w_timer := t',
     w_app := (\<lambda>p. if heap s' p = None then None else w_app w p),
     w_up := (\<lambda>p. if heap s' p = None then [] else up p),
     w_down := (\<lambda>p. if heap s' p = None then [] else w_down w p @ out p)\<rparr>"

definition app_moved :: "addr \<Rightarrow> app \<Rightarrow> message list \<Rightarrow> message list \<Rightarrow> world \<Rightarrow> world" where
  "app_moved p a ms dn w = w\<lparr>w_app := (w_app w)(p \<mapsto> a), w_up := (w_up w)(p := w_up w p @ ms),
     w_down := (w_down w)(p := dn)\<rparr>"

text \<open>
  The answers of the operating system, the memory that malloc hands out, the numbers of random and the
  contents of freed memory are lists and maps in the state that a step of the code uses up. They do not come from
  a stock fixed at the start: at any time the environment replaces them by any others, so a run may be
  as long as it likes. Fresh memory has the size of a \<open>struct nvshare_client\<close>, and freed memory does not hold
  the descriptor of a live client.
\<close>

definition resupplied :: "sysret list \<Rightarrow> (addr \<times> nvshare_client) option list \<Rightarrow> rands \<Rightarrow> (addr \<Rightarrow> int) \<Rightarrow> sched \<Rightarrow> sched" where
  "resupplied as ms rs st s = s\<lparr>kern := (kern s)\<lparr>answers := as\<rparr>, mallocs := ms, rands := rs, stale := st\<rparr>"

definition reequipped :: "sysret list \<Rightarrow> cuda_ret list \<Rightarrow> app \<Rightarrow> app" where
  "reequipped as ds a = a\<lparr>a_kern := (a_kern a)\<lparr>answers := as\<rparr>, a_cuda := (a_cuda a)\<lparr>cu_answers := ds\<rparr>\<rparr>"

inductive world_step :: "world \<Rightarrow> world \<Rightarrow> bool" where
  main: "event_ok lsock ev (w_sched w) \<Longrightarrow> handle_event lsock ev (w_sched w) = Inr s' \<Longrightarrow>
    relayed (w_sched w) s' out \<Longrightarrow> reads lsock ev (w_sched w) (w_up w) up' \<Longrightarrow>
    world_step w (sched_moved s' (w_timer w) up' out w)"
| timer: "timer_wake r now (w_sched w, w_timer w) = Inr (s', t') \<Longrightarrow> relayed (w_sched w) s' out \<Longrightarrow>
    world_step w (sched_moved s' t' (w_up w) out w)"
| want: "w_app w p = Some a \<Longrightarrow> continue_with_lock a = Inr (fin, a') \<or> cwl_resume a = Inr (fin, a') \<Longrightarrow>
    wrote ms a a' \<Longrightarrow> list_all message_ok ms \<Longrightarrow> world_step w (app_moved p a' ms (w_down w p) w)"
| receive: "w_app w p = Some a \<Longrightarrow> w_down w p = m # dn \<Longrightarrow> client_handle m a = Inr a' \<Longrightarrow>
    wrote ms a a' \<Longrightarrow> list_all message_ok ms \<Longrightarrow> world_step w (app_moved p a' ms dn w)"
| early: "w_app w p = Some a \<Longrightarrow> release_wake r t0 t1 now (a, e) = Inr (a', e') \<Longrightarrow>
    wrote ms a a' \<Longrightarrow> list_all message_ok ms \<Longrightarrow> world_step w (app_moved p a' ms (w_down w p) w)"
| join: "heap (w_sched w) p = Some c \<Longrightarrow> \<not> has_registered c \<Longrightarrow> w_up w p = [] \<Longrightarrow> message_ok m \<Longrightarrow>
    message_type_of (m_type m) = Some REGISTER \<Longrightarrow> world_step w (w\<lparr>w_up := (w_up w)(p := [m])\<rparr>)"
| start: "w_app w p = None \<Longrightarrow> w_down w p = m # dn \<Longrightarrow> client_ready m a = Inr b \<Longrightarrow>
    world_step w (app_moved p (b\<lparr>a_req_lock_msg := zero_message\<lparr>m_type := message_type_code REQ_LOCK, m_id := a_client_id b\<rparr>\<rparr>) [] dn w)"
| control: "heap (w_sched w) p = Some c \<Longrightarrow> \<not> has_registered c \<Longrightarrow> message_ok m \<Longrightarrow>
    message_type_of (m_type m) = Some SET_TQ \<or> message_type_of (m_type m) = Some SCHED_ON \<Longrightarrow>
    list_all (\<lambda>m. message_type_of (m_type m) \<noteq> Some REGISTER) (w_up w p) \<Longrightarrow>
    world_step w (w\<lparr>w_up := (w_up w)(p := w_up w p @ [m])\<rparr>)"
| refill: "(\<forall>q c. Some (q, c) \<in> set ms \<longrightarrow> client_ok c) \<Longrightarrow> (\<forall>p c q. heap (w_sched w) p = Some c \<longrightarrow> c_fd c \<noteq> st q) \<Longrightarrow>
    world_step w (w\<lparr>w_sched := resupplied as ms rs st (w_sched w), w_app := (\<lambda>p. map_option (reequipped (bs p) (ds p)) (w_app w p))\<rparr>)"

section \<open>The invariant\<close>

abbreviation kinds :: "message list \<Rightarrow> message_type option list" where
  "kinds \<equiv> map (\<lambda>m. message_type_of (m_type m))"

text \<open>
  Where a client stands. Outside the queue it is idle or its request is under way. In the queue it
  waits, unless it holds the lock: then the LOCK_OK is under way, or it owns the lock, or its release is
  under way, possibly followed by its next request.
\<close>

definition phase :: "sched \<Rightarrow> addr \<Rightarrow> message_type option list \<Rightarrow> message_type option list \<Rightarrow> bool \<Rightarrow> bool \<Rightarrow> bool" where
  "phase s p U G own need \<longleftrightarrow>
     (if p \<notin> set (requests s) then G = [] \<and> \<not> own \<and> U = (if need then [Some REQ_LOCK] else [])
      else if holder s \<noteq> Some p then G = [] \<and> \<not> own \<and> need \<and> U = []
      else if own then G = [] \<and> \<not> need \<and> U = []
      else if U = [] then G = [Some LOCK_OK] \<and> need
      else G = [] \<and> U = Some LOCK_RELEASED # (if need then [Some REQ_LOCK] else []))"

definition grants_of :: "message list \<Rightarrow> message_type option list" where
  "grants_of dn = filter (\<lambda>k. k = Some LOCK_OK) (kinds dn)"

definition conn_inv :: "sched \<Rightarrow> addr \<Rightarrow> app option \<Rightarrow> message list \<Rightarrow> message list \<Rightarrow> bool" where
  "conn_inv s p ao up dn \<longleftrightarrow>
     (case heap s p of
        None \<Rightarrow> ao = None \<and> up = [] \<and> dn = []
      | Some c \<Rightarrow>
          (case ao of
             Some a \<Rightarrow> has_registered c \<and> app_ok a \<and> a_scheduler_on a \<and> (\<forall>m \<in> set dn. message_type_of (m_type m) \<in> {Some LOCK_OK, Some DROP_LOCK})
               \<and> phase s p (kinds up) (grants_of dn) (a_own_lock a) (a_need_lock a)
           | None \<Rightarrow>
               if has_registered c then up = [] \<and> p \<notin> set (requests s) \<and> kinds dn = [Some SCHED_ON]
               else dn = [] \<and> (kinds up = [Some REGISTER] \<or> (\<forall>m \<in> set up. message_type_of (m_type m) \<in> {Some SET_TQ, Some SCHED_ON}))))"

definition world_inv :: "world \<Rightarrow> bool" where
  "world_inv w \<longleftrightarrow> sched_inv (w_sched w) \<and> scheduler_on (w_sched w)
     \<and> (\<forall>p. conn_inv (w_sched w) p (w_app w p) (w_up w p) (w_down w p))"

lemma world_inv_conn: "world_inv w \<Longrightarrow> conn_inv (w_sched w) p (w_app w p) (w_up w p) (w_down w p)"
  by (simp add: world_inv_def)

section \<open>Messages on the wire\<close>

lemma encode_blocks:
  "concat (map encode_message xs) = concat (map encode_message ys) \<Longrightarrow> list_all message_ok xs \<Longrightarrow> list_all message_ok ys \<Longrightarrow> xs = ys"
proof (induction xs arbitrary: ys)
  case Nil
  then show ?case by (cases ys) (auto simp: encode_message_def)
next
  case (Cons x xs)
  then obtain y zs where ys: "ys = y # zs" by (cases ys) (auto simp: encode_message_def)
  with Cons.prems have "length (encode_message x) = length (encode_message y)" by simp
  moreover have "encode_message x @ concat (map encode_message xs) = encode_message y @ concat (map encode_message zs)"
    using Cons.prems(1) ys by simp
  ultimately have e: "encode_message x = encode_message y" "concat (map encode_message xs) = concat (map encode_message zs)"
    using append_eq_append_conv [of "encode_message x" "encode_message y"] by blast+
  have "message_ok x" "message_ok y" using Cons.prems(2,3) ys by simp_all
  then have "x = y" using e(1) decode_encode_message by metis
  with e(2) Cons ys show ?case by simp
qed

lemma relayed_eq:
  assumes "relayed s s' out" "heap s' p = Some c" "list_all message_ok ms"
    and "sent_to (c_fd c) (kern s') = sent_to (c_fd c) (kern s) @ concat (map encode_message ms)"
  shows "out p = ms"
proof -
  have "concat (map encode_message (out p)) = concat (map encode_message ms)" "list_all message_ok (out p)"
    using assms by (auto simp: relayed_def)
  then show ?thesis using encode_blocks assms(3) by blast
qed

lemma wrote_eq:
  assumes "wrote ms a b" "wrote ms' a b" "list_all message_ok ms" "list_all message_ok ms'"
  shows "ms = ms'"
  using assms encode_blocks [of ms ms'] by (simp add: wrote_def)

section \<open>Steps of the scheduler\<close>

lemma phase_dealt:
  assumes d: "dealt A D s s'" and c: "heap s' p = Some c" and out: "G' = G @ (if holder s' = Some p \<and> holder s \<noteq> Some p then [Some LOCK_OK] else [])"
    and ph: "phase s p U G own need"
    and U: "U = U' \<and> p \<notin> A \<and> p \<notin> D \<or> U = Some REQ_LOCK # U' \<and> p \<in> A \<and> p \<notin> D \<or> U = Some LOCK_RELEASED # U' \<and> p \<notin> A \<and> p \<in> D"
  shows "phase s' p U' G' own need"
proof -
  note D = dealtD(3,4) [OF d c]
  have q: "p \<in> set (requests t)" if "holder t = Some p" for t using that by (auto simp: holder_eq)
  show ?thesis
  proof (cases "holder s = Some p")
    case True
    with ph U show ?thesis using D q [OF True] q [of s'] out by (auto simp: phase_def split: if_splits)
  next
    case False
    with ph U show ?thesis using D q [of s'] out by (auto simp: phase_def split: if_splits)
  qed
qed

lemma lock_ok_msg_kind [simp]: "message_type_of (m_type (lock_ok_msg s)) = Some LOCK_OK"
  by (simp add: lock_ok_msg_def message_type_of_Some del: message_type_code.simps)

lemma conn_inv_dealt:
  assumes inv: "mem_inv s" and d: "dealt A D s s'" and r: "relayed s s' out" and c: "heap s' p = Some c"
    and i: "conn_inv s p ao up dn"
    and U: "up = up' \<and> p \<notin> A \<and> p \<notin> D
      \<or> kinds up = Some REQ_LOCK # kinds up' \<and> p \<in> A \<and> p \<notin> D \<or> kinds up = Some LOCK_RELEASED # kinds up' \<and> p \<notin> A \<and> p \<in> D"
  shows "conn_inv s' p ao up' (dn @ out p)"
proof -
  let ?new = "holder s' = Some p \<and> holder s \<noteq> Some p"
  have "list_all message_ok (if ?new then [lock_ok_msg s] else [])"
    using mem_invD(5) [OF inv] by (simp add: lock_ok_msg_def message_ok_def)
  moreover have "concat (map encode_message (if ?new then [lock_ok_msg s] else [])) = (if ?new then encode_message (lock_ok_msg s) else [])"
    by auto
  ultimately have out: "out p = (if ?new then [lock_ok_msg s] else [])"
    using relayed_eq [OF r c] dealtD(5) [OF d c] by (simp only:)
  have c': "heap s p = Some c" by (rule dealtD(2) [OF d c])
  have q: "p \<in> set (requests s')" if "holder s' = Some p" using that by (auto simp: holder_eq)
  show ?thesis
  proof (cases ao)
    case None
    then have "p \<notin> set (requests s)" "up = up'"
      using i c' U mem_invD(8) [OF inv, of p] by (auto simp: conn_inv_def split: if_splits)
    then have "p \<notin> set (requests s')" "out p = []" using U dealtD(3) [OF d c] out q i c' None
      by (auto simp: conn_inv_def split: if_splits)
    with i None c c' \<open>up = up'\<close> show ?thesis by (auto simp: conn_inv_def)
  next
    case (Some a)
    have "phase s' p (kinds up') (grants_of (dn @ out p)) (a_own_lock a) (a_need_lock a)"
      by (rule phase_dealt [OF d c, where G = "grants_of dn" and U = "kinds up"])
        (use i c' Some out U in \<open>auto simp: conn_inv_def grants_of_def\<close>)
    with i c c' Some out show ?thesis by (auto simp: conn_inv_def)
  qed
qed

lemma conn_inv_gone: "heap s p = None \<Longrightarrow> conn_inv s p None [] []"
  by (simp add: conn_inv_def)

text \<open>A step that only deals with the lock, at the level of worlds.\<close>

lemma world_inv_moved:
  assumes "sched_inv s'" "scheduler_on s'"
    and "\<And>p c. heap s' p = Some c \<Longrightarrow> conn_inv s' p (w_app w p) (up p) (w_down w p @ out p)"
  shows "world_inv (sched_moved s' t' up out w)"
proof -
  have "conn_inv s' p (if heap s' p = None then None else w_app w p) (if heap s' p = None then [] else up p)
      (if heap s' p = None then [] else w_down w p @ out p)" for p
    using assms(3) [of p] by (cases "heap s' p") (auto simp: conn_inv_gone)
  with assms(1,2) show ?thesis by (simp add: world_inv_def sched_moved_def)
qed

lemma world_inv_dealt:
  assumes w: "world_inv w" and d: "dealt {} {} (w_sched w) s'" and s': "sched_inv s'" and r: "relayed (w_sched w) s' out"
  shows "world_inv (sched_moved s' t' (w_up w) out w)"
proof (rule world_inv_moved [OF s'])
  have m: "mem_inv (w_sched w)" using w by (simp add: world_inv_def sched_inv_def)
  show "scheduler_on s'" using w dealtD(1) [OF d] by (simp add: world_inv_def)
  show "conn_inv s' p (w_app w p) (w_up w p) (w_down w p @ out p)" if "heap s' p = Some c" for p c
    by (rule conn_inv_dealt [OF m d r that]) (use w in \<open>auto simp: world_inv_def\<close>)
qed

lemma world_inv_warned:
  assumes w: "world_inv w" and d: "warned (w_sched w) s'" and s': "sched_inv s'" and r: "relayed (w_sched w) s' out"
  shows "world_inv (sched_moved s' t' (w_up w) out w)"
proof (rule world_inv_moved [OF s'])
  let ?s = "w_sched w"
  show "scheduler_on s'" using w d by (simp add: world_inv_def warned_def)
  fix p c assume c: "heap s' p = Some c"
  have same: "heap s' = heap ?s" "requests s' = requests ?s" "holder s' = holder ?s"
    using d by (simp_all add: warned_def holder_def)
  have out: "out p = (if holder ?s = Some p then [drop_msg] else [])"
    by (rule relayed_eq [OF r c]) (use d c same in \<open>auto simp: warned_def\<close>)
  have k: "message_type_of (m_type drop_msg) = Some DROP_LOCK"
    by (simp add: drop_msg_def message_type_of_Some del: message_type_code.simps)
  have i: "conn_inv ?s p (w_app w p) (w_up w p) (w_down w p)" using w by (simp add: world_inv_def)
  have "p \<in> set (requests ?s)" if "holder ?s = Some p" using that by (auto simp: holder_eq)
  moreover have "\<exists>d. heap ?s p = Some d \<and> has_registered d" if "p \<in> set (requests ?s)"
    using w that mem_invD(8) by (auto simp: world_inv_def sched_inv_def)
  ultimately show "conn_inv s' p (w_app w p) (w_up w p) (w_down w p @ out p)"
    using i c unfolding conn_inv_def out same phase_def
    by (auto simp: k grants_of_def split: option.splits if_splits)
qed

lemma world_inv_welcomed:
  assumes w: "world_inv w" and d: "welcomed q (w_sched w) s'" and s': "sched_inv s'" and r: "relayed (w_sched w) s' out"
    and c: "heap (w_sched w) q = Some c" "\<not> has_registered c" and up: "kinds (w_up w q) = Some REGISTER # kinds ms"
  shows "world_inv (sched_moved s' t' ((w_up w)(q := ms)) out w)"
proof (rule world_inv_moved [OF s'])
  let ?s = "w_sched w"
  have m: "mem_inv ?s" and on: "scheduler_on ?s" using w by (simp_all add: world_inv_def sched_inv_def)
  show "scheduler_on s'" using on d by (simp add: welcomed_def)
  have same: "requests s' = requests ?s" "holder s' = holder ?s"
    using d by (simp_all add: welcomed_def holder_def)
  have q: "q \<notin> set (requests ?s)" using mem_invD(8) [OF m, of q] c by auto
  fix p c' assume c': "heap s' p = Some c'"
  have i: "conn_inv ?s p (w_app w p) (w_up w p) (w_down w p)" using w by (simp add: world_inv_def)
  show "conn_inv s' p (w_app w p) (((w_up w)(q := ms)) p) (w_down w p @ out p)"
  proof (cases "p = q")
    case True
    let ?m = "id_msg (c_id c') ?s"
    have "out p = [?m]"
      by (rule relayed_eq [OF r c']) (use d c' True id_msg_ok mem_invD(5) [OF m] in \<open>auto simp: welcomed_def\<close>)
    moreover have "message_type_of (m_type ?m) = Some SCHED_ON"
      using on by (simp add: id_msg_def sched_status_def message_type_of_Some del: message_type_code.simps)
    moreover have "has_registered c'" using d c' True by (simp add: welcomed_def)
    ultimately show ?thesis using i c c' up True q same by (auto simp: conn_inv_def split: option.splits)
  next
    case False
    then have "out p = []" "heap ?s p = Some c'"
      using d c' by (auto simp: welcomed_def intro!: relayed_eq [OF r c'])
    with i c' False same show ?thesis by (auto simp: conn_inv_def phase_def split: option.splits)
  qed
qed

lemma conn_inv_first:
  assumes i: "conn_inv s p ao (m # ms) dn"
  shows "\<exists>c. heap s p = Some c
    \<and> (message_type_of (m_type m) = Some REQ_LOCK \<or> message_type_of (m_type m) = Some LOCK_RELEASED \<longrightarrow> has_registered c)
    \<and> (message_type_of (m_type m) = Some REGISTER \<longrightarrow> \<not> has_registered c)
    \<and> message_type_of (m_type m) \<in> {Some REQ_LOCK, Some LOCK_RELEASED, Some REGISTER, Some SET_TQ, Some SCHED_ON}"
  using i by (auto simp: conn_inv_def phase_def split: option.splits if_splits)

lemma conn_inv_control:
  assumes i: "conn_inv s p ao (m # ms) dn" and t: "message_type_of (m_type m) \<in> {Some SET_TQ, Some SCHED_ON}"
  shows "conn_inv s p ao ms dn"
  using i t by (auto simp: conn_inv_def phase_def split: option.splits if_splits)

text \<open>Handling a message that has been under way.\<close>

lemma world_inv_message:
  assumes w: "world_inv w" and up: "w_up w p = m # ms" and m: "message_ok m" "NUL \<in> set (m_data m)"
    and run: "process_msg p m ((w_sched w)\<lparr>kern := k\<rparr>) = Inr s'" and s': "sched_inv s'"
    and k: "\<And>fd. sent_to fd k = sent_to fd (kern (w_sched w))" and r: "relayed (w_sched w) s' out"
  shows "world_inv (sched_moved s' t' ((w_up w)(p := ms)) out w)"
proof -
  let ?s = "(w_sched w)\<lparr>kern := k\<rparr>" and ?t = "message_type_of (m_type m)"
  have i: "sched_inv ?s" "scheduler_on ?s" "mem_inv (w_sched w)" using w by (simp_all add: world_inv_def sched_inv_def)
  have conn: "conn_inv (w_sched w) q (w_app w q) (w_up w q) (w_down w q)" for q using w by (simp add: world_inv_def)
  obtain c where c: "heap ?s p = Some c" "?t = Some REQ_LOCK \<or> ?t = Some LOCK_RELEASED \<Longrightarrow> has_registered c"
    "?t = Some REGISTER \<Longrightarrow> \<not> has_registered c" "?t \<in> {Some REQ_LOCK, Some LOCK_RELEASED, Some REGISTER, Some SET_TQ, Some SCHED_ON}"
    using conn_inv_first [of "w_sched w" p "w_app w p" m ms "w_down w p"] conn [of p] up by auto
  have eff: "if ?t = Some REGISTER then welcomed p ?s s'
      else dealt (if ?t = Some REQ_LOCK then {p} else {}) (if ?t = Some LOCK_RELEASED then {p} else {}) ?s s'"
    by (rule wp_D [OF wp_process_dealt [OF i(1,2) c(1) m refl] run]) (use c in auto)
  show ?thesis
  proof (cases "?t = Some REGISTER")
    case True
    with eff have "welcomed p (w_sched w) s'" by (simp add: welcomed_kern k)
    then show ?thesis
      by (rule world_inv_welcomed [OF w _ s' r]) (use c True up in auto)
  next
    case False
    with eff have d: "dealt (if ?t = Some REQ_LOCK then {p} else {}) (if ?t = Some LOCK_RELEASED then {p} else {}) (w_sched w) s'"
      by (simp add: dealt_kern k)
    show ?thesis
    proof (rule world_inv_moved [OF s'])
      show "scheduler_on s'" using w dealtD(1) [OF d] by (simp add: world_inv_def)
      fix q d' assume q: "heap s' q = Some d'"
      show "conn_inv s' q (w_app w q) (((w_up w)(p := ms)) q) (w_down w q @ out q)"
      proof (cases "q = p \<and> (?t = Some REQ_LOCK \<or> ?t = Some LOCK_RELEASED)")
        case True
        then show ?thesis by (intro conn_inv_dealt [OF i(3) d r q conn]) (auto simp: up)
      next
        case other: False
        have "conn_inv (w_sched w) q (w_app w q) (((w_up w)(p := ms)) q) (w_down w q)"
          using conn [of q] conn_inv_control [of "w_sched w" p "w_app w p" m ms] False other c(4) up by (cases "q = p") auto
        then show ?thesis by (rule conn_inv_dealt [OF i(3) d r q]) (use other in auto)
      qed
    qed
  qed
qed

lemma receive_message_quiet:
  assumes "receive_message p s = Inr (r, m, s')"
  shows "\<exists>k. s' = s\<lparr>kern := k\<rparr> \<and> (\<forall>fd. sent_to fd k = sent_to fd (kern s))"
proof (cases "heap s p")
  case None
  with assms show ?thesis by (simp add: receive_message_def deref_def)
next
  case (Some c)
  then obtain a k where k: "retry_intr (Sys_read (c_fd c) sizeof_message) (kern s) = Inr (a, k)" "s' = s\<lparr>kern := k\<rparr>"
    using assms by (auto simp: receive_message_def nvshare_receive_noblock_def bindR_Inr_iff Let_def split: if_splits)
  then show ?thesis using retry_intr_sent [OF k(1)] by auto
qed

lemma world_inv_main:
  assumes w: "world_inv w" and ok: "event_ok lsock ev (w_sched w)" and run: "handle_event lsock ev (w_sched w) = Inr s'"
    and r: "relayed (w_sched w) s' out" and up: "reads lsock ev (w_sched w) (w_up w) up'"
  shows "world_inv (sched_moved s' (w_timer w) up' out w)"
proof -
  let ?s = "w_sched w" and ?p = "ev_data ev"
  have inv: "sched_inv ?s" "mem_inv ?s" and on: "scheduler_on ?s" using w by (simp_all add: world_inv_def sched_inv_def)
  have s': "sched_inv s'" using wp_D [OF wp_handle_event [OF inv(1) ok] run] by simp
  show ?thesis
  proof (cases "data_fd ?p = lsock")
    case True
    then have up: "up' = w_up w" using up by (simp add: reads_def Let_def)
    have "accept_ok lsock ?s" using ok True by (simp add: event_ok_def)
    from wp_D [OF wp_new_connection_dealt [OF inv(2) this], of s'] run True
    have n: "scheduler_on s' = scheduler_on ?s" "requests s' = requests ?s" "lock_held s' = lock_held ?s"
      "\<And>fd. sent_to fd (kern s') = sent_to fd (kern ?s)"
      "\<And>q c. heap s' q = Some c \<Longrightarrow> heap ?s q = Some c \<or> heap ?s q = None \<and> \<not> has_registered c"
      by (auto simp: handle_event_def)
    show ?thesis unfolding up
    proof (rule world_inv_moved [OF s'])
      fix q c assume q: "heap s' q = Some c"
      have "out q = []" by (rule relayed_eq [OF r q]) (simp_all add: n)
      moreover have "conn_inv ?s q (w_app w q) (w_up w q) (w_down w q)" using w by (simp add: world_inv_def)
      moreover have "holder s' = holder ?s" using n by (simp add: holder_def)
      ultimately show "conn_inv s' q (w_app w q) (w_up w q) (w_down w q @ out q)"
        using q n(2) n(5) [OF q] by (auto simp: conn_inv_def phase_def split: option.splits)
    qed (use n on in simp)
  next
    case False
    obtain c where c: "heap ?s ?p = Some c" using ok False by (auto simp: event_ok_def receive_ok_def split: option.splits)
    have gone: ?thesis if "drop_client ?p (?s\<lparr>kern := k\<rparr>) = Inr s'" "\<And>fd. sent_to fd k = sent_to fd (kern ?s)" "up' = w_up w" for k
    proof -
      have "dealt {} {} (?s\<lparr>kern := k\<rparr>) s'" by (rule wp_D [OF wp_leave_dealt that(1)]) (use inv c in auto)
      then have "dealt {} {} ?s s'" using that(2) by (simp add: dealt_kern)
      then show ?thesis unfolding that(3) by (rule world_inv_dealt [OF w _ s' r])
    qed
    show ?thesis
    proof (cases "ev_events ev AND EPOLLIN \<noteq> 0")
      case True
      obtain x m t where rm: "receive_message ?p ?s = Inr (x, m, t)" using run False True
        by (cases "receive_message ?p ?s") (auto simp: handle_event_def client_event_def)
      obtain k where k: "t = ?s\<lparr>kern := k\<rparr>" "\<And>fd. sent_to fd k = sent_to fd (kern ?s)"
        using receive_message_quiet [OF rm] by auto
      show ?thesis
      proof (cases "x < 0")
        case True
        with run False \<open>ev_events ev AND EPOLLIN \<noteq> 0\<close> rm k up show ?thesis
          by (intro gone [of k]) (auto simp: handle_event_def client_event_def reads_def Let_def)
      next
        case good: False
        have "receive_ok ?p ?s" using ok False by (simp add: event_ok_def)
        with receive_message_cases [OF c] rm good have m: "message_ok m" "NUL \<in> set (m_data m)" by auto
        obtain ms where ms: "w_up w ?p = m # ms" "up' = (w_up w)(?p := ms)"
          using up False True rm good by (auto simp: reads_def Let_def)
        have "process_msg ?p m (?s\<lparr>kern := k\<rparr>) = Inr s'"
          using run False True rm good k by (simp add: handle_event_def client_event_def)
        then show ?thesis unfolding ms(2) by (rule world_inv_message [OF w ms(1) m _ s' k(2) r])
      qed
    next
      case no_in: False
      then have up: "up' = w_up w" using up by (simp add: reads_def Let_def)
      have "dealt {} {} ?s ?s" by (simp add: dealt_same)
      then show ?thesis using run False no_in gone [of "kern ?s"] up world_inv_dealt [OF w _ s' r]
        by (auto simp: handle_event_def client_event_def split: if_splits)
    qed
  qed
qed

lemma world_inv_timer:
  assumes w: "world_inv w" and run: "timer_wake r now (w_sched w, w_timer w) = Inr (s', t')" and r: "relayed (w_sched w) s' out"
  shows "world_inv (sched_moved s' t' (w_up w) out w)"
proof -
  have inv: "sched_inv (w_sched w)" using w by (simp add: world_inv_def)
  have s': "sched_inv s'" using wp_D [OF wp_timer_wake [OF inv] run] by simp
  have "dealt {} {} (w_sched w) s' \<or> warned (w_sched w) s'" using wp_D [OF wp_timer_dealt [OF inv] run] by simp
  then show ?thesis using world_inv_dealt [OF w _ s' r] world_inv_warned [OF w _ s' r] by blast
qed

section \<open>Steps of the applications\<close>

lemma wire_kind [simp]:
  "message_type_of (m_type (wire a Req)) = Some REQ_LOCK" "message_type_of (m_type (wire a Rel)) = Some LOCK_RELEASED"
  by (simp_all add: wire_def message_type_of_Some del: message_type_code.simps)

lemma acts_wrote:
  assumes "acts f a a'" "wrote ms a a'" "list_all message_ok ms"
  shows "ms = map (wire a) (snd (f (lc_abs a)))"
  using assms by (intro wrote_eq [of ms a a']) (auto simp: acts_def list_all_iff)

lemma acts_flags:
  assumes "acts f a a'"
  shows "a_scheduler_on a' = lc_on (fst (f (lc_abs a)))" "a_own_lock a' = lc_own (fst (f (lc_abs a)))"
    "a_need_lock a' = lc_need (fst (f (lc_abs a)))" "app_ok a'"
proof -
  have "fst (f (lc_abs a)) = lc_abs a'" using assms by (simp add: acts_def)
  then show "a_scheduler_on a' = lc_on (fst (f (lc_abs a)))" "a_own_lock a' = lc_own (fst (f (lc_abs a)))"
    "a_need_lock a' = lc_need (fst (f (lc_abs a)))" by (simp_all add: lc_abs_def)
  show "app_ok a'" using assms by (simp add: acts_def)
qed

lemma conn_inv_want:
  assumes i: "conn_inv s p (Some a) up dn" and act: "acts lc_want a a'" and w: "wrote ms a a'" "list_all message_ok ms"
  shows "conn_inv s p (Some a') (up @ ms) dn"
  using i acts_flags [OF act] acts_wrote [OF act w]
  by (auto simp: conn_inv_def lc_want_def lc_abs_def phase_def split: option.splits if_splits)

lemma conn_inv_early:
  assumes i: "conn_inv s p (Some a) up dn" and act: "acts lc_early a a' \<or> acts (\<lambda>c. (c, [])) a a'"
    and w: "wrote ms a a'" "list_all message_ok ms"
  shows "conn_inv s p (Some a') (up @ ms) dn"
  using act
proof
  assume act: "acts lc_early a a'"
  show ?thesis using i acts_flags [OF act] acts_wrote [OF act w]
    by (auto simp: conn_inv_def lc_early_def lc_abs_def phase_def split: option.splits if_splits)
next
  assume act: "acts (\<lambda>c. (c, [])) a a'"
  show ?thesis using i acts_flags [OF act] acts_wrote [OF act w]
    by (auto simp: conn_inv_def lc_abs_def split: option.splits)
qed

lemma conn_inv_receive:
  assumes i: "conn_inv s p (Some a) up (m # dn)" and act: "acts (lc_recv (message_type_of (m_type m))) a a'"
    and w: "wrote ms a a'" "list_all message_ok ms"
  shows "conn_inv s p (Some a') (up @ ms) dn"
proof -
  have "message_type_of (m_type m) = Some LOCK_OK \<or> message_type_of (m_type m) = Some DROP_LOCK"
    using i by (auto simp: conn_inv_def split: option.splits)
  then show ?thesis
  proof
    assume t: "message_type_of (m_type m) = Some LOCK_OK"
    show ?thesis using i acts_flags [OF act] acts_wrote [OF act w] t
      by (auto simp: conn_inv_def lc_recv_def lc_abs_def phase_def grants_of_def split: option.splits if_splits)
  next
    assume t: "message_type_of (m_type m) = Some DROP_LOCK"
    show ?thesis using i acts_flags [OF act] acts_wrote [OF act w] t
      by (auto simp: conn_inv_def lc_recv_def lc_abs_def phase_def grants_of_def split: option.splits if_splits)
  qed
qed

lemma client_ready_on:
  assumes "client_ready m a = Inr b" "message_type_of (m_type m) = Some SCHED_ON"
  shows "a_scheduler_on b \<and> \<not> a_own_lock b \<and> \<not> a_need_lock b \<and> a_out_msg b = zero_message\<lparr>m_id := a_client_id b\<rparr>"
  using assms by (auto simp: client_ready_def initial_status_def bindR_Inr_iff split: if_splits option.splits)

lemma conn_inv_start:
  assumes i: "conn_inv s p None up (m # dn)" and b: "client_ready m a = Inr b"
  shows "conn_inv s p (Some (b\<lparr>a_req_lock_msg := zero_message\<lparr>m_type := message_type_code REQ_LOCK, m_id := a_client_id b\<rparr>\<rparr>)) up dn"
proof -
  have "message_type_of (m_type m) = Some SCHED_ON" using i by (auto simp: conn_inv_def split: option.splits if_splits)
  from client_ready_on [OF b this] show ?thesis using i
    by (auto simp: conn_inv_def phase_def grants_of_def app_ok_def zero_message_def split: option.splits if_splits)
qed

lemma world_inv_app:
  assumes "world_inv w" "conn_inv (w_sched w) p (Some a) (w_up w p @ ms) dn"
  shows "world_inv (app_moved p a ms dn w)"
  using assms by (auto simp: world_inv_def app_moved_def)

lemma world_inv_up:
  assumes "world_inv w" "conn_inv (w_sched w) p (w_app w p) up (w_down w p)"
  shows "world_inv (w\<lparr>w_up := (w_up w)(p := up)\<rparr>)"
  using assms by (auto simp: world_inv_def)

text \<open>New answers of the environment change nothing that the invariants speak of.\<close>

lemma resupplied_sel [simp]:
  "heap (resupplied as ms rs st s) = heap s" "clients (resupplied as ms rs st s) = clients s"
  "requests (resupplied as ms rs st s) = requests s" "lock_held (resupplied as ms rs st s) = lock_held s"
  "scheduler_on (resupplied as ms rs st s) = scheduler_on s" "holder (resupplied as ms rs st s) = holder s"
  "sent_to fd (kern (resupplied as ms rs st s)) = sent_to fd (kern s)" "no_idle (resupplied as ms rs st s) = no_idle s"
  by (simp_all add: resupplied_def holder_def sent_to_def no_idle_def)

lemma resupplied_inv:
  assumes "sched_inv s" "\<forall>q c. Some (q, c) \<in> set ms \<longrightarrow> client_ok c" "\<forall>p c q. heap s p = Some c \<longrightarrow> c_fd c \<noteq> st q"
  shows "sched_inv (resupplied as ms rs st s)"
  using assms by (auto simp: sched_inv_def mem_inv_def resupplied_def)

lemma resupplied_conn [simp]: "conn_inv (resupplied as ms rs st s) = conn_inv s"
  by (intro ext) (simp add: conn_inv_def phase_def cong: option.case_cong)

lemma reequipped_sel [simp]:
  "a_own_lock (reequipped as ds a) = a_own_lock a" "a_need_lock (reequipped as ds a) = a_need_lock a"
  "a_scheduler_on (reequipped as ds a) = a_scheduler_on a" "app_ok (reequipped as ds a) = app_ok a"
  by (simp_all add: reequipped_def app_ok_def)

lemma reequipped_conn [simp]: "conn_inv s p (map_option (reequipped as ds) ao) up dn = conn_inv s p ao up dn"
  by (cases ao) (simp_all add: conn_inv_def split: option.split)

lemma world_inv_step: "world_step w w' \<Longrightarrow> world_inv w \<Longrightarrow> world_inv w'"
proof (induction rule: world_step.induct)
  case (main lsock ev w s' out up')
  then show ?case by (intro world_inv_main) auto
next
  case (timer r now w s' t' out)
  then show ?case by (intro world_inv_timer) auto
next
  case (want w p a fin a' ms)
  then have i: "conn_inv (w_sched w) p (Some a) (w_up w p) (w_down w p)" using world_inv_conn [of w p] by simp
  then have "app_ok a" by (auto simp: conn_inv_def split: option.splits)
  with want.hyps(2) have "acts lc_want a a'"
    using post_D [OF continue_with_lock_acts] post_D [OF cwl_resume_acts] by fastforce
  then show ?case using want i by (intro world_inv_app conn_inv_want)
next
  case (receive w p a m dn a' ms)
  then have i: "conn_inv (w_sched w) p (Some a) (w_up w p) (m # dn)" using world_inv_conn [of w p] by simp
  then have "app_ok a" by (auto simp: conn_inv_def split: option.splits)
  with receive.hyps(3) have "acts (lc_recv (message_type_of (m_type m))) a a'"
    using post_D [OF client_handle_acts] by blast
  then show ?case using receive i by (intro world_inv_app conn_inv_receive)
next
  case (early w p a r t0 t1 now e a' e' ms)
  then have i: "conn_inv (w_sched w) p (Some a) (w_up w p) (w_down w p)" using world_inv_conn [of w p] by simp
  then have "app_ok a" by (auto simp: conn_inv_def split: option.splits)
  with early.hyps(2) have "acts lc_early a a' \<or> acts (\<lambda>c. (c, [])) a a'"
    using post_D [OF release_wake_acts] by fastforce
  then show ?case using early i by (intro world_inv_app conn_inv_early)
next
  case (join w p c m)
  then have "conn_inv (w_sched w) p (w_app w p) (w_up w p) (w_down w p)" using world_inv_conn by blast
  with join.hyps have "conn_inv (w_sched w) p (w_app w p) [m] (w_down w p)" by (auto simp: conn_inv_def split: option.splits)
  with join.prems show ?case by (rule world_inv_up)
next
  case (start w p m dn a b)
  then have "conn_inv (w_sched w) p None (w_up w p) (m # dn)" using world_inv_conn [of w p] by simp
  from conn_inv_start [OF this start.hyps(3)] start.prems show ?case by (intro world_inv_app) simp_all
next
  case (control w p c m)
  then have "conn_inv (w_sched w) p (w_app w p) (w_up w p) (w_down w p)" using world_inv_conn by blast
  with control.hyps have "conn_inv (w_sched w) p (w_app w p) (w_up w p @ [m]) (w_down w p)"
    by (auto simp: conn_inv_def list_all_iff split: option.splits)
  with control.prems show ?case by (rule world_inv_up)
next
  case (refill ms w st as rs bs ds)
  then show ?case using resupplied_inv by (simp add: world_inv_def)
qed

section \<open>Reachable worlds\<close>

text \<open>The scheduler has started, its timer thread has armed the timer, and nobody is connected.\<close>

definition world_start :: "timespec \<Rightarrow> sched \<Rightarrow> world" where
  "world_start n s = \<lparr>w_sched = fst (timer_start n s), w_timer = snd (timer_start n s), w_app = (\<lambda>_. None),
     w_up = (\<lambda>_. []), w_down = (\<lambda>_. [])\<rparr>"

definition world_reach :: "world \<Rightarrow> bool" where
  "world_reach w \<longleftrightarrow> (\<exists>path k ms rs st lsock s n.
     sched_main path (sched_globals\<lparr>kern := k, mallocs := ms, rands := rs, stale := st\<rparr>) = Inr (lsock, s)
     \<and> (\<forall>p c. Some (p, c) \<in> set ms \<longrightarrow> client_ok c) \<and> world_step\<^sup>*\<^sup>* (world_start n s) w)"

lemma world_inv_start: "sched_inv s \<Longrightarrow> scheduler_on s \<Longrightarrow> clients s = [] \<Longrightarrow> world_inv (world_start n s)"
  by (auto simp: world_inv_def world_start_def timer_start_def timer_arm_def conn_inv_def sched_inv_def
      dest: mem_invD(2) split: option.splits)

lemma world_no_idle_main:
  assumes w: "world_inv w" "no_idle (w_sched w)" and ok: "event_ok lsock ev (w_sched w)"
    and run: "handle_event lsock ev (w_sched w) = Inr s'" and up: "reads lsock ev (w_sched w) (w_up w) up'"
  shows "no_idle s'"
proof -
  let ?s = "w_sched w" and ?p = "ev_data ev"
  have inv: "sched_inv ?s" using w by (simp add: world_inv_def)
  have "event_label lsock ev ?s \<noteq> Expel q" for q
  proof
    assume e: "event_label lsock ev ?s = Expel q"
    then obtain x m t where m: "receive_message ?p ?s = Inr (x, m, t)" "\<not> x < 0" "msg_event ?s ?p m = Expel q"
      "data_fd ?p \<noteq> lsock" "ev_events ev AND EPOLLIN \<noteq> 0"
      by (auto simp: event_label_def Let_def split: if_splits sum.splits prod.splits)
    then obtain ms where "w_up w ?p = m # ms" using up by (auto simp: reads_def Let_def)
    with conn_inv_first [of ?s ?p "w_app w ?p" m ms "w_down w ?p"] world_inv_conn [OF w(1), of ?p] m(3) show False
      by (auto simp: msg_event_def registered_at_def split: option.splits message_type.splits if_splits)
  qed
  then show ?thesis
    using lm_step_no_idle [OF conjunct2 [OF wp_D [OF wp_handle_event [OF inv ok] run]] lm_ok_abs [OF inv]] w(2)
    by (simp add: no_idle_abs holder_abs)
qed

lemma world_no_idle_timer:
  assumes inv: "sched_inv s" and idle: "no_idle s" and run: "timer_wake r now (s, t) = Inr (s', t')"
  shows "no_idle s'"
proof -
  have w: "woken r s t s' t'" using wp_D [OF wp_timer_wake [OF inv] run] by simp
  have "no_idle s'" if "lm_step (lm_abs s) (Leave p) (lm_abs s')" for p
    using lm_step_no_idle [OF that lm_ok_abs [OF inv]] idle by (simp add: no_idle_abs)
  with w idle show ?thesis by (auto simp: woken_def Let_def no_idle_def split: if_splits)
qed

lemma world_step_sched:
  assumes "world_step w w'" "world_inv w" "no_idle (w_sched w)"
  shows "world_inv w' \<and> no_idle (w_sched w')"
proof
  show "world_inv w'" using world_inv_step assms by blast
  have inv: "sched_inv (w_sched w)" using assms(2) by (simp add: world_inv_def)
  show "no_idle (w_sched w')"
    using assms
  proof (cases rule: world_step.cases)
    case (main lsock ev s' out up')
    then show ?thesis using world_no_idle_main [OF assms(2,3)] by (simp add: sched_moved_def)
  next
    case (timer r now s' t' out)
    then show ?thesis using world_no_idle_timer [OF inv assms(3)] by (simp add: sched_moved_def)
  qed (simp_all add: app_moved_def)
qed

lemma world_reach_inv: "world_reach w \<Longrightarrow> world_inv w \<and> no_idle (w_sched w)"
proof -
  assume "world_reach w"
  then obtain path k ms rs st lsock s n where
    m: "sched_main path (sched_globals\<lparr>kern := k, mallocs := ms, rands := rs, stale := st\<rparr>) = Inr (lsock, s)"
      "\<And>p c. Some (p, c) \<in> set ms \<Longrightarrow> client_ok c" and steps: "world_step\<^sup>*\<^sup>* (world_start n s) w"
    by (auto simp: world_reach_def)
  have "sched_inv s \<and> no_idle s \<and> scheduler_on s \<and> clients s = []" using sched_boot [OF m(1)] m(2) by blast
  then have "world_inv (world_start n s) \<and> no_idle (w_sched (world_start n s))"
    using world_inv_start by (auto simp: world_start_def timer_start_def timer_arm_def no_idle_def)
  with steps show ?thesis by (induction rule: rtranclp_induct) (use world_step_sched in blast)+
qed

end
