(* ===== verification/System_Props.thy ===== *)
theory System_Props
  imports System
begin

text \<open>
  What the whole system guarantees: mutual exclusion on the GPU, and that no request is
  forgotten.
\<close>

section \<open>An example\<close>

text \<open>
  The scheduler starts with the listening socket 6; a client connects on the descriptor 7, registers,
  asks for the lock, is granted it and takes it.
\<close>

definition ok_ret :: "int \<Rightarrow> sysret" where
  "ok_ret r = \<lparr>ret = r, err = 0, bytes = []\<rparr>"

definition junk :: nvshare_client where
  "junk = ex_client 0 0"

definition ex_dawn :: "sysret list \<Rightarrow> sched" where
  "ex_dawn as = sched_globals\<lparr>kern := \<lparr>answers = map ok_ret [0, 0, 5, 6, 0, 0, 0, 0, 0] @ as, calls = []\<rparr>,
     mallocs := [Some (1, junk), Some (2, junk)], rands := [0, 0, 9], stale := (\<lambda>_. - 1)\<rparr>"

lemma ex_dawn_runs:
  "\<exists>s. sched_main (replicate NVSHARE_SOCK_PATH_MAX NUL) (ex_dawn as) = Inr (6, s)
     \<and> (\<exists>cs. s = (ex_dawn as)\<lparr>scheduler_on := True, tq := 30, kern := \<lparr>answers = as, calls = cs\<rparr>, out_msg := zero_message\<lparr>m_id := 7331\<rparr>\<rparr>)"
proof -
  obtain path where p: "nvshare_get_scheduler_path (replicate NVSHARE_SOCK_PATH_MAX NUL) = Inr (0, path)" "NUL \<in> set path"
    using nvshare_get_scheduler_path_eq [of "replicate NVSHARE_SOCK_PATH_MAX NUL"] by auto
  have "\<exists>b n. strlcpy (replicate NVSHARE_SOCK_PATH_MAX NUL) path NVSHARE_SOCK_PATH_MAX = Inr (b, n)"
    using strlcpy_string [OF p(2), of NVSHARE_SOCK_PATH_MAX "replicate NVSHARE_SOCK_PATH_MAX NUL"]
    by (simp add: Let_def NVSHARE_SOCK_PATH_MAX_def)
  with p(1) show ?thesis
    by (auto simp: sched_main_def ex_dawn_def ok_ret_def sched_globals_def sys_def nvshare_bind_and_listen_def
        nvshare_unix_bind_def Let_def NVSHARE_DEFAULT_TQ_def)
qed

definition carries :: "message \<Rightarrow> sysret" where
  "carries m = \<lparr>ret = int sizeof_message, err = 0, bytes = encode_message m\<rparr>"

definition ex_req :: message where
  "ex_req = zero_message\<lparr>m_type := message_type_code REQ_LOCK, m_id := 9\<rparr>"

lemma ex_req_ok [simp]: "message_ok ex_req" "message_type_of (m_type ex_req) = Some REQ_LOCK" "NUL \<in> set (m_data ex_req)"
  by (simp_all add: ex_req_def message_type_of_Some del: message_type_code.simps) (simp add: zero_message_def msg_sizes)

lemma receives_carries:
  "answers k = carries m # as \<Longrightarrow> message_ok m \<Longrightarrow> nvshare_receive_noblock fd 537 k =
     Inr (carries m, encode_message m, k\<lparr>answers := as, calls := calls k @ [(Sys_read fd 537, carries m)]\<rparr>)"
  by (simp add: nvshare_receive_noblock_def interrupted_def carries_def zero_fill_def Let_def)

text \<open>The scheduler after its start, and after the client has connected.\<close>

definition ex_up :: "sysret list \<Rightarrow> (syscall \<times> sysret) list \<Rightarrow> sched" where
  "ex_up as cs = (ex_dawn as)\<lparr>scheduler_on := True, tq := 30, kern := \<lparr>answers = as, calls = cs\<rparr>,
     out_msg := zero_message\<lparr>m_id := 7331\<rparr>\<rparr>"

definition ex_met :: "sysret list \<Rightarrow> (syscall \<times> sysret) list \<Rightarrow> sched" where
  "ex_met as cs = (ex_up as cs)\<lparr>heap := [1 \<mapsto> junk\<lparr>c_fd := 7, c_id := NVSHARE_UNREGISTERED_ID\<rparr>], clients := [1],
     mallocs := [Some (2, junk)]\<rparr>"

lemma ex_accept: "\<exists>cs'. handle_event 6 (ex_event 6) (ex_up (ok_ret 7 # ok_ret 0 # as) cs) = Inr (ex_met as cs')"
  by (auto simp: handle_event_def ex_event_def data_fd_def new_connection_def nvshare_accept_def ex_up_def ex_met_def ex_dawn_def
      ok_ret_def interrupted_def Let_def pop_malloc_def sys_def sched_globals_def)

lemma ex_accept_ok: "event_ok 6 (ex_event 6) (ex_up (ok_ret 7 # ok_ret 0 # as) cs)"
  by (simp add: event_ok_def ex_event_def data_fd_def accept_ok_def ex_up_def ex_dawn_def sched_globals_def ok_ret_def interrupted_def Let_def)

lemma ex_register:
  "\<exists>s c. handle_event 6 (ex_event 1) (ex_met (carries (ex_msg REGISTER) # taken # as) cs) = Inr s \<and> heap s 1 = Some c \<and> dom (heap s) = {1} \<and> clients s = [1] \<and> c_id c = 9
     \<and> c_fd c = 7 \<and> requests s = [] \<and> \<not> lock_held s \<and> scheduler_on s \<and> mallocs s = [Some (2, junk)] \<and> answers (kern s) = as"
proof -
  have "NUL \<in> set (drop (Suc 0) (encode_message (ex_msg REGISTER)))" "NUL \<in> set (drop (Suc POD_NAME_LEN_MAX) (encode_message (ex_msg REGISTER)))"
    by (simp_all add: encode_message_def ex_msg_def zero_message_def msg_sizes drop_Cons' del: le_bytes.simps)
  note cp = strlcpy_string [OF this(1)] strlcpy_string [OF this(2)]
  show ?thesis
    using cp
    by (simp add: ex_met_def ex_up_def ex_dawn_def register_client_def sched_globals_def ex_simps has_registered_def pick_id.simps
        nvshare_generate_id_eq snprintf_def length_show_016x junk_def ex_client_def msg_sizes receives_carries carries_def [of "ex_msg REGISTER"])
qed

lemma ex_event_ok_client:
  assumes "heap s 1 = Some c" "answers (kern s) = carries m # as" "message_ok m" "NUL \<in> set (m_data m)"
  shows "event_ok 6 (ex_event 1) s"
  using assms receives_carries [of "kern s" m as "c_fd c"]
  by (simp add: event_ok_def ex_event_def receive_ok_def decode_encode_message)

lemma ex_receives:
  assumes "heap s 1 = Some c" "answers (kern s) = carries m # as" "message_ok m"
  shows "\<exists>s'. receive_message 1 s = Inr (0, m, s')"
  using assms receives_carries [of "kern s" m as "c_fd c"]
  by (simp add: receive_message_def decode_encode_message carries_def Let_def)

lemma ex_request:
  assumes "heap s 1 = Some c" "has_registered c" "requests s = []" "\<not> lock_held s" "scheduler_on s"
    "mallocs s = [Some (2, junk)]" "answers (kern s) = carries ex_req # taken # as"
  shows "\<exists>s'. handle_event 6 (ex_event 1) s = Inr s' \<and> requests s' = [1] \<and> lock_held s' \<and> heap s' = heap s
    \<and> clients s' = clients s \<and> scheduler_on s' \<and> answers (kern s') = as"
proof -
  have "message_type_of (m_type ex_req) = Some REQ_LOCK" by simp
  with assms show ?thesis
    by (simp add: ex_simps(1-3) receive_message_def process_msg_def decode_encode_message EPOLLIN_def deref_def set_out_type_def
        send_message_def nvshare_send_noblock_def taken_def interrupted_def Let_def carries_def [of ex_req]
        insert_req_def pop_malloc_def try_schedule.simps receives_carries [where m = ex_req, unfolded carries_def])
qed

text \<open>What was sent, as messages.\<close>

lemma relayed_dealt:
  assumes "mem_inv s" "dealt A D s s'"
  shows "relayed s s' (\<lambda>p. if holder s' = Some p \<and> holder s \<noteq> Some p then [lock_ok_msg s] else [])"
  using mem_invD(5) [OF assms(1)] dealtD(5) [OF assms(2)]
  by (auto simp: relayed_def lock_ok_msg_def message_ok_def)

lemma relayed_welcomed:
  assumes "mem_inv s" "welcomed p s s'" "heap s' p = Some c"
  shows "relayed s s' (\<lambda>q. if q = p then [id_msg (c_id c) s] else [])"
  using mem_invD(5) [OF assms(1)] assms(2,3) id_msg_ok
  by (auto simp: relayed_def welcomed_def)

lemma world_reach_step: "world_reach w \<Longrightarrow> world_step w w' \<Longrightarrow> world_reach w'"
  unfolding world_reach_def by (blast intro: rtranclp.rtrancl_into_rtrancl)

text \<open>A delivery of the message that is first under way is a step, whatever the scheduler sends in reply.\<close>

lemma ex_deliver:
  assumes reach: "world_reach w" and up: "w_up w 1 = m # ms" and m: "message_ok m" "NUL \<in> set (m_data m)" "message_type_of (m_type m) = Some t" and c: "heap (w_sched w) 1 = Some c"
    and as: "answers (kern (w_sched w)) = carries m # as" and run: "handle_event 6 (ex_event 1) (w_sched w) = Inr s'"
  shows "\<exists>out. relayed (w_sched w) s' out \<and> world_reach (sched_moved s' (w_timer w) ((w_up w)(1 := ms)) out w)
    \<and> world_step w (sched_moved s' (w_timer w) ((w_up w)(1 := ms)) out w)
    \<and> (\<forall>c'. t = REGISTER \<and> heap s' 1 = Some c' \<longrightarrow> out 1 = [id_msg (c_id c') (w_sched w)])
    \<and> (t = REQ_LOCK \<and> holder s' = Some 1 \<and> holder (w_sched w) \<noteq> Some 1 \<longrightarrow> out 1 = [lock_ok_msg (w_sched w)])"
proof -
  let ?s = "w_sched w"
  have w: "world_inv w" using world_reach_inv [OF reach] by blast
  then have i: "sched_inv ?s" "mem_inv ?s" "scheduler_on ?s" by (simp_all add: world_inv_def sched_inv_def)
  obtain u where rm: "receive_message 1 ?s = Inr (0, m, u)" using ex_receives [OF c as m(1)] by blast
  obtain k where k: "u = ?s\<lparr>kern := k\<rparr>" "\<And>fd. sent_to fd k = sent_to fd (kern ?s)" using receive_message_quiet [OF rm] by blast
  have first: "conn_inv ?s 1 (w_app w 1) (m # ms) (w_down w 1)" using world_inv_conn [OF w, of 1] up by simp
  have "process_msg 1 (m) (?s\<lparr>kern := k\<rparr>) = Inr s'"
    using run rm k(1) by (simp add: handle_event_def ex_event_def client_event_def EPOLLIN_def)
  then have "if Some t = Some REGISTER then welcomed 1 (?s\<lparr>kern := k\<rparr>) s'
      else dealt (if Some t = Some REQ_LOCK then {1} else {}) (if Some t = Some LOCK_RELEASED then {1} else {}) (?s\<lparr>kern := k\<rparr>) s'"
    by (intro wp_D [OF wp_process_dealt [where c = c]]) (use i c m conn_inv_first [OF first] in auto)
  then have eff: "if t = REGISTER then welcomed 1 ?s s'
      else dealt (if t = REQ_LOCK then {1} else {}) (if t = LOCK_RELEASED then {1} else {}) ?s s'"
    by (cases t) (simp_all add: welcomed_kern dealt_kern k(2))
  have r: "\<exists>out. relayed ?s s' out \<and> (\<forall>c'. t = REGISTER \<and> heap s' 1 = Some c' \<longrightarrow> out 1 = [id_msg (c_id c') ?s])
      \<and> (t = REQ_LOCK \<and> holder s' = Some 1 \<and> holder ?s \<noteq> Some 1 \<longrightarrow> out 1 = [lock_ok_msg ?s])"
  proof (cases "t = REGISTER")
    case True
    then have wel: "welcomed 1 ?s s'" using eff by simp
    show ?thesis
    proof (cases "heap s' 1")
      case None
      have "sent_to (c_fd d) (kern s') = sent_to (c_fd d) (kern ?s)" if "heap s' p = Some d" for p d
        using that wel None unfolding welcomed_def by (cases "p = 1") auto
      then have "relayed ?s s' (\<lambda>_. [])" by (auto simp: relayed_def)
      with None True show ?thesis by auto
    next
      case (Some d)
      with relayed_welcomed [OF i(2) wel Some] True show ?thesis by (intro exI) auto
    qed
  next
    case False
    with eff have "\<exists>A D. dealt A D ?s s'" by auto
    with relayed_dealt [OF i(2)] False show ?thesis by (intro exI) auto
  qed
  then obtain out where out: "relayed ?s s' out" "\<forall>c'. t = REGISTER \<and> heap s' 1 = Some c' \<longrightarrow> out 1 = [id_msg (c_id c') ?s]"
    "t = REQ_LOCK \<and> holder s' = Some 1 \<and> holder ?s \<noteq> Some 1 \<longrightarrow> out 1 = [lock_ok_msg ?s]" by blast
  have "reads 6 (ex_event 1) ?s (w_up w) ((w_up w)(1 := ms))"
    using rm up by (simp add: reads_def ex_event_def Let_def EPOLLIN_def)
  with ex_event_ok_client [OF c as m(1,2)] run out(1) have "world_step w (sched_moved s' (w_timer w) ((w_up w)(1 := ms)) out w)"
    by (intro world_step.main)
  with world_reach_step [OF reach this] out show ?thesis by blast
qed

lemma ex_world_met: "\<exists>w cs. world_reach w \<and> w_sched w = ex_met as cs \<and> w_app w 1 = None \<and> w_up w 1 = [] \<and> w_down w 1 = []"
proof -
  let ?as = "ok_ret 7 # ok_ret 0 # as" and ?n = "\<lparr>tv_sec = 0, tv_nsec = 0\<rparr>"
  obtain cs where boot: "sched_main (replicate NVSHARE_SOCK_PATH_MAX NUL) (ex_dawn ?as) = Inr (6, ex_up ?as cs)"
    using ex_dawn_runs [of ?as] by (auto simp: ex_up_def)
  have "world_reach (world_start ?n (ex_up ?as cs))"
    unfolding world_reach_def using boot
    by (intro exI [of _ "replicate NVSHARE_SOCK_PATH_MAX NUL"] exI [of _ "kern (ex_dawn ?as)"] exI [of _ "[Some (1, junk), Some (2, junk)]"]
        exI [of _ "[0, 0, 9]"] exI [of _ "\<lambda>_. - 1"] exI [of _ 6] exI [of _ "ex_up ?as cs"] exI [of _ ?n])
      (auto simp: ex_dawn_def junk_def)
  moreover have s: "w_sched (world_start ?n (ex_up ?as cs)) = ex_up ?as cs"
    by (simp add: world_start_def timer_start_def timer_arm_def ex_up_def ex_dawn_def sched_globals_def)
  moreover obtain cs' where run: "handle_event 6 (ex_event 6) (ex_up ?as cs) = Inr (ex_met as cs')" using ex_accept by blast
  moreover have "mem_inv (ex_up ?as cs)"
    using world_reach_inv [OF calculation(1)] s by (simp add: world_inv_def sched_inv_def)
  then have "relayed (ex_up ?as cs) (ex_met as cs') (\<lambda>_. [])"
    using wp_D [OF wp_new_connection_dealt, of "ex_up ?as cs" 6 "ex_met as cs'"] ex_accept_ok [of as cs] run
    by (simp add: relayed_def event_ok_def ex_event_def data_fd_def handle_event_def)
  moreover have "reads 6 (ex_event 6) (ex_up ?as cs) up up" for up
    by (simp add: reads_def ex_event_def data_fd_def)
  ultimately have "world_step (world_start ?n (ex_up ?as cs))
      (sched_moved (ex_met as cs') (w_timer (world_start ?n (ex_up ?as cs))) (w_up (world_start ?n (ex_up ?as cs))) (\<lambda>_. []) (world_start ?n (ex_up ?as cs)))"
    using ex_accept_ok [of as cs] by (intro world_step.main [of 6 "ex_event 6"]) simp_all
  from world_reach_step [OF \<open>world_reach (world_start ?n (ex_up ?as cs))\<close> this] show ?thesis
    by (intro exI conjI, assumption) (simp_all add: sched_moved_def world_start_def)
qed

text \<open>The client has registered and started.\<close>

definition ex_ready :: "sysret list \<Rightarrow> world \<Rightarrow> app \<Rightarrow> nvshare_client \<Rightarrow> bool" where
  "ex_ready as w b c \<longleftrightarrow> world_reach w \<and> w_app w 1 = Some b \<and> \<not> a_own_lock b \<and> \<not> a_need_lock b \<and> a_cuda_ctx_ok b
     \<and> answers (a_kern b) = [wrote_all] \<and> a_client_id b = 9 \<and> w_up w 1 = [] \<and> w_down w 1 = [] \<and> heap (w_sched w) = [1 \<mapsto> c] \<and> clients (w_sched w) = [1] \<and> has_registered c
     \<and> requests (w_sched w) = [] \<and> \<not> lock_held (w_sched w) \<and> scheduler_on (w_sched w)
     \<and> mallocs (w_sched w) = [Some (2, junk)] \<and> answers (kern (w_sched w)) = carries ex_req # taken # as"

lemma ex_world_started: "\<exists>w b c. ex_ready as w b c"
proof -
  let ?as = "carries (ex_msg REGISTER) # taken # carries ex_req # taken # as" and ?a = "ex_app False [wrote_all] []"
  obtain w cs where w: "world_reach w" "w_sched w = ex_met ?as cs" "w_app w 1 = None" "w_up w 1 = []" "w_down w 1 = []"
    using ex_world_met by blast
  let ?w1 = "w\<lparr>w_up := (w_up w)(1 := [ex_msg REGISTER])\<rparr>"
  have h: "heap (w_sched w) 1 = Some (junk\<lparr>c_fd := 7, c_id := NVSHARE_UNREGISTERED_ID\<rparr>)" using w(2) by (simp add: ex_met_def)
  have kind: "message_type_of (m_type (ex_msg REGISTER)) = Some REGISTER" by (simp add: message_type_of_Some del: message_type_code.simps)
  have "world_step w ?w1" by (rule world_step.join [OF h]) (use w kind in \<open>simp_all add: has_registered_def\<close>)
  then have w1: "world_reach ?w1" by (rule world_reach_step [OF w(1)])
  obtain s c where s: "handle_event 6 (ex_event 1) (w_sched ?w1) = Inr s" "heap s 1 = Some c" "dom (heap s) = {1}" "clients s = [1]" "c_id c = 9" "requests s = []"
    "\<not> lock_held s" "scheduler_on s" "mallocs s = [Some (2, junk)]" "answers (kern s) = carries ex_req # taken # as"
    using ex_register [of "carries ex_req # taken # as" cs] w(2) by auto
  have "answers (kern (w_sched ?w1)) = carries (ex_msg REGISTER) # taken # carries ex_req # taken # as"
    using w(2) by (simp add: ex_met_def ex_up_def)
  from ex_deliver [OF w1 _ ex_msg_ok(1,3) kind _ this s(1)] h obtain out where
    w2: "world_reach (sched_moved s (w_timer w) ((w_up ?w1)(1 := [])) out ?w1)" and out: "out 1 = [id_msg 9 (w_sched w)]"
    using s(2,5) by auto
  have hs: "heap s = [1 \<mapsto> c]" using s(2,3) by (auto simp: fun_eq_iff domIff)
  let ?w2 = "sched_moved s (w_timer w) ((w_up ?w1)(1 := [])) out ?w1" and ?m = "id_msg 9 (w_sched w)"
  have on: "scheduler_on (w_sched w)" using w(2) by (simp add: ex_met_def ex_up_def)
  have "\<exists>b. client_ready ?m ?a = Inr b \<and> \<not> a_own_lock b \<and> \<not> a_need_lock b \<and> a_cuda_ctx_ok b \<and> answers (a_kern b) = [wrote_all]
      \<and> a_client_id b = 9"
    using on by (simp add: client_ready_def initial_status_def message_type_of_def id_msg_def sched_status_def sscanf_show_016x
        show_016x_no_NUL ex_app_def)
  then obtain b where b: "client_ready ?m ?a = Inr b" "\<not> a_own_lock b" "\<not> a_need_lock b" "a_cuda_ctx_ok b"
    "answers (a_kern b) = [wrote_all]" "a_client_id b = 9" by blast
  have "w_app ?w2 1 = None" "w_down ?w2 1 = [?m]" using w s(2) out by (simp_all add: sched_moved_def)
  from world_reach_step [OF w2 world_step.start [OF this b(1)]]
  have "ex_ready as (app_moved 1 (b\<lparr>a_req_lock_msg := zero_message\<lparr>m_type := message_type_code REQ_LOCK, m_id := a_client_id b\<rparr>\<rparr>) [] [] ?w2)
      (b\<lparr>a_req_lock_msg := zero_message\<lparr>m_type := message_type_code REQ_LOCK, m_id := a_client_id b\<rparr>\<rparr>) c"
    unfolding ex_ready_def using b s hs by (simp add: app_moved_def sched_moved_def has_registered_def NVSHARE_UNREGISTERED_ID_def)
  then show ?thesis by blast
qed

text \<open>It asks for the lock.\<close>

lemma ex_world_asking:
  "\<exists>w a c. world_reach w \<and> w_app w 1 = Some a \<and> a_need_lock a \<and> w_up w 1 = [ex_req] \<and> w_down w 1 = [] \<and> heap (w_sched w) = [1 \<mapsto> c] \<and> clients (w_sched w) = [1] \<and> has_registered c
     \<and> requests (w_sched w) = [] \<and> \<not> lock_held (w_sched w) \<and> scheduler_on (w_sched w)
     \<and> mallocs (w_sched w) = [Some (2, junk)] \<and> answers (kern (w_sched w)) = carries ex_req # taken # as"
proof -
  obtain w b c where r: "ex_ready as w b c" using ex_world_started by blast
  then have w: "world_reach w" "w_app w 1 = Some b" "w_up w 1 = []" by (simp_all add: ex_ready_def)
  have ok: "app_ok b"
    using world_inv_conn [of w 1] world_reach_inv [OF w(1)] w(2) by (auto simp: conn_inv_def split: option.splits)
  have "message_ok (a_req_lock_msg b)" "answers (a_kern (b\<lparr>a_need_lock := True\<rparr>)) = wrote_all # []"
    using ok r by (simp_all add: app_ok_def ex_ready_def)
  from send_whole_once [OF this] obtain k where
    "send_whole (a_req_lock_msg b) (b\<lparr>a_need_lock := True\<rparr>) = Inr (b\<lparr>a_need_lock := True, a_kern := k\<rparr>)" by auto
  then have run: "continue_with_lock b = Inr (False, b\<lparr>a_need_lock := True, a_kern := k\<rparr>)"
    using r by (simp add: continue_with_lock_def get_context_def cwl_resume_def ex_ready_def)
  let ?b = "b\<lparr>a_need_lock := True, a_kern := k\<rparr>"
  have "acts lc_want b ?b" using post_D [OF continue_with_lock_acts [OF ok] run] by simp
  then have "wrote [wire b Req] b ?b" using r by (simp add: acts_def lc_want_def lc_abs_def ex_ready_def)
  moreover have "wire b Req = ex_req" using r by (simp add: wire_def ex_req_def ex_ready_def)
  ultimately have "world_step w (app_moved 1 ?b [ex_req] (w_down w 1) w)"
    using run w(2) by (intro world_step.want) auto
  then have reach: "world_reach (app_moved 1 ?b [ex_req] (w_down w 1) w)" by (rule world_reach_step [OF w(1)])
  show ?thesis
  proof (intro exI conjI)
    show "world_reach (app_moved 1 ?b [ex_req] (w_down w 1) w)" by (rule reach)
    show "w_app (app_moved 1 ?b [ex_req] (w_down w 1) w) 1 = Some ?b" by (simp add: app_moved_def)
    show "heap (w_sched (app_moved 1 ?b [ex_req] (w_down w 1) w)) = [1 \<mapsto> c]" using r by (simp add: app_moved_def ex_ready_def)
  qed (use r in \<open>simp_all add: app_moved_def ex_ready_def\<close>)
qed

text \<open>It is granted the lock and takes it.\<close>

lemma ex_world_granted:
  "\<exists>w w1 w2 b a c. world_reach w \<and> w_app w 1 = Some b \<and> a_need_lock b \<and> w_up w 1 = [ex_req] \<and> w_down w 1 = [] \<and> heap (w_sched w) = [1 \<mapsto> c]
     \<and> world_step w w1 \<and> w_app w1 1 = Some b \<and> w_up w1 1 = [] \<and> length (w_down w1 1) = 1 \<and> heap (w_sched w1) = [1 \<mapsto> c]
     \<and> world_step w1 w2 \<and> w_app w2 1 = Some a \<and> a_own_lock a \<and> w_up w2 1 = [] \<and> w_down w2 1 = [] \<and> heap (w_sched w2) = [1 \<mapsto> c]
     \<and> clients (w_sched w2) = [1] \<and> requests (w_sched w2) = [1] \<and> answers (kern (w_sched w2)) = as"
proof -
  obtain w a c where w: "world_reach w" "w_app w 1 = Some a" "a_need_lock a" "w_up w 1 = [ex_req]" "w_down w 1 = []"
    and c: "heap (w_sched w) = [1 \<mapsto> c]" "clients (w_sched w) = [1]"
    and s: "has_registered c" "requests (w_sched w) = []" "\<not> lock_held (w_sched w)" "scheduler_on (w_sched w)"
      "mallocs (w_sched w) = [Some (2, junk)]" "answers (kern (w_sched w)) = carries ex_req # taken # as"
    using ex_world_asking [of as] by blast
  have h: "heap (w_sched w) 1 = Some c" using c by simp
  obtain s' where s': "handle_event 6 (ex_event 1) (w_sched w) = Inr s'" "requests s' = [1]" "lock_held s'" "heap s' = heap (w_sched w)"
    "clients s' = clients (w_sched w)" "answers (kern s') = as"
    using ex_request [OF h s] by blast
  have "holder s' = Some 1" "holder (w_sched w) \<noteq> Some 1" using s' s by (simp_all add: holder_def)
  then obtain out where w1: "world_step w (sched_moved s' (w_timer w) ((w_up w)(1 := [])) out w)" and out: "out 1 = [lock_ok_msg (w_sched w)]"
    using ex_deliver [OF w(1,4) ex_req_ok(1,3,2) h s(6) s'(1)] by blast
  let ?w1 = "sched_moved s' (w_timer w) ((w_up w)(1 := [])) out w"
  let ?a = "a\<lparr>a_need_lock := False, a_own_lock := True, a_did_work := True,
            a_own_signals := a_own_signals a + 1, a_early_signals := a_early_signals a + 1\<rparr>"
  have f: "w_app ?w1 1 = Some a" "w_up ?w1 1 = []" "w_down ?w1 1 = lock_ok_msg (w_sched w) # []" "w_sched ?w1 = s'"
    using w c s'(4) out by (simp_all add: sched_moved_def)
  have "client_handle (lock_ok_msg (w_sched w)) a = Inr ?a" by (simp add: client_handle_def)
  moreover have "wrote [] a ?a" by (simp add: wrote_def)
  ultimately have w2: "world_step ?w1 (app_moved 1 ?a [] [] ?w1)" using f by (intro world_step.receive) auto
  show ?thesis
    by (intro exI [of _ w] exI [of _ ?w1] exI [of _ "app_moved 1 ?a [] [] ?w1"] exI [of _ a] exI [of _ ?a] exI [of _ c] conjI)
      (use w c w1 w2 f s' in \<open>simp_all add: app_moved_def\<close>)
qed

lemma ex_world_owner: "\<exists>w a. world_reach w \<and> w_app w 1 = Some a \<and> a_own_lock a"
  using ex_world_granted [of "[]"] world_reach_step by metis

section \<open>Properties\<close>

text \<open>
  C1: mutual exclusion on the GPU. In every world that can be reached from the start of the scheduler,
  through any interleaving of the scheduler's threads and the applications' threads with
  messages under way in both directions, an application that owns the lock is the client to which the scheduler
  has granted it, and no other connected application owns the lock.
\<close>

theorem mutual_exclusion:
  assumes "world_reach w" "w_app w p = Some a" "a_own_lock a"
  shows "holder (w_sched w) = Some p \<and> (\<forall>q b. w_app w q = Some b \<and> a_own_lock b \<longrightarrow> q = p)"
proof -
  have "holder (w_sched w) = Some q" if "w_app w q = Some b" "a_own_lock b" for q b
    using world_inv_conn [of w q] world_reach_inv [OF assms(1)] that
    by (auto simp: conn_inv_def phase_def split: option.splits if_splits)
  from this [OF assms(2,3)] this show ?thesis by (metis option.inject)
qed

theorem mutual_exclusion_witness:
  "\<exists>w a. world_reach w \<and> w_app w 1 = Some a \<and> a_own_lock a \<and> holder (w_sched w) = Some 1"
  using ex_world_owner mutual_exclusion by blast

text \<open>
  C2: no request is forgotten, and the lock is never stuck. If an application waits for the lock, then in every reachable world its
  request is under way, or it is in the queue. If it is in the queue, some connected application \<open>q\<close> is
  the holder, and either a LOCK_OK is under way to \<open>q\<close>, or \<open>q\<close> owns the lock, or the release of the lock by \<open>q\<close> is under way.
\<close>

theorem waiting_not_forgotten:
  assumes "world_reach w" "w_app w p = Some a" "a_need_lock a"
  shows "Some REQ_LOCK \<in> set (kinds (w_up w p))
    \<or> (p \<in> set (requests (w_sched w)) \<and> (\<exists>q b. holder (w_sched w) = Some q \<and> w_app w q = Some b
        \<and> (Some LOCK_OK \<in> set (kinds (w_down w q)) \<or> a_own_lock b \<or> Some LOCK_RELEASED \<in> set (kinds (w_up w q)))))"
proof (cases "p \<in> set (requests (w_sched w))")
  case False
  then show ?thesis using world_inv_conn [of w p] world_reach_inv [OF assms(1)] assms(2,3)
    by (auto simp: conn_inv_def phase_def split: option.splits if_splits)
next
  case True
  have inv: "world_inv w" "no_idle (w_sched w)" using world_reach_inv [OF assms(1)] by auto
  then have m: "mem_inv (w_sched w)" "lock_held (w_sched w)" using True by (auto simp: world_inv_def sched_inv_def no_idle_def)
  then obtain q where q: "holder (w_sched w) = Some q" "q \<in> set (requests (w_sched w))"
    using True by (cases "requests (w_sched w)") (auto simp: holder_def)
  obtain c where c: "heap (w_sched w) q = Some c" "has_registered c" using mem_invD(8) [OF m(1) q(2)] by blast
  obtain b where b: "w_app w q = Some b" using world_inv_conn [OF inv(1), of q] c q(2) by (cases "w_app w q") (auto simp: conn_inv_def)
  have "phase (w_sched w) q (kinds (w_up w q)) (grants_of (w_down w q)) (a_own_lock b) (a_need_lock b)"
    using world_inv_conn [OF inv(1), of q] c b by (simp add: conn_inv_def)
  then have "grants_of (w_down w q) = [Some LOCK_OK] \<or> a_own_lock b \<or> Some LOCK_RELEASED \<in> set (kinds (w_up w q))"
    using q by (auto simp: phase_def simp del: set_map split: if_splits)
  moreover have "Some LOCK_OK \<in> set (kinds (w_down w q))" if "grants_of (w_down w q) = [Some LOCK_OK]"
    using arg_cong [OF that, of set] by (auto simp: grants_of_def)
  ultimately show ?thesis using True q b by blast
qed

theorem waiting_not_forgotten_witness:
  "\<exists>w a. world_reach w \<and> w_app w 1 = Some a \<and> a_need_lock a \<and> Some REQ_LOCK \<in> set (kinds (w_up w 1))"
proof -
  obtain w a where w: "world_reach w" "w_app w 1 = Some a" "a_need_lock a" "requests (w_sched w) = []" using ex_world_asking by blast
  from waiting_not_forgotten [OF w(1-3)] w show ?thesis by auto
qed

end
