(* ===== verification/Progress.thy ===== *)
theory Progress
  imports System_Props
begin

text \<open>
  Progress of the whole system on infinite runs, for theory \<open>Starvation\<close>. A waiting application has a rank, which
  says how much is still ahead of it: its own messages under way, its place in the queue, and what the holder of the lock
  has left to do. No step of any thread raises the rank while the application waits, and in a fair run
  the rank cannot stay the same forever.
\<close>

section \<open>One step, seen from one connection\<close>

text \<open>
  A step of the scheduler may read the first message of a connection and may send on it; a step of an
  application may write to its connection and may read the first message sent to it.
\<close>

definition waits :: "world \<Rightarrow> addr \<Rightarrow> bool" where
  "waits w p \<longleftrightarrow> (case w_app w p of None \<Rightarrow> False | Some a \<Rightarrow> a_need_lock a)"

definition owns :: "world \<Rightarrow> addr \<Rightarrow> bool" where
  "owns w p \<longleftrightarrow> (case w_app w p of None \<Rightarrow> False | Some a \<Rightarrow> a_own_lock a)"

lemma waitsE: "waits w p \<Longrightarrow> (\<And>a. w_app w p = Some a \<Longrightarrow> a_need_lock a \<Longrightarrow> P) \<Longrightarrow> P"
  by (auto simp: waits_def split: option.splits)

definition by_sched :: "addr \<Rightarrow> world \<Rightarrow> world \<Rightarrow> bool" where
  "by_sched q w w' \<longleftrightarrow> w_app w' q = w_app w q \<and> (w_up w' q = w_up w q \<or> (\<exists>m. w_up w q = m # w_up w' q))
     \<and> (\<exists>out. w_down w' q = w_down w q @ out)"

definition by_app :: "addr \<Rightarrow> world \<Rightarrow> world \<Rightarrow> bool" where
  "by_app q w w' \<longleftrightarrow>
     (\<exists>ms. w_up w' q = w_up w q @ ms \<and> (waits w q \<longrightarrow> ms = [])) \<and> (waits w q \<longrightarrow> waits w' q \<or> owns w' q)
     \<and> (w_down w' q = w_down w q
        \<or> (\<exists>m. w_down w q = m # w_down w' q \<and> (message_type_of (m_type m) = Some DROP_LOCK \<longrightarrow> \<not> owns w' q)))"

lemma by_appI:
  assumes w: "w_app w p = Some a" "w' = app_moved p a' ms dn w" and a: "acts f a a'" "wrote ms a a'" "list_all message_ok ms"
    and need: "a_need_lock a \<Longrightarrow> snd (f (lc_abs a)) = [] \<and> (lc_need (fst (f (lc_abs a))) \<or> lc_own (fst (f (lc_abs a))))"
    and dn: "dn = w_down w p \<or> (\<exists>m. w_down w p = m # dn
      \<and> (message_type_of (m_type m) = Some DROP_LOCK \<longrightarrow> \<not> lc_own (fst (f (lc_abs a)))))"
  shows "by_app q w w'"
  using assms acts_flags [OF a(1)] acts_wrote [OF a]
  by (auto simp: by_app_def app_moved_def waits_def owns_def split: option.splits)

lemma conn_app_ok: "world_inv w \<Longrightarrow> w_app w p = Some a \<Longrightarrow> app_ok a"
  using world_inv_conn [of w p] by (auto simp: conn_inv_def split: option.splits)

lemma world_step_conn:
  assumes "world_step w w'" "world_inv w" "w_app w q \<noteq> None" "w_app w' q \<noteq> None"
  shows "by_sched q w w' \<or> by_app q w w'"
  using assms
proof (cases rule: world_step.cases)
  case (main lsock ev s' out up')
  have "up' q = w_up w q \<or> (\<exists>m. w_up w q = m # up' q)"
    using main(5) by (auto simp: reads_def Let_def split: if_splits sum.splits)
  then show ?thesis using main(1) assms(4) by (auto simp: by_sched_def sched_moved_def split: if_splits)
next
  case (timer r now s' t' out)
  then show ?thesis using assms(4) by (auto simp: by_sched_def sched_moved_def split: if_splits)
next
  case (want p a fin a' ms)
  have ok: "app_ok a" using conn_app_ok assms(2) want by blast
  have "acts lc_want a a'"
    using want(3) ok post_D [OF continue_with_lock_acts] post_D [OF cwl_resume_acts] by fastforce
  from by_appI [OF want(2,1) this want(4,5)] show ?thesis by (auto simp: lc_want_def lc_abs_def)
next
  case (receive p a m dn a' ms)
  have ok: "app_ok a" using conn_app_ok assms(2) receive by blast
  have act: "acts (lc_recv (message_type_of (m_type m))) a a'"
    using receive(4) ok post_D [OF client_handle_acts] by blast
  have t: "message_type_of (m_type m) = Some LOCK_OK \<or> message_type_of (m_type m) = Some DROP_LOCK"
    using world_inv_conn [OF assms(2), of p] receive by (auto simp: conn_inv_def split: option.splits)
  have "a_need_lock a \<Longrightarrow> \<not> a_own_lock a" using ok by (auto simp: app_ok_def)
  with by_appI [OF receive(2,1) act receive(5,6)] receive(3) t show ?thesis
    by (auto simp: lc_recv_def lc_abs_def)
next
  case (early p a r t0 t1 now e a' e' ms)
  have ok: "app_ok a" using conn_app_ok assms(2) early by blast
  have need: "a_need_lock a \<Longrightarrow> \<not> a_own_lock a" using ok by (auto simp: app_ok_def)
  have "acts lc_early a a' \<or> acts (\<lambda>c. (c, [])) a a'"
    using early(3) ok post_D [OF release_wake_acts] by fastforce
  with by_appI [OF early(2,1) _ early(4,5)] need show ?thesis by (auto simp: lc_early_def lc_abs_def)
next
  case (join p c m)
  then have "q \<noteq> p" using world_inv_conn [OF assms(2), of p] assms(3) by (auto simp: conn_inv_def)
  with join show ?thesis by (simp add: by_sched_def)
next
  case (start p m dn a b)
  with assms(3) have "q \<noteq> p" by auto
  with start show ?thesis by (simp add: by_sched_def app_moved_def)
next
  case (control p c m)
  then have "q \<noteq> p" using world_inv_conn [OF assms(2), of p] assms(3) by (auto simp: conn_inv_def)
  with control show ?thesis by (simp add: by_sched_def)
next
  case (refill ms st as rs bs ds)
  then show ?thesis
    by (cases "w_app w q") (auto simp: by_sched_def by_app_def waits_def owns_def)
qed

lemma world_step_fifo:
  assumes "world_step w w'" "world_inv w"
  shows "\<exists>P new. requests (w_sched w') = filter P (requests (w_sched w)) @ new \<and> set new \<inter> set (requests (w_sched w)) = {}"
proof -
  have inv: "sched_inv (w_sched w)" using assms(2) by (simp add: world_inv_def)
  have same: ?thesis if "requests (w_sched w') = requests (w_sched w)"
    by (intro exI [of _ "\<lambda>_. True"] exI [of _ "[]"]) (simp add: that)
  have lm: ?thesis if "lm_step (lm_abs (w_sched w)) e (lm_abs (w_sched w'))" for e
    using lm_step_fifo [OF that lm_ok_abs [OF inv]] by (simp add: lm_abs_def)
  show ?thesis
    using assms
  proof (cases rule: world_step.cases)
    case (main lsock ev s' out up')
    then show ?thesis using lm wp_D [OF wp_handle_event [OF inv main(2)] main(3)] by (auto simp: sched_moved_def)
  next
    case (timer r now s' t' out)
    have "woken r (w_sched w) (w_timer w) s' t'" using wp_D [OF wp_timer_wake [OF inv] timer(2)] by simp
    then have "(\<exists>p. lm_step (lm_abs (w_sched w)) (Leave p) (lm_abs s')) \<or> requests s' = requests (w_sched w)"
      by (auto simp: woken_def Let_def simp del: lm_step_simps split: if_splits)
    then show ?thesis using timer(1) lm same by (auto simp: sched_moved_def simp del: lm_step_simps)
  qed (rule same, simp add: app_moved_def)+
qed


section \<open>The rank of a waiting application\<close>

text \<open>
  How far the holder is from giving the lock back: a LOCK_OK is under way to it, it owns the lock, it has been told to
  drop the lock, its release is under way. A message under way counts with its place in the stream.
\<close>

abbreviation before :: "'a \<Rightarrow> 'a list \<Rightarrow> nat" where
  "before x xs \<equiv> length (takeWhile (\<lambda>y. y \<noteq> x) xs)"

definition stage :: "world \<Rightarrow> addr \<Rightarrow> nat \<times> nat" where
  "stage w q =
     (if Some LOCK_RELEASED \<in> set (kinds (w_up w q)) then (0, 0)
      else if owns w q then
        (if Some DROP_LOCK \<in> set (kinds (w_down w q)) then (1, before (Some DROP_LOCK) (kinds (w_down w q))) else (2, 0))
      else (3, before (Some LOCK_OK) (kinds (w_down w q))))"

definition rank :: "world \<Rightarrow> addr \<Rightarrow> nat \<times> nat \<times> nat \<times> nat" where
  "rank w p = (let rs = requests (w_sched w) in
     (length (w_up w p), if p \<in> set rs then (before p rs, stage w (hd rs)) else (0, 0, 0)))"

definition lower :: "((nat \<times> nat \<times> nat \<times> nat) \<times> nat \<times> nat \<times> nat \<times> nat) set" where
  "lower = less_than <*lex*> less_than <*lex*> less_than <*lex*> less_than"

lemma wf_lower: "wf lower"
  by (auto simp: lower_def intro!: wf_lex_prod)

lemma before_append: "x \<in> set xs \<Longrightarrow> before x (xs @ ys) = before x xs"
  by simp

lemma before_filter:
  assumes "p \<in> set xs" "P p"
  shows "before p (filter P xs @ ys) \<le> before p xs \<and> (before p (filter P xs @ ys) = before p xs \<longrightarrow> hd (filter P xs @ ys) = hd xs)"
  using assms
proof (induction xs)
  case (Cons x xs)
  then show ?case by (cases "x = p"; cases "P x") auto
qed simp

lemma queued_phase:
  assumes "world_inv w" "no_idle (w_sched w)" "requests (w_sched w) \<noteq> []"
  shows "\<exists>b. w_app w (hd (requests (w_sched w))) = Some b \<and> holder (w_sched w) = Some (hd (requests (w_sched w)))
    \<and> phase (w_sched w) (hd (requests (w_sched w))) (kinds (w_up w (hd (requests (w_sched w)))))
        (grants_of (w_down w (hd (requests (w_sched w))))) (a_own_lock b) (a_need_lock b)"
proof -
  let ?s = "w_sched w" and ?q = "hd (requests (w_sched w))"
  have m: "mem_inv ?s" "lock_held ?s" using assms by (auto simp: world_inv_def sched_inv_def no_idle_def)
  have q: "holder ?s = Some ?q" "?q \<in> set (requests ?s)" using m(2) assms(3) by (cases "requests ?s"; simp add: holder_def)+
  obtain c where c: "heap ?s ?q = Some c" "has_registered c" using mem_invD(8) [OF m(1) q(2)] by blast
  obtain b where b: "w_app w ?q = Some b"
    using world_inv_conn [OF assms(1), of ?q] c q(2) by (cases "w_app w ?q") (auto simp: conn_inv_def)
  with world_inv_conn [OF assms(1), of ?q] c q(1) show ?thesis by (simp add: conn_inv_def)
qed

lemma waiting_phase:
  assumes "world_inv w" "waits w p"
  shows "\<not> owns w p \<and> phase (w_sched w) p (kinds (w_up w p)) (grants_of (w_down w p)) False True"
proof -
  obtain a where a: "w_app w p = Some a" "a_need_lock a" using assms(2) by (rule waitsE)
  then have "\<not> a_own_lock a" using conn_app_ok [OF assms(1)] by (auto simp: app_ok_def)
  with a world_inv_conn [OF assms(1), of p] show ?thesis
    by (simp add: conn_inv_def owns_def split: option.splits)
qed

text \<open>While \<open>q\<close> stays at the head of the queue, it never goes back a stage.\<close>

lemma grants_of_append [simp]: "grants_of (xs @ ys) = grants_of xs @ grants_of ys"
  by (simp add: grants_of_def)

lemma grants_of_mem: "grants_of dn = [Some LOCK_OK] \<Longrightarrow> Some LOCK_OK \<in> set (kinds dn)"
  by (drule arg_cong [of _ _ set]) (auto simp: grants_of_def)

lemma holder_stage:
  assumes "phase s q U (grants_of dn) own need" "holder s = Some q"
  obtains (release) us where "U = Some LOCK_RELEASED # us" "\<not> own" "us = (if need then [Some REQ_LOCK] else [])" "grants_of dn = []"
  | (own) "U = []" "own" "\<not> need" "grants_of dn = []"
  | (grant) "U = []" "\<not> own" "need" "grants_of dn = [Some LOCK_OK]"
proof -
  have "q \<in> set (requests s)" using assms(2) by (auto simp: holder_eq)
  with assms have ph: "if own then grants_of dn = [] \<and> \<not> need \<and> U = [] else if U = [] then grants_of dn = [Some LOCK_OK] \<and> need
      else grants_of dn = [] \<and> U = Some LOCK_RELEASED # (if need then [Some REQ_LOCK] else [])"
    unfolding phase_def by simp
  show thesis
  proof (cases own)
    case True
    with ph show ?thesis by (intro own) simp_all
  next
    case False
    show ?thesis
    proof (cases "U = []")
      case True
      with ph False show ?thesis by (intro grant) simp_all
    next
      case U: False
      with ph False show ?thesis by (intro release) simp_all
    qed
  qed
qed

lemma stage_eq:
  assumes "w_app w q = Some b"
  shows "stage w q = (if Some LOCK_RELEASED \<in> set (kinds (w_up w q)) then (0, 0)
      else if a_own_lock b then
        (if Some DROP_LOCK \<in> set (kinds (w_down w q)) then (1, before (Some DROP_LOCK) (kinds (w_down w q))) else (2, 0))
      else (3, before (Some LOCK_OK) (kinds (w_down w q))))"
  using assms by (simp add: stage_def owns_def)

lemma stage_by_sched:
  assumes m: "by_sched q w w'" and b: "w_app w q = Some b"
    and ph: "phase (w_sched w) q (kinds (w_up w q)) (grants_of (w_down w q)) (a_own_lock b) (a_need_lock b)" "holder (w_sched w) = Some q"
    and ph': "phase (w_sched w') q (kinds (w_up w' q)) (grants_of (w_down w' q)) (a_own_lock b) (a_need_lock b)" "holder (w_sched w') = Some q"
  shows "stage w' q = stage w q \<or> stage w q = (2, 0) \<and> fst (stage w' q) = 1"
proof -
  obtain out where m: "w_app w' q = Some b" "w_up w' q = w_up w q \<or> (\<exists>m. w_up w q = m # w_up w' q)" "w_down w' q = w_down w q @ out"
    using m b by (auto simp: by_sched_def)
  show ?thesis
    using ph
  proof (cases rule: holder_stage)
    case (release us)
    from ph' have "kinds (w_up w' q) \<noteq> us" using release by (cases rule: holder_stage) auto
    with m(2) release(1) have "w_up w' q = w_up w q" by auto
    with release(1) show ?thesis by (simp add: stage_def)
  next
    case own
    with m(2) have "w_up w q = []" "w_up w' q = []" by auto
    with own(2) m(1,3) b show ?thesis by (auto simp: stage_eq)
  next
    case grant
    with m(2) have "w_up w q = []" "w_up w' q = []" by auto
    with grant m(1,3) b grants_of_mem [OF grant(4)] show ?thesis by (simp add: stage_eq)
  qed
qed

abbreviation nearer :: "((nat \<times> nat) \<times> nat \<times> nat) set" where
  "nearer \<equiv> less_than <*lex*> less_than"

lemma stage_by_app:
  assumes m: "by_app q w w'" and b: "w_app w q = Some b" "w_app w' q = Some b'"
    and ph: "phase (w_sched w) q (kinds (w_up w q)) (grants_of (w_down w q)) (a_own_lock b) (a_need_lock b)" "holder (w_sched w) = Some q"
    and ph': "phase (w_sched w') q (kinds (w_up w' q)) (grants_of (w_down w' q)) (a_own_lock b') (a_need_lock b')" "holder (w_sched w') = Some q"
  shows "stage w' q = stage w q \<and> (w_down w' q = w_down w q \<or> fst (stage w q) \<notin> {1, 3}) \<or> (stage w' q, stage w q) \<in> nearer"
proof -
  obtain ms where up: "w_up w' q = w_up w q @ ms" using m by (auto simp: by_app_def)
  have dn: "w_down w' q = w_down w q \<or> (\<exists>m. w_down w q = m # w_down w' q
      \<and> (message_type_of (m_type m) = Some DROP_LOCK \<longrightarrow> \<not> a_own_lock b'))"
    using m b by (auto simp: by_app_def owns_def)
  show ?thesis
    using ph
  proof (cases rule: holder_stage)
    case (release us)
    with up show ?thesis by (simp add: stage_def)
  next
    case own
    then have u: "w_up w q = []" by simp
    from ph' show ?thesis
    proof (cases rule: holder_stage)
      case (release us)
      with u own b show ?thesis by (simp add: stage_eq)
    next
      case own': own
      then have "w_up w' q = []" by simp
      with u dn own own' b show ?thesis by (auto simp: stage_eq)
    next
      case grant
      with dn own(4) show ?thesis by (auto simp: grants_of_def split: if_splits)
    qed
  next
    case grant
    then have u: "w_up w q = []" by simp
    from ph' show ?thesis
    proof (cases rule: holder_stage)
      case (release us)
      with u grant b show ?thesis by (simp add: stage_eq)
    next
      case own
      with u grant b show ?thesis by (auto simp: stage_eq)
    next
      case grant': grant
      then have "w_up w' q = []" by simp
      with u dn grant grant' b show ?thesis by (auto simp: stage_eq grants_of_def split: if_splits)
    qed
  qed
qed

lemma stage_step:
  assumes m: "by_sched q w w' \<or> by_app q w w'" and b: "w_app w q = Some b" "w_app w' q = Some b'"
    and ph: "phase (w_sched w) q (kinds (w_up w q)) (grants_of (w_down w q)) (a_own_lock b) (a_need_lock b)" "holder (w_sched w) = Some q"
    and ph': "phase (w_sched w') q (kinds (w_up w' q)) (grants_of (w_down w' q)) (a_own_lock b') (a_need_lock b')" "holder (w_sched w') = Some q"
  shows "stage w' q = stage w q \<or> (stage w' q, stage w q) \<in> nearer"
    and "stage w' q = stage w q \<Longrightarrow> Some LOCK_RELEASED \<in> set (kinds (w_up w q)) \<Longrightarrow> length (w_up w q) \<le> length (w_up w' q)"
    and "stage w' q = stage w q \<Longrightarrow> fst (stage w q) \<in> {1, 3} \<Longrightarrow> length (w_down w q) \<le> length (w_down w' q)"
proof -
  have same: "b' = b" if "by_sched q w w'" using that b by (simp add: by_sched_def)
  have cs: "by_sched q w w' \<and> (stage w' q = stage w q \<or> stage w q = (2, 0) \<and> fst (stage w' q) = 1)
    \<or> by_app q w w' \<and> (stage w' q = stage w q \<and> (w_down w' q = w_down w q \<or> fst (stage w q) \<notin> {1, 3}) \<or> (stage w' q, stage w q) \<in> nearer)"
    using m stage_by_app [OF _ b ph ph'] stage_by_sched [OF _ b(1) ph] ph' same by metis
  then show "stage w' q = stage w q \<or> (stage w' q, stage w q) \<in> nearer"
    by (cases "stage w' q") auto
  show "length (w_down w q) \<le> length (w_down w' q)" if "stage w' q = stage w q" "fst (stage w q) \<in> {1, 3}"
    using cs that by (cases "stage w q") (auto simp: by_sched_def)
  show "length (w_up w q) \<le> length (w_up w' q)" if "stage w' q = stage w q" "Some LOCK_RELEASED \<in> set (kinds (w_up w q))"
  proof -
    have "stage w' q = (0, 0)" using that by (simp add: stage_def)
    then have "Some LOCK_RELEASED \<in> set (kinds (w_up w' q))" by (simp add: stage_def split: if_splits)
    from ph' this obtain us' where u': "kinds (w_up w' q) = Some LOCK_RELEASED # us'" by (cases rule: holder_stage) auto
    from ph that(2) obtain us where u: "kinds (w_up w q) = Some LOCK_RELEASED # us" "us = (if a_need_lock b then [Some REQ_LOCK] else [])"
      by (cases rule: holder_stage) auto
    have "w_up w q = w_up w' q" if "by_sched q w w'" using that u u' by (auto simp: by_sched_def split: if_splits)
    with m show ?thesis by (auto simp: by_app_def)
  qed
qed

text \<open>While \<open>p\<close> waits its rank never grows; if the rank stays the same, so do the place of \<open>p\<close> and the head of the queue.\<close>

lemma waiting_up:
  assumes "world_step w w'" "world_inv w" "waits w p" "waits w' p"
  shows "w_up w' p = w_up w p \<or> (\<exists>m. w_up w p = m # w_up w' p)"
  using world_step_conn [OF assms(1,2), of p] assms(3,4)
  by (auto simp: by_sched_def by_app_def elim!: waitsE)

lemma waiting_place:
  assumes st: "world_step w w'" "world_inv w" "no_idle (w_sched w)" and p: "waits w p" "waits w' p" "w_up w' p = w_up w p"
  shows "p \<in> set (requests (w_sched w')) \<longleftrightarrow> p \<in> set (requests (w_sched w))"
    and "p \<in> set (requests (w_sched w)) \<Longrightarrow> before p (requests (w_sched w')) \<le> before p (requests (w_sched w))"
    and "p \<in> set (requests (w_sched w)) \<Longrightarrow> before p (requests (w_sched w')) = before p (requests (w_sched w)) \<Longrightarrow>
      hd (requests (w_sched w')) = hd (requests (w_sched w))"
proof -
  have w': "world_inv w'" using world_step_sched [OF st] by blast
  show iff: "p \<in> set (requests (w_sched w')) \<longleftrightarrow> p \<in> set (requests (w_sched w))"
    using waiting_phase [OF st(2) p(1)] waiting_phase [OF w' p(2)] p(3) by (auto simp: phase_def split: if_splits)
  obtain P new where q: "requests (w_sched w') = filter P (requests (w_sched w)) @ new" "set new \<inter> set (requests (w_sched w)) = {}"
    using world_step_fifo [OF st(1,2)] by blast
  assume i: "p \<in> set (requests (w_sched w))"
  with iff q have "P p" by auto
  from before_filter [OF i, of P new, OF this] q(1)
  show "before p (requests (w_sched w')) \<le> before p (requests (w_sched w))"
    "before p (requests (w_sched w')) = before p (requests (w_sched w)) \<Longrightarrow> hd (requests (w_sched w')) = hd (requests (w_sched w))"
    by simp_all
qed

text \<open>A step in which the head of the queue stays.\<close>

lemma head_step:
  assumes st: "world_step w w'" "world_inv w" "no_idle (w_sched w)"
    and q: "requests (w_sched w) \<noteq> []" "requests (w_sched w') \<noteq> []" "hd (requests (w_sched w)) = q" "hd (requests (w_sched w')) = q"
  shows "stage w' q = stage w q \<or> (stage w' q, stage w q) \<in> nearer"
    and "stage w' q = stage w q \<Longrightarrow> Some LOCK_RELEASED \<in> set (kinds (w_up w q)) \<Longrightarrow> length (w_up w q) \<le> length (w_up w' q)"
    and "stage w' q = stage w q \<Longrightarrow> fst (stage w q) \<in> {1, 3} \<Longrightarrow> length (w_down w q) \<le> length (w_down w' q)"
proof -
  have w': "world_inv w'" "no_idle (w_sched w')" using world_step_sched [OF st] by blast+
  obtain b where b: "w_app w q = Some b" "holder (w_sched w) = Some q"
    "phase (w_sched w) q (kinds (w_up w q)) (grants_of (w_down w q)) (a_own_lock b) (a_need_lock b)"
    using queued_phase [OF st(2,3) q(1)] q(3) by auto
  obtain b' where b': "w_app w' q = Some b'" "holder (w_sched w') = Some q"
    "phase (w_sched w') q (kinds (w_up w' q)) (grants_of (w_down w' q)) (a_own_lock b') (a_need_lock b')"
    using queued_phase [OF w' q(2)] q(4) by auto
  have "by_sched q w w' \<or> by_app q w w'" using world_step_conn [OF st(1,2), of q] b(1) b'(1) by simp
  note S = stage_step [OF this b(1) b'(1) b(3,2) b'(3,2)]
  show "stage w' q = stage w q \<or> (stage w' q, stage w q) \<in> nearer"
    and "stage w' q = stage w q \<Longrightarrow> Some LOCK_RELEASED \<in> set (kinds (w_up w q)) \<Longrightarrow> length (w_up w q) \<le> length (w_up w' q)"
    and "stage w' q = stage w q \<Longrightarrow> fst (stage w q) \<in> {1, 3} \<Longrightarrow> length (w_down w q) \<le> length (w_down w' q)"
    by (rule S; assumption?)+
qed

lemma rank_step:
  assumes st: "world_step w w'" "world_inv w" "no_idle (w_sched w)" and p: "waits w p" "waits w' p"
  shows "rank w' p = rank w p \<or> (rank w' p, rank w p) \<in> lower"
proof (cases "w_up w' p = w_up w p")
  case False
  with waiting_up [OF st(1,2) p] have "length (w_up w' p) < length (w_up w p)" by auto
  then show ?thesis by (simp add: rank_def lower_def Let_def)
next
  case up: True
  note P = waiting_place [OF st p up]
  show ?thesis
  proof (cases "p \<in> set (requests (w_sched w)) \<and> before p (requests (w_sched w')) = before p (requests (w_sched w))")
    case True
    then have q: "hd (requests (w_sched w')) = hd (requests (w_sched w))" "requests (w_sched w) \<noteq> []" "requests (w_sched w') \<noteq> []"
      using P by auto
    from head_step(1) [OF st q(2,3) refl q(1)] True P(1) up q(1) show ?thesis
      by (auto simp: rank_def lower_def Let_def)
  next
    case False
    with P(1,2) up show ?thesis by (auto simp: rank_def lower_def Let_def)
  qed
qed

lemma rank_same:
  assumes st: "world_step w w'" "world_inv w" "no_idle (w_sched w)" and p: "waits w p" "waits w' p" and r: "rank w' p = rank w p"
  shows "w_up w' p = w_up w p" and "p \<in> set (requests (w_sched w')) \<longleftrightarrow> p \<in> set (requests (w_sched w))"
    and "p \<in> set (requests (w_sched w)) \<Longrightarrow> hd (requests (w_sched w')) = hd (requests (w_sched w))
      \<and> stage w' (hd (requests (w_sched w))) = stage w (hd (requests (w_sched w)))"
proof -
  show up: "w_up w' p = w_up w p" using waiting_up [OF st(1,2) p] r by (auto simp: rank_def Let_def)
  note P = waiting_place [OF st p up]
  show iff: "p \<in> set (requests (w_sched w')) \<longleftrightarrow> p \<in> set (requests (w_sched w))" by (rule P(1))
  assume "p \<in> set (requests (w_sched w))"
  with iff r P(3) show "hd (requests (w_sched w')) = hd (requests (w_sched w))
      \<and> stage w' (hd (requests (w_sched w))) = stage w (hd (requests (w_sched w)))"
    by (simp add: rank_def Let_def)
qed

section \<open>Fair runs\<close>

definition world_run :: "(nat \<Rightarrow> world) \<Rightarrow> bool" where
  "world_run run \<longleftrightarrow> world_reach (run 0) \<and> (\<forall>i. world_step (run i) (run (Suc i)))"

text \<open>Whatever is under way is read some time, in order; what was under way on a closed connection is gone.\<close>

definition scheduler_reads :: "(nat \<Rightarrow> world) \<Rightarrow> bool" where
  "scheduler_reads run \<longleftrightarrow> (\<forall>i q. w_up (run i) q \<noteq> [] \<longrightarrow> (\<exists>j\<ge>i. length (w_up (run (Suc j)) q) < length (w_up (run j) q)))"

definition clients_read :: "(nat \<Rightarrow> world) \<Rightarrow> bool" where
  "clients_read run \<longleftrightarrow> (\<forall>i q. w_down (run i) q \<noteq> [] \<longrightarrow> (\<exists>j\<ge>i. length (w_down (run (Suc j)) q) < length (w_down (run j) q)))"

text \<open>
  The quantum of an application that owns the lock ends some time: the timer fires, or the application has given the lock
  back before that.
\<close>

definition timer_fires :: "world \<Rightarrow> world \<Rightarrow> bool" where
  "timer_fires w w' \<longleftrightarrow> (\<exists>r now s' t' out. fires r (w_sched w) (w_timer w) \<and> timer_wake r now (w_sched w, w_timer w) = Inr (s', t')
     \<and> relayed (w_sched w) s' out \<and> w' = sched_moved s' t' (w_up w) out w)"

definition quanta_end :: "(nat \<Rightarrow> world) \<Rightarrow> bool" where
  "quanta_end run \<longleftrightarrow> (\<forall>i q. owns (run i) q \<longrightarrow> (\<exists>j\<ge>i. timer_fires (run j) (run (Suc j)) \<or> \<not> owns (run j) q))"

text \<open>When the timer fires, the owner is told to drop the lock, or it cannot be reached and is dropped.\<close>

definition owners_told :: "(nat \<Rightarrow> world) \<Rightarrow> bool" where
  "owners_told run \<longleftrightarrow> (\<forall>i q. owns (run i) q \<longrightarrow> (\<exists>j\<ge>i. Some DROP_LOCK \<in> set (kinds (w_down (run j) q)) \<or> \<not> owns (run j) q))"

lemma owner_holds:
  assumes "world_inv w" "owns w q"
  shows "holder (w_sched w) = Some q \<and> heap (w_sched w) q \<noteq> None"
  using world_inv_conn [OF assms(1), of q] assms(2)
  by (auto simp: conn_inv_def owns_def phase_def split: option.splits if_splits)

lemma timer_fires_told:
  assumes "timer_fires w w'" "world_inv w" "world_inv w'" "owns w q"
  shows "Some DROP_LOCK \<in> set (kinds (w_down w' q)) \<or> \<not> owns w' q"
proof (rule disjCI)
  assume own: "\<not> \<not> owns w' q"
  obtain r now s' t' out where f: "fires r (w_sched w) (w_timer w)" "timer_wake r now (w_sched w, w_timer w) = Inr (s', t')"
    "relayed (w_sched w) s' out" "w' = sched_moved s' t' (w_up w) out w" using assms(1) unfolding timer_fires_def by blast
  have s: "sched_inv (w_sched w)" "w_sched w' = s'" using assms(2) f(4) by (simp_all add: world_inv_def sched_moved_def)
  have h: "holder (w_sched w) = Some q" "holder s' = Some q" "heap s' q \<noteq> None"
    using owner_holds [OF assms(2,4)] owner_holds [OF assms(3)] own s(2) by auto
  then obtain rs where rs: "requests (w_sched w) = q # rs" "q \<in> set (requests s')"
    by (auto simp: holder_def split: if_splits list.splits)
  have d: "distinct (requests (w_sched w))" using lm_ok_abs [OF s(1)] by (simp add: lm_ok_def lm_abs_def)
  have "\<not> lm_step (lm_abs (w_sched w)) (Leave q) (lm_abs s')"
    using d rs by (auto simp: lm_serve_def lm_release_def lm_abs_def split: if_splits)
  moreover have "woken r (w_sched w) (w_timer w) s' t'" using wp_D [OF wp_timer_wake [OF s(1)] f(2)] by simp
  ultimately obtain k where k: "s' = (w_sched w)\<lparr>kern := k, must_reset_timer := False\<rparr>"
    "\<And>c. heap (w_sched w) q = Some c \<Longrightarrow> sent_to (c_fd c) (kern s') = sent_to (c_fd c) (kern (w_sched w)) @ encode_message drop_msg"
    using f(1) rs(1) by (auto simp: woken_def Let_def simp del: lm_step_simps)
  obtain c where c: "heap s' q = Some c" using h(3) by auto
  then have "out q = [drop_msg]" by (intro relayed_eq [OF f(3) c]) (use k in simp_all)
  moreover have "message_type_of (m_type drop_msg) = Some DROP_LOCK"
    by (simp add: drop_msg_def message_type_of_Some del: message_type_code.simps)
  ultimately show "Some DROP_LOCK \<in> set (kinds (w_down w' q))" using f(4) c by (simp add: sched_moved_def)
qed

lemma eventually_constant:
  assumes "wf R" "\<And>i. r (Suc i) = r i \<or> (r (Suc i), r i) \<in> R"
  shows "\<exists>n. \<forall>i\<ge>n. r (Suc i) = r i"
proof -
  obtain n where n: "\<And>i. (r i, r n) \<notin> R" using wfE_min [OF assms(1), of "r 0" "range r"] by (metis rangeE rangeI)
  have "r i = r n" if "n \<le> i" for i
    using that
  proof (induction i rule: dec_induct)
    case (step i)
    with assms(2) [of i] n [of "Suc i"] show ?case by auto
  qed simp
  then show ?thesis by (metis le_SucI)
qed

lemma world_run_inv:
  assumes "world_run run"
  shows "world_step (run i) (run (Suc i))" "world_inv (run i)" "no_idle (w_sched (run i))"
proof -
  have st: "world_step (run i) (run (Suc i))" for i using assms by (simp add: world_run_def)
  have "world_reach (run i)"
  proof (induction i)
    case 0
    show ?case using assms by (simp add: world_run_def)
  next
    case (Suc i)
    show ?case by (rule world_reach_step [OF Suc st])
  qed
  with world_reach_inv show "world_inv (run i)" "no_idle (w_sched (run i))" by auto
qed (use assms in \<open>simp add: world_run_def\<close>)

lemma quanta_end_told:
  assumes "world_run run" "quanta_end run"
  shows "owners_told run"
  unfolding owners_told_def
proof (intro allI impI)
  fix i q assume "owns (run i) q"
  then obtain j where j: "i \<le> j" "timer_fires (run j) (run (Suc j)) \<or> \<not> owns (run j) q"
    using assms(2) unfolding quanta_end_def by blast
  show "\<exists>j\<ge>i. Some DROP_LOCK \<in> set (kinds (w_down (run j) q)) \<or> \<not> owns (run j) q"
  proof (cases "owns (run j) q")
    case True
    with j timer_fires_told [OF _ world_run_inv(2) [OF assms(1), of j] world_run_inv(2) [OF assms(1), of "Suc j"], of q] show ?thesis by (intro exI [of _ "Suc j"]) simp
  qed (use j in blast)
qed

lemma stage_grant:
  assumes "world_inv w" "no_idle (w_sched w)" "requests (w_sched w) \<noteq> []" "q = hd (requests (w_sched w))"
    "Some LOCK_RELEASED \<notin> set (kinds (w_up w q))" "\<not> owns w q"
  shows "w_down w q \<noteq> [] \<and> fst (stage w q) = 3"
proof -
  obtain b where b: "w_app w q = Some b" "holder (w_sched w) = Some q"
    "phase (w_sched w) q (kinds (w_up w q)) (grants_of (w_down w q)) (a_own_lock b) (a_need_lock b)"
    using queued_phase [OF assms(1-3)] assms(4) by auto
  from b(3,2) have "grants_of (w_down w q) = [Some LOCK_OK]"
    by (cases rule: holder_stage) (use assms(5,6) b(1) in \<open>auto simp: owns_def\<close>)
  with assms(5,6) show ?thesis by (auto simp: stage_def grants_of_def)
qed

text \<open>If the rank of \<open>p\<close> stayed the same from \<open>n\<close> on, something under way would never be read.\<close>

lemma rank_not_constant:
  assumes run: "world_run run" and fair: "scheduler_reads run" "clients_read run" "owners_told run"
    and p: "\<And>i. n \<le> i \<Longrightarrow> waits (run i) p" and r: "\<And>i. n \<le> i \<Longrightarrow> rank (run (Suc i)) p = rank (run i) p"
  shows False
proof -
  note W = world_run_inv [OF run]
  have S: "w_up (run (Suc i)) p = w_up (run i) p"
    "p \<in> set (requests (w_sched (run (Suc i)))) \<longleftrightarrow> p \<in> set (requests (w_sched (run i)))"
    "p \<in> set (requests (w_sched (run i))) \<Longrightarrow> hd (requests (w_sched (run (Suc i)))) = hd (requests (w_sched (run i)))
      \<and> stage (run (Suc i)) (hd (requests (w_sched (run i)))) = stage (run i) (hd (requests (w_sched (run i))))"
    if "n \<le> i" for i using rank_same [OF W [of i] p [OF that] _ r [OF that]] p [of "Suc i"] that by simp_all
  have "w_up (run n) p = []" using fair(1) S(1) unfolding scheduler_reads_def by (metis less_irrefl)
  then have pn: "p \<in> set (requests (w_sched (run n)))"
    using waiting_phase [OF W(2) p [OF order_refl]] by (auto simp: phase_def split: if_splits)
  define q where "q = hd (requests (w_sched (run n)))"
  have q: "p \<in> set (requests (w_sched (run i))) \<and> hd (requests (w_sched (run i))) = q \<and> stage (run i) q = stage (run n) q" if "n \<le> i" for i
    using that
  proof (induction i rule: dec_induct)
    case (step i)
    with S(2,3) [of i] show ?case by simp
  qed (use pn q_def in simp)
  have H: "length (w_up (run i) q) \<le> length (w_up (run (Suc i)) q) \<or> stage (run n) q \<noteq> (0, 0)"
    "length (w_down (run i) q) \<le> length (w_down (run (Suc i)) q) \<or> fst (stage (run n) q) \<notin> {1, 3}" if "n \<le> i" for i
  proof -
    have h: "requests (w_sched (run i)) \<noteq> []" "requests (w_sched (run (Suc i))) \<noteq> []" "hd (requests (w_sched (run i))) = q"
      "hd (requests (w_sched (run (Suc i)))) = q" "stage (run (Suc i)) q = stage (run i) q" "stage (run i) q = stage (run n) q"
      using q [OF that] q [OF le_SucI [OF that]] by auto
    note T = head_step(2,3) [OF W [of i] h(1-5)]
    show "length (w_up (run i) q) \<le> length (w_up (run (Suc i)) q) \<or> stage (run n) q \<noteq> (0, 0)"
      using T(1) h(6) by (auto simp: stage_def split: if_splits)
    show "length (w_down (run i) q) \<le> length (w_down (run (Suc i)) q) \<or> fst (stage (run n) q) \<notin> {1, 3}"
      using T(2) h(6) by auto
  qed
  have up: "stage (run n) q \<noteq> (0, 0) \<or> w_up (run n) q = []"
    using fair(1) H(1) unfolding scheduler_reads_def by (metis not_less)
  have dn: "fst (stage (run n) q) \<notin> {1, 3} \<or> w_down (run n) q = []"
    using fair(2) H(2) unfolding clients_read_def by (metis not_less)
  show False
  proof (cases "Some LOCK_RELEASED \<in> set (kinds (w_up (run n) q))")
    case True
    with up show ?thesis by (auto simp: stage_def)
  next
    case rel: False
    show ?thesis
    proof (cases "owns (run n) q")
      case own: True
      with rel dn have s: "stage (run n) q = (2, 0)" by (auto simp: stage_def split: if_splits)
      obtain j where "n \<le> j" "Some DROP_LOCK \<in> set (kinds (w_down (run j) q)) \<or> \<not> owns (run j) q"
        using fair(3) own unfolding owners_told_def by blast
      with q [of j] s show ?thesis by (auto simp: stage_def split: if_splits)
    next
      case False
      have "requests (w_sched (run n)) \<noteq> []" using pn by auto
      from stage_grant [OF W(2,3) this q_def rel False] dn show ?thesis by simp
    qed
  qed
qed

lemma waiting_ends:
  assumes run: "world_run run" and fair: "scheduler_reads run" "clients_read run" "owners_told run"
  shows "\<exists>j\<ge>i. \<not> waits (run j) p"
proof (rule ccontr)
  assume "\<not> ?thesis"
  then have p: "waits (run j) p" if "i \<le> j" for j using that by blast
  have "rank (run (Suc (i + j))) p = rank (run (i + j)) p \<or> (rank (run (Suc (i + j))) p, rank (run (i + j)) p) \<in> lower" for j
    by (rule rank_step [OF world_run_inv [OF run]]) (simp_all add: p)
  then obtain n where n: "\<And>j. n \<le> j \<Longrightarrow> rank (run (i + Suc j)) p = rank (run (i + j)) p"
    using eventually_constant [OF wf_lower, of "\<lambda>j. rank (run (i + j)) p"] by auto
  show False
  proof (rule rank_not_constant [OF run fair])
    fix j assume "i + n \<le> j"
    then show "waits (run j) p" "rank (run (Suc j)) p = rank (run j) p" using p [of j] n [of "j - i"] by auto
  qed
qed

end
