(* ===== verification/Toggle.thy ===== *)
theory Toggle
  imports System
begin

text \<open>
  The whole system when \<open>nvsharectl\<close> may also switch the scheduler off and on again. The worlds and their steps are
  those of theory \<open>System\<close>, with one more step: a SCHED_OFF from the command line tool. With the scheduler off
  every application may use the GPU. Requests, releases and grants of an earlier period may still be under way
  when the scheduler is switched back on; the invariant of this theory describes what remains true then: every application will
  have the status of the scheduler once it has read its messages, no application is blocked while it believes the scheduler off, and no
  request is forgotten.
\<close>

section \<open>Worlds with switching\<close>

inductive full_step :: "world \<Rightarrow> world \<Rightarrow> bool" where
  same: "world_step w w' \<Longrightarrow> full_step w w'"
| off: "heap (w_sched w) p = Some c \<Longrightarrow> \<not> has_registered c \<Longrightarrow> message_ok m \<Longrightarrow>
    message_type_of (m_type m) = Some SCHED_OFF \<Longrightarrow>
    list_all (\<lambda>m. message_type_of (m_type m) \<noteq> Some REGISTER) (w_up w p) \<Longrightarrow>
    full_step w (w\<lparr>w_up := (w_up w)(p := w_up w p @ [m])\<rparr>)"

definition full_reach :: "world \<Rightarrow> bool" where
  "full_reach w \<longleftrightarrow> (\<exists>path k ms rs st lsock s n.
     sched_main path (sched_globals\<lparr>kern := k, mallocs := ms, rands := rs, stale := st\<rparr>) = Inr (lsock, s)
     \<and> (\<forall>p c. Some (p, c) \<in> set ms \<longrightarrow> client_ok c) \<and> full_step\<^sup>*\<^sup>* (world_start n s) w)"

lemma full_reach_step: "full_reach w \<Longrightarrow> full_step w w' \<Longrightarrow> full_reach w'"
  unfolding full_reach_def by (blast intro: rtranclp.rtrancl_into_rtrancl)

section \<open>What switching sends\<close>

text \<open>The status changes, the queue is empty afterwards, and exactly the registered clients are told, once.\<close>

definition toggled :: "sched \<Rightarrow> sched \<Rightarrow> bool" where
  "toggled s s' \<longleftrightarrow> scheduler_on s' = (\<not> scheduler_on s) \<and> requests s' = [] \<and> \<not> lock_held s'
     \<and> (\<forall>q c. heap s' q = Some c \<longrightarrow> heap s q = Some c
          \<and> sent_to (c_fd c) (kern s') = sent_to (c_fd c) (kern s)
              @ (if has_registered c then encode_message (status_msg (s\<lparr>scheduler_on := \<not> scheduler_on s\<rparr>)) else []))"

lemma wp_toggle:
  assumes inv: "sched_inv s" and on: "scheduler_on s = on"
  shows "wp (bcast_status (s\<lparr>scheduler_on := \<not> on\<rparr>)) (\<lambda>s'. toggled s (s'\<lparr>requests := [], lock_held := False\<rparr>)
    \<and> (\<not> on \<longrightarrow> requests s' = [] \<and> \<not> lock_held s'))"
proof (rule wp_mono [OF wp_bcast_status])
  let ?s = "s\<lparr>scheduler_on := \<not> on\<rparr>"
  show m: "mem_inv ?s" using inv by (simp add: sched_inv_def)
  fix s' assume "mem_inv s' \<and> informed (clients ?s) ?s s'"
  then have i: "informed (clients ?s) ?s s'" "mem_inv s'" by auto
  obtain D where D: "shrunk D ?s s'" using informedD(1) [OF i(1)] by blast
  have "heap s q = Some c \<and> q \<in> set (clients s)" if "heap s' q = Some c" for q c
    using shrunk_heap [OF D that] mem_invD(2) [OF m] by auto
  moreover have "scheduler_on s' = (\<not> on)" using D by (simp add: shrunk_def)
  ultimately have "toggled s (s'\<lparr>requests := [], lock_held := False\<rparr>)"
    using informedD(3) [OF i(1)] on by (auto simp: toggled_def)
  moreover have "requests s' = []" if "\<not> on" using D inv on that by (simp add: shrunk_def sched_inv_def)
  ultimately show "toggled s (s'\<lparr>requests := [], lock_held := False\<rparr>) \<and> (\<not> on \<longrightarrow> requests s' = [] \<and> \<not> lock_held s')"
    using mem_invD(4) [OF i(2)] by blast
qed

lemma toggled_idle:
  "requests s' = [] \<Longrightarrow> \<not> lock_held s' \<Longrightarrow> toggled s (s'\<lparr>requests := [], lock_held := False\<rparr>) = toggled s s'"
  by (simp add: toggled_def)

text \<open>What a message of a connected client means for everyone, whether the scheduler is on or off.\<close>

definition switches :: "message_type option \<Rightarrow> bool \<Rightarrow> bool" where
  "switches t on \<longleftrightarrow> (t = Some SCHED_ON \<and> \<not> on) \<or> (t = Some SCHED_OFF \<and> on)"

lemma wp_process_full:
  assumes inv: "sched_inv s" and c: "heap s p = Some c" and m: "message_ok m" "NUL \<in> set (m_data m)"
    and t: "message_type_of (m_type m) = t" and ok: "t = Some REGISTER \<Longrightarrow> \<not> has_registered c"
      "t = Some REQ_LOCK \<or> t = Some LOCK_RELEASED \<Longrightarrow> has_registered c"
  shows "wp (process_msg p m s) (\<lambda>s'. if t = Some REGISTER then welcomed p s s'
    else if switches t (scheduler_on s) then toggled s s'
    else dealt (if t = Some REQ_LOCK \<and> scheduler_on s then {p} else {}) (if t = Some LOCK_RELEASED \<and> scheduler_on s then {p} else {}) s s')"
proof (cases "scheduler_on s")
  case True
  show ?thesis
  proof (cases "t = Some SCHED_OFF")
    case False
    show ?thesis
      by (rule wp_mono [OF wp_process_dealt [OF inv True c m t]]) (use ok True False in \<open>auto simp: switches_def\<close>)
  next
    case off: True
    with t True wp_toggle [OF inv, of True] show ?thesis by (auto simp: process_msg_def wp switches_def elim!: wp_mono)
  qed
next
  case off: False
  have i: "mem_inv s" using inv by (simp add: sched_inv_def)
  show ?thesis
  proof (cases "t = Some REGISTER")
    case True
    with t wp_register_welcomed [OF i c _ m] ok show ?thesis by (simp add: process_msg_def)
  next
    case not_reg: False
    show ?thesis
    proof (cases "t = Some SCHED_ON")
      case True
      have "wp (bcast_status (s\<lparr>scheduler_on := True\<rparr>)) (toggled s)"
        by (rule wp_mono [OF wp_toggle [OF inv, of False, simplified]]) (use off toggled_idle in auto)
      with True t off show ?thesis by (simp add: process_msg_def switches_def)
    next
      case False
      have "wp (process_msg p m s) (dealt {} {} s)"
        using t off not_reg False ok c m(2)
        by (cases t) (auto simp: process_msg_def process_set_tq_def Let_def wp intro: dealt_same split: message_type.splits)
      then show ?thesis by (rule wp_mono) (use not_reg False off in \<open>auto simp: switches_def\<close>)
    qed
  qed
qed

lemma toggled_kern:
  assumes "\<And>fd. sent_to fd k = sent_to fd (kern s)"
  shows "toggled (s\<lparr>kern := k\<rparr>) s' = toggled s s'"
  using assms by (simp add: toggled_def status_msg_def sched_status_def)

section \<open>The invariant\<close>

abbreviation is_status :: "message_type option \<Rightarrow> bool" where
  "is_status k \<equiv> k = Some SCHED_ON \<or> k = Some SCHED_OFF"

text \<open>The status an application has after it has read the messages \<open>D\<close>.\<close>

primrec told :: "bool \<Rightarrow> message_type option list \<Rightarrow> bool" where
  "told b [] = b"
| "told b (k # D) = told (if k = Some SCHED_ON then True else if k = Some SCHED_OFF then False else b) D"

text \<open>A DROP_LOCK is read only while the application believes the scheduler on.\<close>

primrec drops_ok :: "bool \<Rightarrow> message_type option list \<Rightarrow> bool" where
  "drops_ok b [] = True"
| "drops_ok b (k # D) = ((k = Some DROP_LOCK \<longrightarrow> b)
     \<and> drops_ok (if k = Some SCHED_ON then True else if k = Some SCHED_OFF then False else b) D)"

text \<open>Is the client in the queue once the scheduler has read the messages \<open>U\<close>?\<close>

primrec asked :: "bool \<Rightarrow> message_type option list \<Rightarrow> bool" where
  "asked b [] = b"
| "asked b (k # U) = asked (if k = Some REQ_LOCK then True else if k = Some LOCK_RELEASED then False else b) U"

text \<open>A LOCK_OK that follows the last change of the status.\<close>

primrec regrant :: "message_type option list \<Rightarrow> bool" where
  "regrant [] = False"
| "regrant (k # D) = (regrant D \<or> (k = Some LOCK_OK \<and> (\<forall>k \<in> set D. \<not> is_status k)))"

definition full_phase :: "sched \<Rightarrow> addr \<Rightarrow> message_type option list \<Rightarrow> message_type option list \<Rightarrow> bool \<Rightarrow> bool \<Rightarrow> bool \<Rightarrow> bool" where
  "full_phase s p U D on own need \<longleftrightarrow>
     told on D = scheduler_on s \<and> drops_ok on D \<and> (\<not> on \<longrightarrow> own \<and> \<not> need) \<and> \<not> (own \<and> need)
     \<and> set U \<subseteq> {Some REQ_LOCK, Some LOCK_RELEASED} \<and> set D \<subseteq> {Some LOCK_OK, Some DROP_LOCK, Some SCHED_ON, Some SCHED_OFF}
     \<and> (need \<longrightarrow> Some SCHED_OFF \<in> set D \<or> Some LOCK_OK \<in> set D \<or> asked (p \<in> set (requests s)) U)
     \<and> (holder s = Some p \<longrightarrow> regrant D \<or> (own \<and> (\<forall>k \<in> set D. \<not> is_status k)) \<or> Some LOCK_RELEASED \<in> set U)"

definition full_conn :: "sched \<Rightarrow> addr \<Rightarrow> app option \<Rightarrow> message list \<Rightarrow> message list \<Rightarrow> bool" where
  "full_conn s p ao up dn \<longleftrightarrow>
     (case heap s p of
        None \<Rightarrow> ao = None \<and> up = [] \<and> dn = []
      | Some c \<Rightarrow>
          (case ao of
             Some a \<Rightarrow> has_registered c \<and> app_ok a
               \<and> full_phase s p (kinds up) (kinds dn) (a_scheduler_on a) (a_own_lock a) (a_need_lock a)
           | None \<Rightarrow>
               if has_registered c
               then up = [] \<and> p \<notin> set (requests s) \<and> (\<exists>k D. kinds dn = k # D \<and> (\<forall>k \<in> set (k # D). is_status k)
                 \<and> told (k = Some SCHED_ON) D = scheduler_on s)
               else dn = [] \<and> (kinds up = [Some REGISTER] \<or> (\<forall>m \<in> set up. message_type_of (m_type m) \<in> {Some SET_TQ, Some SCHED_ON, Some SCHED_OFF}))))"

definition full_inv :: "world \<Rightarrow> bool" where
  "full_inv w \<longleftrightarrow> sched_inv (w_sched w) \<and> (\<forall>p. full_conn (w_sched w) p (w_app w p) (w_up w p) (w_down w p))"

lemma told_append [simp]: "told b (D @ E) = told (told b D) E"
  by (induction D arbitrary: b) auto

lemma drops_ok_append [simp]: "drops_ok b (D @ E) = (drops_ok b D \<and> drops_ok (told b D) E)"
  by (induction D arbitrary: b) auto

lemma asked_append [simp]: "asked b (U @ V) = asked (asked b U) V"
  by (induction U arbitrary: b) auto

lemma regrant_snoc [simp]: "regrant (D @ [k]) = (\<not> is_status k \<and> (regrant D \<or> k = Some LOCK_OK))"
  by (induction D) auto

lemma told_off: "told True D = False \<Longrightarrow> Some SCHED_OFF \<in> set D"
  by (induction D) (auto split: if_splits)

lemma regrant_sent: "regrant D \<Longrightarrow> Some LOCK_OK \<in> set D"
  by (induction D) auto

section \<open>Steps of the scheduler\<close>

lemma full_phase_dealt:
  assumes inv: "sched_inv s" and d: "dealt A R s s'" and c: "heap s' p = Some c"
    and out: "D' = D @ (if holder s' = Some p \<and> holder s \<noteq> Some p then [Some LOCK_OK] else [])"
    and ph: "full_phase s p U D on own need"
    and U: "U = U' \<and> p \<notin> A \<and> p \<notin> R \<or> U = Some REQ_LOCK # U' \<and> p \<in> (if scheduler_on s then A else - A) \<and> p \<notin> R
      \<or> U = Some LOCK_RELEASED # U' \<and> p \<notin> A \<and> p \<in> (if scheduler_on s then R else - R)"
  shows "full_phase s' p U' D' on own need"
proof -
  note E = dealtD(1) [OF d] dealtD(3,4) [OF d c]
  have q: "p \<in> set (requests t)" if "holder t = Some p" for t using that by (auto simp: holder_eq)
  have off: "Some SCHED_OFF \<in> set D" if "\<not> scheduler_on s" need
    using that ph told_off by (auto simp: full_phase_def)
  have place: "asked (p \<in> set (requests s)) U = asked (p \<in> set (requests s')) U'" if "scheduler_on s"
    using U that E(2) by (elim disjE) auto
  have rel: "Some LOCK_RELEASED \<in> set U' \<or> p \<notin> set (requests s')" if "Some LOCK_RELEASED \<in> set U" "scheduler_on s"
    using U that E(2) by (elim disjE) auto
  have "set U' \<subseteq> set U" using U by (elim disjE) auto
  moreover have "need \<longrightarrow> Some SCHED_OFF \<in> set D' \<or> Some LOCK_OK \<in> set D' \<or> asked (p \<in> set (requests s')) U'"
  proof (cases "scheduler_on s")
    case True
    with ph place out show ?thesis by (auto simp: full_phase_def)
  qed (use off out in simp)
  moreover have "holder s' = Some p \<longrightarrow> regrant D' \<or> (own \<and> (\<forall>k \<in> set D'. \<not> is_status k)) \<or> Some LOCK_RELEASED \<in> set U'"
  proof
    assume h: "holder s' = Some p"
    show "regrant D' \<or> (own \<and> (\<forall>k \<in> set D'. \<not> is_status k)) \<or> Some LOCK_RELEASED \<in> set U'"
    proof (cases "holder s = Some p")
      case True
      then have "scheduler_on s" using q [OF True] inv by (auto simp: sched_inv_def)
      with True ph q [OF h] rel out show ?thesis by (auto simp: full_phase_def)
    qed (use h out in simp)
  qed
  moreover have "told on D' = scheduler_on s'" "drops_ok on D'" "set D' \<subseteq> {Some LOCK_OK, Some DROP_LOCK, Some SCHED_ON, Some SCHED_OFF}"
    using ph out E(1) by (auto simp: full_phase_def)
  ultimately show ?thesis using ph unfolding full_phase_def by blast
qed

text \<open>The first message under way from a client is one it may send.\<close>

definition may_send :: "nvshare_client \<Rightarrow> message_type option \<Rightarrow> bool" where
  "may_send c t \<longleftrightarrow> (t = Some REGISTER \<longrightarrow> \<not> has_registered c) \<and> (t = Some REQ_LOCK \<or> t = Some LOCK_RELEASED \<longrightarrow> has_registered c)"

text \<open>What the event of a message does, and what any event does.\<close>

definition message_effect :: "addr \<Rightarrow> message_type option \<Rightarrow> sched \<Rightarrow> sched \<Rightarrow> bool" where
  "message_effect p t s s' \<longleftrightarrow> (if t = Some REGISTER then welcomed p s s'
    else if switches t (scheduler_on s) then toggled s s'
    else dealt (if t = Some REQ_LOCK \<and> scheduler_on s then {p} else {}) (if t = Some LOCK_RELEASED \<and> scheduler_on s then {p} else {}) s s')"

lemma message_effect_kern:
  assumes "\<And>fd. sent_to fd k = sent_to fd (kern s)"
  shows "message_effect p t (s\<lparr>kern := k\<rparr>) s' = message_effect p t s s'"
  unfolding message_effect_def dealt_kern [OF assms] welcomed_kern [OF assms] toggled_kern [OF assms] by simp

definition connected :: "sched \<Rightarrow> sched \<Rightarrow> bool" where
  "connected s s' \<longleftrightarrow> scheduler_on s' = scheduler_on s \<and> requests s' = requests s \<and> lock_held s' = lock_held s
     \<and> (\<forall>fd. sent_to fd (kern s') = sent_to fd (kern s))
     \<and> (\<forall>q c. heap s' q = Some c \<longrightarrow> heap s q = Some c \<or> heap s q = None \<and> \<not> has_registered c)"

lemma main_effect:
  assumes inv: "sched_inv s" and ok: "event_ok lsock ev s" and run: "handle_event lsock ev s = Inr s'"
    and up: "reads lsock ev s up up'" and first: "\<forall>p c m ms. heap s p = Some c \<and> up p = m # ms \<longrightarrow> may_send c (message_type_of (m_type m))"
  shows "up' = up \<and> (connected s s' \<or> dealt {} {} s s')
    \<or> (\<exists>p m ms c. up p = m # ms \<and> up' = up(p := ms) \<and> heap s p = Some c \<and> message_effect p (message_type_of (m_type m)) s s')"
proof -
  let ?p = "ev_data ev"
  have m: "mem_inv s" using inv by (simp add: sched_inv_def)
  show ?thesis
  proof (cases "data_fd ?p = lsock")
    case True
    then have "up' = up" "accept_ok lsock s" "new_connection lsock s = Inr s'"
      using up ok run by (simp_all add: reads_def Let_def event_ok_def handle_event_def)
    with wp_D [OF wp_new_connection_dealt [OF m], of lsock s'] show ?thesis by (simp add: connected_def)
  next
    case False
    obtain c where c: "heap s ?p = Some c" using ok False by (auto simp: event_ok_def receive_ok_def split: option.splits)
    have gone: "dealt {} {} s s'" if "drop_client ?p (s\<lparr>kern := k\<rparr>) = Inr s'" "\<And>fd. sent_to fd k = sent_to fd (kern s)" for k
    proof -
      have "dealt {} {} (s\<lparr>kern := k\<rparr>) s'" by (rule wp_D [OF wp_leave_dealt that(1)]) (use m c in auto)
      then show ?thesis using that(2) by (simp add: dealt_kern)
    qed
    show ?thesis
    proof (cases "ev_events ev AND EPOLLIN \<noteq> 0")
      case no_in: False
      then have "up' = up" using up by (simp add: reads_def Let_def)
      then show ?thesis using run False no_in gone [of "kern s"] dealt_same [of s s]
        by (auto simp: handle_event_def client_event_def split: if_splits)
    next
      case True
      obtain x m t where rm: "receive_message ?p s = Inr (x, m, t)" using run False True
        by (cases "receive_message ?p s") (auto simp: handle_event_def client_event_def)
      obtain k where k: "t = s\<lparr>kern := k\<rparr>" "\<And>fd. sent_to fd k = sent_to fd (kern s)"
        using receive_message_quiet [OF rm] by auto
      show ?thesis
      proof (cases "x < 0")
        case bad: True
        with run False True rm k up gone [of k] show ?thesis
          by (auto simp: handle_event_def client_event_def reads_def Let_def)
      next
        case good: False
        have "receive_ok ?p s" using ok False by (simp add: event_ok_def)
        with receive_message_cases [OF c] rm good have m: "message_ok m" "NUL \<in> set (m_data m)" by auto
        obtain ms where ms: "up ?p = m # ms" "up' = up(?p := ms)" using up False True rm good by (auto simp: reads_def Let_def)
        have "may_send c (message_type_of (m_type m))" using first c ms(1) by blast
        then have "message_effect ?p (message_type_of (m_type m)) (s\<lparr>kern := k\<rparr>) s'"
          unfolding message_effect_def
          by (intro wp_D [OF wp_process_full [where c = c]]) (use inv c m run False True rm good k in
            \<open>auto simp: handle_event_def client_event_def may_send_def sched_inv_def\<close>)
        then have "message_effect ?p (message_type_of (m_type m)) s s'"
          by (simp add: message_effect_kern k(2))
        with ms c show ?thesis by blast
      qed
    qed
  qed
qed

lemma full_inv_conn: "full_inv w \<Longrightarrow> full_conn (w_sched w) p (w_app w p) (w_up w p) (w_down w p)"
  by (simp add: full_inv_def)

lemma full_conn_gone: "heap s p = None \<Longrightarrow> full_conn s p None [] []"
  by (simp add: full_conn_def)

lemma full_inv_moved:
  assumes "sched_inv s'" "\<And>p c. heap s' p = Some c \<Longrightarrow> full_conn s' p (w_app w p) (up p) (w_down w p @ out p)"
  shows "full_inv (sched_moved s' t' up out w)"
proof -
  have "full_conn s' p (if heap s' p = None then None else w_app w p) (if heap s' p = None then [] else up p)
      (if heap s' p = None then [] else w_down w p @ out p)" for p
    using assms(2) [of p] by (cases "heap s' p") (auto simp: full_conn_gone)
  with assms(1) show ?thesis by (simp add: full_inv_def sched_moved_def)
qed

lemma dealt_out:
  assumes inv: "sched_inv s" and d: "dealt A R s s'" and r: "relayed s s' out" and c: "heap s' p = Some c"
  shows "out p = (if holder s' = Some p \<and> holder s \<noteq> Some p then [lock_ok_msg s] else [])"
  by (rule relayed_eq [OF r c])
    (use dealtD(5) [OF d c] mem_invD(5) [of s] inv in \<open>auto simp: sched_inv_def lock_ok_msg_def message_ok_def\<close>)

lemma full_conn_dealt:
  assumes inv: "sched_inv s" and d: "dealt A R s s'" and r: "relayed s s' out" and c: "heap s' p = Some c"
    and i: "full_conn s p ao up dn"
    and U: "up = up' \<and> p \<notin> A \<and> p \<notin> R
      \<or> kinds up = Some REQ_LOCK # kinds up' \<and> p \<in> (if scheduler_on s then A else - A) \<and> p \<notin> R
      \<or> kinds up = Some LOCK_RELEASED # kinds up' \<and> p \<notin> A \<and> p \<in> (if scheduler_on s then R else - R)"
  shows "full_conn s' p ao up' (dn @ out p)"
proof -
  note out = dealt_out [OF inv d r c]
  have m: "mem_inv s" using inv by (simp add: sched_inv_def)
  have c': "heap s p = Some c" by (rule dealtD(2) [OF d c])
  have q: "p \<in> set (requests s')" if "holder s' = Some p" using that by (auto simp: holder_eq)
  show ?thesis
  proof (cases ao)
    case None
    then have "p \<notin> set (requests s)" "up = up' \<and> p \<notin> A \<and> p \<notin> R"
      using i c' U mem_invD(8) [OF m, of p] by (auto simp: full_conn_def split: if_splits)
    then have "p \<notin> set (requests s')" "out p = []" "up = up'" using dealtD(3) [OF d c] out q by auto
    with i None c c' dealtD(1) [OF d] show ?thesis by (auto simp: full_conn_def)
  next
    case (Some a)
    have "full_phase s' p (kinds up') (kinds (dn @ out p)) (a_scheduler_on a) (a_own_lock a) (a_need_lock a)"
      by (rule full_phase_dealt [OF inv d c, where D = "kinds dn" and U = "kinds up"])
        (use i c' Some out U in \<open>auto simp: full_conn_def\<close>)
    with i c c' Some show ?thesis by (auto simp: full_conn_def)
  qed
qed

lemma full_inv_dealt:
  assumes w: "full_inv w" and d: "dealt {} {} (w_sched w) s'" and s': "sched_inv s'" and r: "relayed (w_sched w) s' out"
  shows "full_inv (sched_moved s' t' (w_up w) out w)"
proof (rule full_inv_moved [OF s'])
  have "sched_inv (w_sched w)" using w by (simp add: full_inv_def)
  then show "full_conn s' p (w_app w p) (w_up w p) (w_down w p @ out p)" if "heap s' p = Some c" for p c
    by (rule full_conn_dealt [OF _ d r that full_inv_conn [OF w]]) simp
qed

lemma holder_registered:
  assumes "sched_inv s" "holder s = Some p"
  shows "scheduler_on s \<and> p \<in> set (requests s) \<and> (\<exists>c. heap s p = Some c \<and> has_registered c)"
proof -
  have q: "p \<in> set (requests s)" using assms(2) by (auto simp: holder_eq)
  moreover from q have "scheduler_on s" using assms(1) by (auto simp: sched_inv_def)
  ultimately show ?thesis using mem_invD(8) [of s p] assms(1) by (simp add: sched_inv_def)
qed

lemma full_inv_warned:
  assumes w: "full_inv w" and d: "warned (w_sched w) s'" and s': "sched_inv s'" and r: "relayed (w_sched w) s' out"
  shows "full_inv (sched_moved s' t' (w_up w) out w)"
proof (rule full_inv_moved [OF s'])
  let ?s = "w_sched w"
  fix p c assume c: "heap s' p = Some c"
  have inv: "sched_inv ?s" using w by (simp add: full_inv_def)
  have same: "heap s' = heap ?s" "requests s' = requests ?s" "holder s' = holder ?s" "scheduler_on s' = scheduler_on ?s"
    using d by (simp_all add: warned_def holder_def)
  have out: "out p = (if holder ?s = Some p then [drop_msg] else [])"
    by (rule relayed_eq [OF r c]) (use d c same in \<open>auto simp: warned_def\<close>)
  have k: "message_type_of (m_type drop_msg) = Some DROP_LOCK"
    by (simp add: drop_msg_def message_type_of_Some del: message_type_code.simps)
  show "full_conn s' p (w_app w p) (w_up w p) (w_down w p @ out p)"
    using full_inv_conn [OF w, of p] c same out k holder_registered [OF inv, of p]
    by (auto simp: full_conn_def full_phase_def split: option.splits)
qed

lemma full_inv_welcomed:
  assumes w: "full_inv w" and d: "welcomed q (w_sched w) s'" and s': "sched_inv s'" and r: "relayed (w_sched w) s' out"
    and c: "heap (w_sched w) q = Some c" "\<not> has_registered c" and up: "kinds (w_up w q) = Some REGISTER # kinds ms"
  shows "full_inv (sched_moved s' t' ((w_up w)(q := ms)) out w)"
proof (rule full_inv_moved [OF s'])
  let ?s = "w_sched w"
  have m: "mem_inv ?s" using w by (simp add: full_inv_def sched_inv_def)
  have same: "requests s' = requests ?s" "holder s' = holder ?s" "scheduler_on s' = scheduler_on ?s"
    using d by (simp_all add: welcomed_def holder_def)
  have q: "q \<notin> set (requests ?s)" using mem_invD(8) [OF m, of q] c by auto
  fix p c' assume c': "heap s' p = Some c'"
  have i: "full_conn ?s p (w_app w p) (w_up w p) (w_down w p)" by (rule full_inv_conn [OF w])
  show "full_conn s' p (w_app w p) (((w_up w)(q := ms)) p) (w_down w p @ out p)"
  proof (cases "p = q")
    case True
    let ?m = "id_msg (c_id c') ?s"
    have "out p = [?m]"
      by (rule relayed_eq [OF r c']) (use d c' True id_msg_ok mem_invD(5) [OF m] in \<open>auto simp: welcomed_def\<close>)
    moreover have "message_type_of (m_type ?m) = Some (if scheduler_on ?s then SCHED_ON else SCHED_OFF)"
      by (simp add: id_msg_def sched_status_def message_type_of_Some del: message_type_code.simps)
    moreover have "has_registered c'" using d c' True by (simp add: welcomed_def)
    ultimately show ?thesis using i c c' up True q same by (auto simp: full_conn_def split: option.splits)
  next
    case False
    then have "out p = []" "heap ?s p = Some c'"
      using d c' by (auto simp: welcomed_def intro!: relayed_eq [OF r c'])
    with i c' False same show ?thesis by (auto simp: full_conn_def full_phase_def split: option.splits)
  qed
qed

lemma full_inv_toggled:
  assumes w: "full_inv w" and d: "toggled (w_sched w) s'" and s': "sched_inv s'" and r: "relayed (w_sched w) s' out"
    and q: "heap (w_sched w) q = Some c" "\<not> has_registered c" and up: "w_up w q = m # ms" "message_type_of (m_type m) \<noteq> Some REGISTER"
  shows "full_inv (sched_moved s' t' ((w_up w)(q := ms)) out w)"
proof (rule full_inv_moved [OF s'])
  let ?s = "w_sched w" and ?m = "status_msg ((w_sched w)\<lparr>scheduler_on := \<not> scheduler_on (w_sched w)\<rparr>)"
  have m: "mem_inv ?s" using w by (simp add: full_inv_def sched_inv_def)
  have ok: "message_ok ?m" using mem_invD(5) [OF m] by (simp add: status_msg_def message_ok_def)
  have kind: "message_type_of (m_type ?m) = Some (if scheduler_on ?s then SCHED_OFF else SCHED_ON)"
    by (simp add: status_msg_def sched_status_def message_type_of_Some del: message_type_code.simps)
  have same: "requests s' = []" "holder s' = None" "scheduler_on s' = (\<not> scheduler_on ?s)"
    using d by (simp_all add: toggled_def holder_def)
  fix p c' assume c': "heap s' p = Some c'"
  then have old: "heap ?s p = Some c'" using d by (simp add: toggled_def)
  have out: "out p = (if has_registered c' then [?m] else [])"
    by (rule relayed_eq [OF r c']) (use d c' ok in \<open>auto simp: toggled_def\<close>)
  have i: "full_conn ?s p (w_app w p) (w_up w p) (w_down w p)" by (rule full_inv_conn [OF w])
  show "full_conn s' p (w_app w p) (((w_up w)(q := ms)) p) (w_down w p @ out p)"
  proof (cases "has_registered c'")
    case False
    with i c' old out up show ?thesis by (auto simp: full_conn_def split: option.splits)
  next
    case True
    with q old have "p \<noteq> q" by auto
    with True i c' old out same kind told_off [of "kinds (w_down w p)"] show ?thesis
      by (cases "scheduler_on ?s") (auto simp: full_conn_def full_phase_def split: option.splits)
  qed
qed

lemma full_conn_first:
  assumes i: "full_conn s p ao (m # ms) dn" and c: "heap s p = Some c"
  shows "may_send c (message_type_of (m_type m))"
    "has_registered c \<Longrightarrow> message_type_of (m_type m) \<in> {Some REQ_LOCK, Some LOCK_RELEASED}"
  using i c by (auto simp: full_conn_def full_phase_def may_send_def split: option.splits if_splits)

lemma full_inv_message:
  assumes w: "full_inv w" and up: "w_up w p = m # ms" and c: "heap (w_sched w) p = Some c"
    and eff: "message_effect p (message_type_of (m_type m)) (w_sched w) s'" and s': "sched_inv s'" and r: "relayed (w_sched w) s' out"
  shows "full_inv (sched_moved s' t' ((w_up w)(p := ms)) out w)"
proof -
  let ?s = "w_sched w" and ?t = "message_type_of (m_type m)"
  have inv: "sched_inv ?s" using w by (simp add: full_inv_def)
  have conn: "full_conn ?s q (w_app w q) (w_up w q) (w_down w q)" for q by (rule full_inv_conn [OF w])
  note first = full_conn_first [OF conn [of p, unfolded up] c]
  consider (reg) "?t = Some REGISTER" | (sw) "?t \<noteq> Some REGISTER" "switches ?t (scheduler_on ?s)"
    | (other) "?t \<noteq> Some REGISTER" "\<not> switches ?t (scheduler_on ?s)" by blast
  then show ?thesis
  proof cases
    case reg
    with eff first c up show ?thesis by (intro full_inv_welcomed [OF w _ s' r c]) (auto simp: message_effect_def may_send_def)
  next
    case sw
    then have "\<not> has_registered c" using first(2) by (auto simp: switches_def)
    with sw eff up show ?thesis by (intro full_inv_toggled [OF w _ s' r c]) (auto simp: message_effect_def)
  next
    case other
    then have d: "dealt (if ?t = Some REQ_LOCK \<and> scheduler_on ?s then {p} else {}) (if ?t = Some LOCK_RELEASED \<and> scheduler_on ?s then {p} else {}) ?s s'"
      using eff by (simp add: message_effect_def)
    show ?thesis
    proof (rule full_inv_moved [OF s'])
      fix q d' assume q: "heap s' q = Some d'"
      show "full_conn s' q (w_app w q) (((w_up w)(p := ms)) q) (w_down w q @ out q)"
      proof (cases "q = p \<and> (?t = Some REQ_LOCK \<or> ?t = Some LOCK_RELEASED)")
        case True
        then show ?thesis by (intro full_conn_dealt [OF inv d r q conn]) (auto simp: up)
      next
        case no: False
        then have "full_conn ?s q (w_app w q) (((w_up w)(p := ms)) q) (w_down w q)"
          using conn [of q] first(2) other c up by (cases "q = p") (auto simp: full_conn_def split: option.splits)
        then show ?thesis by (rule full_conn_dealt [OF inv d r q]) (use no in auto)
      qed
    qed
  qed
qed

lemma full_inv_connected:
  assumes w: "full_inv w" and d: "connected (w_sched w) s'" and s': "sched_inv s'" and r: "relayed (w_sched w) s' out"
  shows "full_inv (sched_moved s' t' (w_up w) out w)"
proof (rule full_inv_moved [OF s'])
  let ?s = "w_sched w"
  fix q c assume q: "heap s' q = Some c"
  have same: "requests s' = requests ?s" "holder s' = holder ?s" "scheduler_on s' = scheduler_on ?s"
    "heap ?s q = Some c \<or> heap ?s q = None \<and> \<not> has_registered c"
    using d q by (simp_all add: connected_def holder_def)
  have "out q = []" by (rule relayed_eq [OF r q]) (use d in \<open>simp_all add: connected_def\<close>)
  with full_inv_conn [OF w, of q] same q show "full_conn s' q (w_app w q) (w_up w q) (w_down w q @ out q)"
    by (auto simp: full_conn_def full_phase_def split: option.splits)
qed

lemma full_inv_main:
  assumes w: "full_inv w" and ok: "event_ok lsock ev (w_sched w)" and run: "handle_event lsock ev (w_sched w) = Inr s'"
    and r: "relayed (w_sched w) s' out" and up: "reads lsock ev (w_sched w) (w_up w) up'"
  shows "full_inv (sched_moved s' (w_timer w) up' out w)"
proof -
  have inv: "sched_inv (w_sched w)" using w by (simp add: full_inv_def)
  have s': "sched_inv s'" using wp_D [OF wp_handle_event [OF inv ok] run] by simp
  have "\<forall>p c m ms. heap (w_sched w) p = Some c \<and> w_up w p = m # ms \<longrightarrow> may_send c (message_type_of (m_type m))"
    using full_conn_first(1) full_inv_conn [OF w] by metis
  from main_effect [OF inv ok run up this] show ?thesis
    using full_inv_dealt [OF w _ s' r] full_inv_connected [OF w _ s' r] full_inv_message [OF w _ _ _ s' r] by blast
qed

lemma full_inv_timer:
  assumes w: "full_inv w" and run: "timer_wake r now (w_sched w, w_timer w) = Inr (s', t')" and r: "relayed (w_sched w) s' out"
  shows "full_inv (sched_moved s' t' (w_up w) out w)"
proof -
  have inv: "sched_inv (w_sched w)" using w by (simp add: full_inv_def)
  have s': "sched_inv s'" using wp_D [OF wp_timer_wake [OF inv] run] by simp
  have "dealt {} {} (w_sched w) s' \<or> warned (w_sched w) s'" using wp_D [OF wp_timer_dealt [OF inv] run] by simp
  then show ?thesis using full_inv_dealt [OF w _ s' r] full_inv_warned [OF w _ s' r] by blast
qed

section \<open>Steps of the applications\<close>

lemma full_conn_acts:
  assumes i: "full_conn s p (Some a) up dn" and act: "acts f a a'" and w: "wrote ms a a'" "list_all message_ok ms"
    and f: "f = lc_want \<or> f = lc_early \<or> f = (\<lambda>c. (c, []))"
  shows "full_conn s p (Some a') (up @ ms) dn"
  using f i acts_flags [OF act] acts_wrote [OF act w]
  by (elim disjE) (auto simp: full_conn_def full_phase_def lc_want_def lc_early_def lc_abs_def split: option.splits if_splits)

lemma full_conn_receive:
  assumes i: "full_conn s p (Some a) up (m # dn)" and act: "acts (lc_recv (message_type_of (m_type m))) a a'"
    and w: "wrote ms a a'" "list_all message_ok ms"
  shows "full_conn s p (Some a') (up @ ms) dn"
proof -
  let ?t = "message_type_of (m_type m)"
  have t: "?t = Some LOCK_OK \<or> ?t = Some DROP_LOCK \<or> ?t = Some SCHED_ON \<or> ?t = Some SCHED_OFF"
    using i by (auto simp: full_conn_def full_phase_def split: option.splits)
  show ?thesis
    using t i acts_flags [OF act] acts_wrote [OF act w]
    by (elim disjE) (auto simp: full_conn_def full_phase_def lc_recv_def lc_abs_def split: option.splits if_splits)
qed

lemma full_conn_start:
  assumes i: "full_conn s p None up (m # dn)" and b: "client_ready m a = Inr b"
  shows "full_conn s p (Some (b\<lparr>a_req_lock_msg := zero_message\<lparr>m_type := message_type_code REQ_LOCK, m_id := a_client_id b\<rparr>\<rparr>)) up dn"
proof -
  let ?t = "message_type_of (m_type m)"
  obtain c where c: "heap s p = Some c" "has_registered c" "up = []" "p \<notin> set (requests s)"
    and dn: "\<forall>k \<in> set (?t # kinds dn). is_status k" "told (?t = Some SCHED_ON) (kinds dn) = scheduler_on s"
    using i by (auto simp: full_conn_def split: option.splits if_splits)
  have t: "is_status ?t" using dn(1) by simp
  then have flags: "a_scheduler_on b = (?t = Some SCHED_ON)" "a_own_lock b = (?t \<noteq> Some SCHED_ON)" "\<not> a_need_lock b"
      "a_out_msg b = zero_message\<lparr>m_id := a_client_id b\<rparr>"
    using b by (auto simp: client_ready_def initial_status_def bindR_Inr_iff split: if_splits option.splits)
  have "drops_ok x D" if "\<forall>k \<in> set D. is_status k" for x D using that by (induction D arbitrary: x) auto
  then have "drops_ok (?t = Some SCHED_ON) (kinds dn)" using dn(1) by simp
  moreover have "holder s \<noteq> Some p" using c(4) by (auto simp: holder_eq)
  ultimately show ?thesis using c dn flags
    by (auto simp: full_conn_def full_phase_def app_ok_def zero_message_def)
qed

lemma full_inv_app:
  assumes "full_inv w" "full_conn (w_sched w) p (Some a) (w_up w p @ ms) dn"
  shows "full_inv (app_moved p a ms dn w)"
  using assms by (auto simp: full_inv_def app_moved_def)

lemma full_inv_up:
  assumes "full_inv w" "full_conn (w_sched w) p (w_app w p) up (w_down w p)"
  shows "full_inv (w\<lparr>w_up := (w_up w)(p := up)\<rparr>)"
  using assms by (auto simp: full_inv_def)

lemma full_inv_control:
  assumes w: "full_inv w" and c: "heap (w_sched w) p = Some c" "\<not> has_registered c"
    and m: "message_type_of (m_type m) \<in> {Some SET_TQ, Some SCHED_ON, Some SCHED_OFF}"
    and up: "list_all (\<lambda>m. message_type_of (m_type m) \<noteq> Some REGISTER) (w_up w p)"
  shows "full_inv (w\<lparr>w_up := (w_up w)(p := w_up w p @ [m])\<rparr>)"
  by (rule full_inv_up [OF w]) (use full_inv_conn [OF w, of p] c m up in \<open>auto simp: full_conn_def list_all_iff split: option.splits\<close>)

lemma resupplied_full [simp]: "full_conn (resupplied as ms rs st s) = full_conn s"
  by (intro ext) (simp add: full_conn_def full_phase_def cong: option.case_cong)

lemma reequipped_full [simp]: "full_conn s p (map_option (reequipped as ds) ao) up dn = full_conn s p ao up dn"
  by (cases ao) (simp_all add: full_conn_def split: option.split)

lemma full_inv_world_step: "world_step w w' \<Longrightarrow> full_inv w \<Longrightarrow> full_inv w'"
proof (induction rule: world_step.induct)
  case (main lsock ev w s' out up')
  then show ?case by (intro full_inv_main) auto
next
  case (timer r now w s' t' out)
  then show ?case by (intro full_inv_timer) auto
next
  case (want w p a fin a' ms)
  then have i: "full_conn (w_sched w) p (Some a) (w_up w p) (w_down w p)" using full_inv_conn [of w p] by simp
  then have "app_ok a" by (auto simp: full_conn_def split: option.splits)
  with want.hyps(2) have "acts lc_want a a'"
    using post_D [OF continue_with_lock_acts] post_D [OF cwl_resume_acts] by fastforce
  then show ?case using want i by (intro full_inv_app full_conn_acts) auto
next
  case (receive w p a m dn a' ms)
  then have i: "full_conn (w_sched w) p (Some a) (w_up w p) (m # dn)" using full_inv_conn [of w p] by simp
  then have "app_ok a" by (auto simp: full_conn_def split: option.splits)
  with receive.hyps(3) have "acts (lc_recv (message_type_of (m_type m))) a a'"
    using post_D [OF client_handle_acts] by blast
  then show ?case using receive i by (intro full_inv_app full_conn_receive)
next
  case (early w p a r t0 t1 now e a' e' ms)
  then have i: "full_conn (w_sched w) p (Some a) (w_up w p) (w_down w p)" using full_inv_conn [of w p] by simp
  then have "app_ok a" by (auto simp: full_conn_def split: option.splits)
  with early.hyps(2) have "acts lc_early a a' \<or> acts (\<lambda>c. (c, [])) a a'"
    using post_D [OF release_wake_acts] by fastforce
  then show ?case using early i full_conn_acts by (intro full_inv_app) blast+
next
  case (join w p c m)
  then have "full_conn (w_sched w) p (w_app w p) (w_up w p) (w_down w p)" using full_inv_conn by blast
  with join.hyps have "full_conn (w_sched w) p (w_app w p) [m] (w_down w p)" by (auto simp: full_conn_def split: option.splits)
  with join.prems show ?case by (rule full_inv_up)
next
  case (start w p m dn a b)
  then have "full_conn (w_sched w) p None (w_up w p) (m # dn)" using full_inv_conn [of w p] by simp
  from full_conn_start [OF this start.hyps(3)] start.prems show ?case by (intro full_inv_app) simp_all
next
  case (control w p c m)
  then show ?case by (intro full_inv_control) auto
next
  case (refill ms w st as rs bs ds)
  then show ?case using resupplied_inv by (simp add: full_inv_def)
qed

lemma full_inv_step: "full_step w w' \<Longrightarrow> full_inv w \<Longrightarrow> full_inv w'"
  by (induction rule: full_step.induct) (auto intro: full_inv_world_step full_inv_control)

lemma full_no_idle_main:
  assumes w: "full_inv w" "no_idle (w_sched w)" and ok: "event_ok lsock ev (w_sched w)"
    and run: "handle_event lsock ev (w_sched w) = Inr s'" and up: "reads lsock ev (w_sched w) (w_up w) up'"
  shows "no_idle s'"
proof -
  let ?s = "w_sched w" and ?p = "ev_data ev"
  have inv: "sched_inv ?s" using w by (simp add: full_inv_def)
  have "event_label lsock ev ?s \<noteq> Expel q" for q
  proof
    assume e: "event_label lsock ev ?s = Expel q"
    then obtain x m t where m: "receive_message ?p ?s = Inr (x, m, t)" "\<not> x < 0" "msg_event ?s ?p m = Expel q"
      "data_fd ?p \<noteq> lsock" "ev_events ev AND EPOLLIN \<noteq> 0"
      by (auto simp: event_label_def Let_def split: if_splits sum.splits prod.splits)
    then obtain ms where ms: "w_up w ?p = m # ms" using up by (auto simp: reads_def Let_def)
    obtain c where c: "heap ?s ?p = Some c" using ok m(4) by (auto simp: event_ok_def receive_ok_def split: option.splits)
    with full_conn_first(1) [of ?s ?p "w_app w ?p" m ms "w_down w ?p" c] full_inv_conn [OF w(1), of ?p] ms m(3) show False
      by (auto simp: msg_event_def registered_at_def may_send_def split: option.splits message_type.splits if_splits)
  qed
  then show ?thesis
    using lm_step_no_idle [OF conjunct2 [OF wp_D [OF wp_handle_event [OF inv ok] run]] lm_ok_abs [OF inv]] w(2)
    by (simp add: no_idle_abs holder_abs)
qed

lemma full_step_sched:
  assumes "full_step w w'" "full_inv w" "no_idle (w_sched w)"
  shows "full_inv w' \<and> no_idle (w_sched w')"
proof
  show "full_inv w'" using full_inv_step assms by blast
  have inv: "sched_inv (w_sched w)" using assms(2) by (simp add: full_inv_def)
  have "no_idle (w_sched w')" if "world_step w w'"
    using that
  proof (cases rule: world_step.cases)
    case (main lsock ev s' out up')
    then show ?thesis using full_no_idle_main [OF assms(2,3)] by (simp add: sched_moved_def)
  next
    case (timer r now s' t' out)
    then show ?thesis using world_no_idle_timer [OF inv assms(3)] by (simp add: sched_moved_def)
  qed (use assms(3) in \<open>simp_all add: app_moved_def\<close>)
  with assms(1,3) show "no_idle (w_sched w')" by (cases rule: full_step.cases) auto
qed

lemma full_reach_inv:
  assumes "full_reach w"
  shows "full_inv w \<and> no_idle (w_sched w)"
proof -
  obtain path k ms rs st lsock s n where
    m: "sched_main path (sched_globals\<lparr>kern := k, mallocs := ms, rands := rs, stale := st\<rparr>) = Inr (lsock, s)"
      "\<And>p c. Some (p, c) \<in> set ms \<Longrightarrow> client_ok c" and steps: "full_step\<^sup>*\<^sup>* (world_start n s) w"
    using assms by (auto simp: full_reach_def)
  have s: "sched_inv s \<and> no_idle s \<and> scheduler_on s \<and> clients s = []" using sched_boot [OF m(1)] m(2) by blast
  then have "heap s p = None" for p using mem_invD(2) [of s] by (auto simp: sched_inv_def)
  with s have "full_inv (world_start n s) \<and> no_idle (w_sched (world_start n s))"
    by (auto simp: full_inv_def full_conn_def world_start_def timer_start_def timer_arm_def no_idle_def sched_inv_def)
  with steps show ?thesis by (induction rule: rtranclp_induct) (use full_step_sched in blast)+
qed

text \<open>A run in which nobody switches the scheduler off is one of these.\<close>

lemma world_reach_full: "world_reach w \<Longrightarrow> full_reach w"
  unfolding world_reach_def full_reach_def by (metis (mono_tags, lifting) full_step.same mono_rtranclp)

end
