(* ===== verification/Toggle_Run.thy ===== *)
theory Toggle_Run
  imports Toggle System_Props
begin

text \<open>
  Concrete runs of the system with two applications and the command line tool: the connections 1 and 2 are the applications', 3 is
  the tool's. The state of such a run is described by what matters for the lock; each lemma is one step of the
  code with system calls that succeed.
\<close>

section \<open>The scheduler with two applications and the tool\<close>

definition desk :: "sched \<Rightarrow> bool \<Rightarrow> addr list \<Rightarrow> nat \<Rightarrow> sysret list \<Rightarrow> bool" where
  "desk s on Q n as \<longleftrightarrow> scheduler_on s = on \<and> requests s = Q \<and> lock_held s = (Q \<noteq> []) \<and> clients s = [1, 2, 3]
     \<and> (\<exists>c. heap s 1 = Some c \<and> has_registered c \<and> c_fd c = 7) \<and> (\<exists>c. heap s 2 = Some c \<and> has_registered c \<and> c_fd c = 8)
     \<and> (\<exists>c. heap s 3 = Some c \<and> \<not> has_registered c \<and> c_fd c = 9)
     \<and> n \<le> length (mallocs s) \<and> None \<notin> set (mallocs s) \<and> answers (kern s) = as"

definition note_of :: "addr \<Rightarrow> message_type \<Rightarrow> message" where
  "note_of p k = zero_message\<lparr>m_type := message_type_code k, m_id := p\<rparr>"

lemma note_of_ok [simp]: "message_ok (note_of p k)" "message_type_of (m_type (note_of p k)) = Some k" "NUL \<in> set (m_data (note_of p k))"
  by (simp_all add: note_of_def message_type_of_Some del: message_type_code.simps) (simp add: zero_message_def msg_sizes)

lemma receive_carries:
  assumes "heap s p = Some c" "answers (kern s) = carries m # as" "message_ok m"
  shows "receive_message p s = Inr (0, m, s\<lparr>kern := (kern s)\<lparr>answers := as, calls := calls (kern s) @ [(Sys_read (c_fd c) 537, carries m)]\<rparr>\<rparr>)"
  using assms receives_carries [of "kern s" m as "c_fd c"]
  by (simp add: receive_message_def decode_encode_message Let_def) (simp add: carries_def)

lemma handle_carries:
  assumes "data_fd p \<noteq> 6" "heap s p = Some c" "answers (kern s) = carries m # as" "message_ok m"
  shows "handle_event 6 (ex_event p) s
    = process_msg p m (s\<lparr>kern := (kern s)\<lparr>answers := as, calls := calls (kern s) @ [(Sys_read (c_fd c) 537, carries m)]\<rparr>\<rparr>)"
  using assms receive_carries [OF assms(2-4)]
  by (simp add: handle_event_def ex_event_def client_event_def EPOLLIN_def)

lemma send_taken:
  assumes "heap s p = Some c" "answers (kern s) = taken # as"
  shows "send_message p m s = Inr (0, s\<lparr>kern := (kern s)\<lparr>answers := as, calls := calls (kern s) @ [(Sys_write (c_fd c) (encode_message m), taken)]\<rparr>\<rparr>)"
  using assms by (simp add: send_message_def nvshare_send_noblock_def interrupted_def taken_def deref_def)

lemma grant_taken:
  assumes "requests s = p # Q" "heap s p = Some c" "answers (kern s) = taken # as"
  shows "\<exists>s'. try_schedule s = Inr s' \<and> requests s' = requests s \<and> lock_held s' \<and> scheduler_on s' = scheduler_on s \<and> heap s' = heap s
    \<and> clients s' = clients s \<and> mallocs s' = mallocs s \<and> answers (kern s') = as"
  using assms by (simp add: try_schedule.simps [of s] send_taken [where c = c and as = as] set_out_type_def Let_def)

lemma desk_request:
  assumes d: "desk s True Q (Suc n) (carries (note_of p REQ_LOCK) # (if Q = [] then taken # as else as))" and p: "p = 1 \<or> p = 2" "p \<notin> set Q"
    and Q: "set Q \<subseteq> {1, 2}"
  shows "\<exists>s'. handle_event 6 (ex_event p) s = Inr s' \<and> desk s' True (Q @ [p]) n as"
proof -
  let ?m = "note_of p REQ_LOCK" and ?as = "if Q = [] then taken # as else as"
  obtain c where c: "heap s p = Some c" "has_registered c" using d p by (auto simp: desk_def)
  let ?s = "s\<lparr>kern := (kern s)\<lparr>answers := ?as, calls := calls (kern s) @ [(Sys_read (c_fd c) 537, carries ?m)]\<rparr>\<rparr>"
  obtain y ms where y: "mallocs s = y # ms" using d by (cases "mallocs s") (auto simp: desk_def)
  with d obtain x where ms: "mallocs s = Some x # ms" "n \<le> length ms" "None \<notin> set ms" by (cases y) (auto simp: desk_def)
  have "insert_req_loop p R ?s = Inr False" if "set R \<subseteq> {1, 2} - {p}" for R
    using that d p by (induction R) (auto simp: desk_def deref_def)
  moreover have "set Q \<subseteq> {1, 2} - {p}" using p Q by auto
  ultimately have "insert_req_loop p Q ?s = Inr False" by blast
  then have ins: "insert_req p ?s = Inr (?s\<lparr>mallocs := ms, requests := Q @ [p]\<rparr>)"
    using d ms by (auto simp: insert_req_def desk_def pop_malloc_def)
  have "data_fd p \<noteq> 6" using p by (auto simp: data_fd_def)
  then have run: "handle_event 6 (ex_event p) s = process_msg p ?m ?s"
    using d by (intro handle_carries [OF _ c(1)]) (auto simp: desk_def)
  show ?thesis
  proof (cases "Q = []")
    case True
    let ?t = "?s\<lparr>mallocs := ms, requests := [p]\<rparr>"
    obtain s' where "try_schedule ?t = Inr s'" "requests s' = [p]" "lock_held s'" "scheduler_on s' = scheduler_on s" "heap s' = heap s"
      "clients s' = clients s" "mallocs s' = ms" "answers (kern s') = as"
      using grant_taken [of ?t p "[]" c as] c(1) True by auto
    then show ?thesis using run ins c d ms True
      by (intro exI [of _ s']) (auto simp: process_msg_def desk_def)
  next
    case False
    then show ?thesis using run ins c d ms by (auto simp: process_msg_def desk_def)
  qed
qed

lemma desk_release:
  assumes d: "desk s True (p # Q) n (carries (note_of p LOCK_RELEASED) # (if Q = [] then as else taken # as))" and p: "p = 1 \<or> p = 2"
    and Q: "set Q \<subseteq> {1, 2} - {p}" "distinct Q"
  shows "\<exists>s'. handle_event 6 (ex_event p) s = Inr s' \<and> desk s' True Q n as"
proof -
  let ?m = "note_of p LOCK_RELEASED" and ?as = "if Q = [] then as else taken # as"
  obtain c where c: "heap s p = Some c" "has_registered c" using d p by (auto simp: desk_def)
  let ?s = "s\<lparr>kern := (kern s)\<lparr>answers := ?as, calls := calls (kern s) @ [(Sys_read (c_fd c) 537, carries ?m)]\<rparr>\<rparr>"
  have "data_fd p \<noteq> 6" using p by (auto simp: data_fd_def)
  then have run: "handle_event 6 (ex_event p) s = process_msg p ?m ?s"
    using d by (intro handle_carries [OF _ c(1)]) (auto simp: desk_def)
  have skip: "remove_req_loop p R t = Inr t" if "set R \<subseteq> {1, 2} - {p}" "heap t = heap s" for R t
    using that d p by (induction R) (auto simp: desk_def deref_def)
  have rem: "remove_req p ?s = Inr (?s\<lparr>lock_held := False, requests := Q\<rparr>)"
    using d c Q skip [of Q] by (simp add: remove_req_def desk_def deref_def)
  show ?thesis
  proof (cases Q)
    case Nil
    then show ?thesis using run rem c d by (auto simp: process_msg_def desk_def try_schedule.simps)
  next
    case (Cons q R)
    let ?t = "?s\<lparr>lock_held := False, requests := Q\<rparr>"
    have "\<exists>e. heap s q = Some e" using d Q Cons by (auto simp: desk_def)
    then obtain e where e: "heap s q = Some e" by blast
    obtain s' where "try_schedule ?t = Inr s'" "requests s' = Q" "lock_held s'" "scheduler_on s' = scheduler_on s" "heap s' = heap s"
      "clients s' = clients s" "mallocs s' = mallocs s" "answers (kern s') = as"
      using grant_taken [of ?t q R e as] e Cons by auto
    then show ?thesis using run rem c d Cons
      by (intro exI [of _ s']) (auto simp: process_msg_def desk_def)
  qed
qed

lemma desk_switch:
  assumes d: "desk s on Q n (carries (note_of 3 k) # taken # taken # as)" and k: "k = (if on then SCHED_OFF else SCHED_ON)" and Q: "\<not> on \<Longrightarrow> Q = []"
  shows "\<exists>s'. handle_event 6 (ex_event 3) s = Inr s' \<and> desk s' (\<not> on) [] n as"
proof -
  obtain c where c: "heap s 3 = Some c" "\<not> has_registered c" using d by (auto simp: desk_def)
  obtain c1 c2 where c12: "heap s 1 = Some c1" "heap s 2 = Some c2" "has_registered c1" "has_registered c2" using d by (auto simp: desk_def)
  let ?s = "s\<lparr>kern := (kern s)\<lparr>answers := taken # taken # as, calls := calls (kern s) @ [(Sys_read (c_fd c) 537, carries (note_of 3 k))]\<rparr>\<rparr>"
  have run: "handle_event 6 (ex_event 3) s = process_msg 3 (note_of 3 k) ?s"
    using d by (intro handle_carries [OF _ c(1)]) (auto simp: desk_def data_fd_def)
  have "\<exists>s'. bcast_status (?s\<lparr>scheduler_on := \<not> on\<rparr>) = Inr s' \<and> scheduler_on s' = (\<not> on) \<and> requests s' = requests s \<and> lock_held s' = lock_held s
     \<and> clients s' = clients s \<and> heap s' = heap s \<and> mallocs s' = mallocs s \<and> answers (kern s') = as"
    using d c c12 by (simp add: bcast_status_def desk_def deref_def set_out_type_def Let_def
        send_taken [where c = c1 and as = "taken # as"] send_taken [where c = c2 and as = as])
  with run c d k Q show ?thesis by (cases on) (auto simp: process_msg_def desk_def)
qed

section \<open>The whole run\<close>

text \<open>
  An application: its flags, what is under way to and from the scheduler, and that its next \<open>n\<close> calls succeed (\<open>cu_ok\<close> is
  also NVML's answer that the GPU is idle).
\<close>

record seat =
  st_lc :: lc
  st_up :: "message_type list"
  st_down :: "message_type list"

definition supplied :: "nat \<Rightarrow> app \<Rightarrow> bool" where
  "supplied n a \<longleftrightarrow> n \<le> length (answers (a_kern a)) \<and> set (answers (a_kern a)) \<subseteq> {wrote_all}
     \<and> n \<le> length (cu_answers (a_cuda a)) \<and> set (cu_answers (a_cuda a)) \<subseteq> {cu_ok} \<and> a_cuda_ctx_ok a \<and> a_nvml_ok a"

definition seated :: "world \<Rightarrow> addr \<Rightarrow> nat \<Rightarrow> seat \<Rightarrow> bool" where
  "seated w p n st \<longleftrightarrow> (\<exists>a. w_app w p = Some a \<and> lc_abs a = st_lc st \<and> a_client_id a = p \<and> supplied n a)
     \<and> w_up w p = map (note_of p) (st_up st) \<and> kinds (w_down w p) = map Some (st_down st)"

text \<open>With \<open>tog\<close> the tool may have switched the scheduler off and on before.\<close>

definition reached :: "bool \<Rightarrow> world \<Rightarrow> bool" where
  "reached tog w = (if tog then full_reach w else world_reach w)"

lemma reached_full: "reached tog w \<Longrightarrow> full_reach w"
  using world_reach_full by (auto simp: reached_def split: if_splits)

lemma reached_step: "reached tog w \<Longrightarrow> world_step w w' \<Longrightarrow> reached tog w'"
  using full_reach_step full_step.same world_reach_step by (fastforce simp: reached_def)

definition rig :: "bool \<Rightarrow> world \<Rightarrow> bool \<Rightarrow> addr list \<Rightarrow> nat \<Rightarrow> sysret list \<Rightarrow> (addr \<Rightarrow> seat) \<Rightarrow> bool" where
  "rig tog w on Q n as A \<longleftrightarrow> reached tog w \<and> desk (w_sched w) on Q n as \<and> w_up w 3 = []
     \<and> seated w 1 n (A 1) \<and> seated w 2 n (A 2)"

lemma desk_le: "desk s on Q n as \<Longrightarrow> m \<le> n \<Longrightarrow> desk s on Q m as"
  by (auto simp: desk_def)

lemma seated_le: "seated w p n st \<Longrightarrow> m \<le> n \<Longrightarrow> seated w p m st"
  by (auto simp: seated_def supplied_def)

lemma supplied_more:
  assumes "supplied (Suc n) a"
  obtains as cs where "answers (a_kern a) = wrote_all # as" "cu_answers (a_cuda a) = cu_ok # cs" "n \<le> length as" "n \<le> length cs"
    "set as \<subseteq> {wrote_all}" "set cs \<subseteq> {cu_ok}"
  using assms that by (cases "answers (a_kern a)"; cases "cu_answers (a_cuda a)") (auto simp: supplied_def)

lemma send_whole_wrote:
  assumes "message_ok m" "answers (a_kern s) = wrote_all # as"
  shows "\<exists>k. send_whole m s = Inr (s\<lparr>a_kern := k\<rparr>) \<and> answers k = as"
proof -
  have "encode_message m \<noteq> []" by (simp add: encode_message_def)
  then show ?thesis
    using assms
    by (simp add: send_whole_def write_whole_def write_loop.simps [of _ "encode_message m"] write_loop.simps [of _ "[]"]
        wrote_all_def interrupted_def Let_def) (intro exI conjI, rule refl, simp)
qed

lemma rig_app_ok:
  assumes "full_reach w" "w_app w p = Some a"
  shows "app_ok a"
  using full_inv_conn [of w p] full_reach_inv [OF assms(1)] assms(2) by (auto simp: full_conn_def split: option.splits)

text \<open>A step of one application, as the protocol sees it.\<close>

definition noted :: "lc_out \<Rightarrow> message_type" where
  "noted x = (case x of Req \<Rightarrow> REQ_LOCK | Rel \<Rightarrow> LOCK_RELEASED)"

definition moved :: "(lc \<Rightarrow> lc \<times> lc_out list) \<Rightarrow> message_type list \<Rightarrow> seat \<Rightarrow> seat" where
  "moved f D st = \<lparr>st_lc = fst (f (st_lc st)), st_up = st_up st @ map noted (snd (f (st_lc st))), st_down = D\<rparr>"

lemma wire_note: "wire a x = note_of (a_client_id a) (noted x)"
  by (cases x) (simp_all add: wire_def note_of_def noted_def)

lemma rig_moved:
  assumes r: "rig tog w on Q (Suc n) as A" and p: "p = 1 \<or> p = 2" and a: "w_app w p = Some a" "lc_abs a = st_lc (A p)" "a_client_id a = p"
    and act: "acts f a a'" and sup: "supplied n a'" and dn: "kinds dn = map Some D"
    and st: "\<And>ms. wrote ms a a' \<Longrightarrow> list_all message_ok ms \<Longrightarrow> world_step w (app_moved p a' ms dn w)"
  shows "\<exists>w'. world_step w w' \<and> w_app w' p = Some a' \<and> rig tog w' on Q n as (A(p := moved f D (A p)))"
proof -
  let ?ms = "map (wire a) (snd (f (lc_abs a)))" and ?w = "app_moved p a' (map (wire a) (snd (f (lc_abs a)))) dn w"
  have "wrote ?ms a a'" "a_client_id a' = p" "lc_abs a' = fst (f (lc_abs a))" using act a by (simp_all add: acts_def)
  moreover have "list_all message_ok ?ms" by (simp add: list_all_iff wire_note)
  ultimately have step: "world_step w ?w" by (intro st)
  then have "reached tog ?w" using reached_step r by (auto simp: rig_def)
  moreover have "seated ?w p n (moved f D (A p))"
    using r p a act sup dn by (auto simp: seated_def app_moved_def rig_def moved_def acts_def wire_note)
  moreover have "seated ?w q n (A q)" if "q \<noteq> p" "q = 1 \<or> q = 2" for q
  proof -
    have "seated w q n (A q)" using r that seated_le [of w q "Suc n" "A q" n] by (auto simp: rig_def)
    then show ?thesis using that by (simp add: seated_def app_moved_def)
  qed
  moreover have "w_sched ?w = w_sched w" "w_up ?w 3 = w_up w 3" using p by (auto simp: app_moved_def)
  ultimately show ?thesis using r p desk_le [of "w_sched w" on Q "Suc n" as n] step
    by (intro exI [of _ ?w]) (auto simp: rig_def app_moved_def)
qed

lemma rig_seat:
  assumes "rig tog w on Q n as A" "p = 1 \<or> p = 2"
  obtains a where "w_app w p = Some a" "lc_abs a = st_lc (A p)" "a_client_id a = p" "supplied n a" "app_ok a"
    "w_up w p = map (note_of p) (st_up (A p))" "kinds (w_down w p) = map Some (st_down (A p))"
proof -
  have "seated w p n (A p)" "full_reach w" using assms reached_full by (auto simp: rig_def)
  with that rig_app_ok show ?thesis by (auto simp: seated_def)
qed

lemma rig_want:
  assumes r: "rig tog w on Q (Suc n) as A" and p: "p = 1 \<or> p = 2" and idle: "\<not> lc_own (st_lc (A p))" "\<not> lc_need (st_lc (A p))"
  shows "\<exists>w'. world_step w w' \<and> rig tog w' on Q n as (A(p := moved lc_want (st_down (A p)) (A p)))"
proof (rule rig_seat [OF r p])
  fix a assume a: "w_app w p = Some a" "lc_abs a = st_lc (A p)" "a_client_id a = p" "supplied (Suc n) a" "app_ok a"
    "w_up w p = map (note_of p) (st_up (A p))" "kinds (w_down w p) = map Some (st_down (A p))"
  obtain bs cs where bs: "answers (a_kern a) = wrote_all # bs" "cu_answers (a_cuda a) = cu_ok # cs" "n \<le> length bs" "n \<le> length cs"
    "set bs \<subseteq> {wrote_all}" "set cs \<subseteq> {cu_ok}" using supplied_more [OF a(4)] by blast
  have flags: "\<not> a_own_lock a" "\<not> a_need_lock a" using idle unfolding a(2) [symmetric] by (simp_all add: lc_abs_def)
  obtain k where k: "send_whole (a_req_lock_msg a) (a\<lparr>a_need_lock := True\<rparr>) = Inr (a\<lparr>a_need_lock := True, a_kern := k\<rparr>)" "answers k = bs"
    using a(5) bs(1) send_whole_wrote [of "a_req_lock_msg a" "a\<lparr>a_need_lock := True\<rparr>" bs] by (auto simp: app_ok_def)
  let ?a = "a\<lparr>a_need_lock := True, a_kern := k\<rparr>"
  have run: "continue_with_lock a = Inr (False, ?a)"
    using k flags a(4) by (simp add: continue_with_lock_def get_context_def cwl_resume_def supplied_def)
  have act: "acts lc_want a ?a" using post_D [OF continue_with_lock_acts [OF a(5)] run] by simp
  have sup: "supplied n ?a" using a(4) bs k by (simp add: supplied_def)
  have "world_step w (app_moved p ?a ms (w_down w p) w)" if "wrote ms a ?a" "list_all message_ok ms" for ms
    using world_step.want [OF a(1)] run that by blast
  from rig_moved [OF r p a(1-3) act sup a(7) this] show ?thesis by blast
qed

lemma rig_receive:
  assumes r: "rig tog w on Q (Suc n) as A" and p: "p = 1 \<or> p = 2" and D: "st_down (A p) = k # D" and k: "k \<noteq> DROP_LOCK"
  shows "\<exists>w'. world_step w w' \<and> rig tog w' on Q n as (A(p := moved (lc_recv (Some k)) D (A p)))"
proof (rule rig_seat [OF r p])
  fix a assume a: "w_app w p = Some a" "lc_abs a = st_lc (A p)" "a_client_id a = p" "supplied (Suc n) a" "app_ok a"
    "w_up w p = map (note_of p) (st_up (A p))" "kinds (w_down w p) = map Some (st_down (A p))"
  obtain m dn where m: "w_down w p = m # dn" "message_type_of (m_type m) = Some k" "kinds dn = map Some D"
    using a(7) D by (cases "w_down w p") auto
  obtain a' where run: "client_handle m a = Inr a'" and sup: "supplied n a'"
    using m(2) k a(4) by (cases k) (auto simp: client_handle_def supplied_def)
  have act: "acts (lc_recv (Some k)) a a'" using post_D [OF client_handle_acts [OF a(5)] run] m(2) by simp
  have "world_step w (app_moved p a' ms dn w)" if "wrote ms a a'" "list_all message_ok ms" for ms
    by (rule world_step.receive [OF a(1) m(1) run that])
  from rig_moved [OF r p a(1-3) act sup m(3) this] show ?thesis by blast
qed

text \<open>
  The early-release thread: a wake-up for work that was done starts the interval again, and an interval without work ends
  with the release of the lock.
\<close>

abbreviation zero_time :: timespec where
  "zero_time \<equiv> \<lparr>tv_sec = 0, tv_nsec = 0\<rparr>"

definition resting :: "world \<Rightarrow> addr \<Rightarrow> bool" where
  "resting w p \<longleftrightarrow> (case w_app w p of None \<Rightarrow> False | Some a \<Rightarrow> \<not> a_did_work a)"

lemma rig_rest:
  assumes r: "rig tog w on Q n as A" and p: "p = 1 \<or> p = 2"
  shows "\<exists>w'. world_step w w' \<and> resting w' p \<and> rig tog w' on Q n as A"
proof (rule rig_seat [OF r p])
  fix a assume a: "w_app w p = Some a" "lc_abs a = st_lc (A p)" "a_client_id a = p" "supplied n a" "app_ok a"
    "w_up w p = map (note_of p) (st_up (A p))" "kinds (w_down w p) = map Some (st_down (A p))"
  let ?a = "a\<lparr>a_did_work := False\<rparr>"
  let ?w = "app_moved p ?a [] (w_down w p) w"
  obtain e where run: "release_wake 0 zero_time zero_time zero_time (a, zero_time) = Inr (?a, e)"
    by (cases "a_did_work a") (simp_all add: release_wake_def release_arm_def)
  have step: "world_step w ?w" by (rule world_step.early [OF a(1) run]) (simp_all add: wrote_def)
  have "seated ?w q n (A q)" if "q = 1 \<or> q = 2" for q
    using r that p a by (cases "q = p") (auto simp: rig_def seated_def app_moved_def supplied_def lc_abs_def)
  moreover have "w_sched ?w = w_sched w" "w_up ?w 3 = w_up w 3" using p by (auto simp: app_moved_def)
  moreover have "reached tog ?w" using reached_step [OF _ step] r by (simp add: rig_def)
  ultimately show ?thesis using r step by (intro exI [of _ ?w]) (auto simp: rig_def resting_def app_moved_def)
qed

lemma rig_early_once:
  assumes r: "rig tog w on Q (Suc n) as A" and p: "p = 1 \<or> p = 2" and own: "lc_on (st_lc (A p))" "lc_own (st_lc (A p))" and rest: "resting w p"
  shows "\<exists>w'. world_step w w' \<and> rig tog w' on Q n as (A(p := moved lc_early (st_down (A p)) (A p)))"
proof (rule rig_seat [OF r p])
  fix b assume b: "w_app w p = Some b" "lc_abs b = st_lc (A p)" "a_client_id b = p" "supplied (Suc n) b" "app_ok b"
    "w_up w p = map (note_of p) (st_up (A p))" "kinds (w_down w p) = map Some (st_down (A p))"
  obtain bs cs where bs: "answers (a_kern b) = wrote_all # bs" "cu_answers (a_cuda b) = cu_ok # cs" "n \<le> length bs" "n \<le> length cs"
    "set bs \<subseteq> {wrote_all}" "set cs \<subseteq> {cu_ok}" using supplied_more [OF b(4)] by blast
  have flags: "a_own_lock b" "a_scheduler_on b" "a_nvml_ok b" using own b(4) unfolding b(2) [symmetric] by (simp_all add: lc_abs_def supplied_def)
  let ?u = "b\<lparr>a_cuda := \<lparr>cu_answers = cs, cu_calls = cu_calls (a_cuda b) @ [(Nvml_DeviceGetUtilizationRates, cu_ok)]\<rparr>\<rparr>"
  have busy: "gpu_busy zero_time zero_time b = Inr (False, ?u)"
    using flags bs(2) by (simp add: gpu_busy_def cuda_defs cuda_sys_def cu_ok_def NVML_SUCCESS_def)
  obtain k where k: "send_whole (release_message ?u) ?u = Inr (?u\<lparr>a_kern := k\<rparr>)" "answers k = bs"
    using send_whole_wrote [of "release_message ?u" ?u bs] bs(1) by (auto simp: release_message_def)
  let ?b = "?u\<lparr>a_kern := k, a_own_lock := False, a_did_work := False\<rparr>"
  obtain e where run: "release_wake ETIMEDOUT zero_time zero_time zero_time (b, zero_time) = Inr (?b, e)"
    using busy k flags rest b(1) by (simp add: release_wake_def release_arm_def resting_def)
  have "lc_abs ?b \<noteq> lc_abs b" using flags by (simp add: lc_abs_def)
  then have act: "acts lc_early b ?b" using post_D [OF release_wake_acts [OF b(5)] run] by (auto simp: acts_def)
  have sup: "supplied n ?b" using b(4) bs k by (simp add: supplied_def)
  have "world_step w (app_moved p ?b ms (w_down w p) w)" if "wrote ms b ?b" "list_all message_ok ms" for ms
    by (rule world_step.early [OF b(1) run that])
  from rig_moved [OF r p b(1-3) act sup b(7) this] show ?thesis by blast
qed

lemma rig_early:
  assumes "rig tog w on Q (Suc n) as A" "p = 1 \<or> p = 2" "lc_on (st_lc (A p))" "lc_own (st_lc (A p))"
  shows "\<exists>w'. rig tog w' on Q n as (A(p := moved lc_early (st_down (A p)) (A p)))"
  using rig_rest [OF assms(1,2)] rig_early_once [of tog _ on Q n as A p] assms(2-4) by blast

text \<open>A step of the scheduler: the first message under way from a client is delivered.\<close>

lemma deliver:
  assumes reach: "reached tog w" and up: "w_up w p = m # ms" and m: "message_ok m" "NUL \<in> set (m_data m)"
    and c: "heap (w_sched w) p = Some c" "may_send c (message_type_of (m_type m))" "data_fd p \<noteq> 6"
    and as: "answers (kern (w_sched w)) = carries m # as" and run: "handle_event 6 (ex_event p) (w_sched w) = Inr s'"
  shows "message_effect p (message_type_of (m_type m)) (w_sched w) s'"
    "relayed (w_sched w) s' out \<Longrightarrow> world_step w (sched_moved s' (w_timer w) ((w_up w)(p := ms)) out w)"
proof -
  let ?s = "w_sched w"
  have inv: "sched_inv ?s" using full_reach_inv [OF reached_full [OF reach]] by (simp add: full_inv_def)
  let ?k = "(kern ?s)\<lparr>answers := as, calls := calls (kern ?s) @ [(Sys_read (c_fd c) 537, carries m)]\<rparr>"
  have k: "sent_to fd ?k = sent_to fd (kern ?s)" for fd by (simp add: sent_to_def)
  have "message_effect p (message_type_of (m_type m)) (?s\<lparr>kern := ?k\<rparr>) s'"
    unfolding message_effect_def
    by (rule wp_D [OF wp_process_full [where c = c]]) (use inv c m run handle_carries [OF c(3,1) as m(1)] in
      \<open>auto simp: may_send_def sched_inv_def\<close>)
  then show "message_effect p (message_type_of (m_type m)) ?s s'" by (simp only: message_effect_kern [OF k])
  assume r: "relayed ?s s' out"
  have "event_ok 6 (ex_event p) ?s"
    using c as m receives_carries [of "kern ?s" m as "c_fd c"]
    by (simp add: event_ok_def ex_event_def receive_ok_def decode_encode_message)
  moreover have "reads 6 (ex_event p) ?s (w_up w) ((w_up w)(p := ms))"
    using receive_carries [OF c(1) as m(1)] up c(3) by (simp add: reads_def ex_event_def EPOLLIN_def)
  ultimately show "world_step w (sched_moved s' (w_timer w) ((w_up w)(p := ms)) out w)"
    using run r by (intro world_step.main)
qed

lemma relayed_toggled:
  assumes "mem_inv s" "toggled s s'"
  shows "relayed s s' (\<lambda>q. case heap s' q of None \<Rightarrow> [] | Some c \<Rightarrow>
    if has_registered c then [status_msg (s\<lparr>scheduler_on := \<not> scheduler_on s\<rparr>)] else [])"
  using assms mem_invD(5) [OF assms(1)] by (auto simp: relayed_def toggled_def status_msg_def message_ok_def)

text \<open>What is left of the description after a step of the scheduler.\<close>

lemma rig_served:
  assumes r: "rig tog w on Q (Suc n) as A" and d: "desk s' on' Q' n as'" and step: "world_step v (sched_moved s' t ((w_up w)(p := ms)) out w)" "reached tog v"
    and p: "p = 1 \<and> ms = map (note_of 1) (st_up (B 1)) \<and> st_up (B 2) = st_up (A 2)
      \<or> p = 2 \<and> ms = map (note_of 2) (st_up (B 2)) \<and> st_up (B 1) = st_up (A 1)
      \<or> p = 3 \<and> ms = [] \<and> st_up (B 1) = st_up (A 1) \<and> st_up (B 2) = st_up (A 2)"
    and B: "\<And>q. q = 1 \<or> q = 2 \<Longrightarrow> st_lc (B q) = st_lc (A q) \<and> map Some (st_down (B q)) = map Some (st_down (A q)) @ kinds (out q)"
  shows "rig tog (sched_moved s' t ((w_up w)(p := ms)) out w) on' Q' n as' B"
proof -
  let ?w = "sched_moved s' t ((w_up w)(p := ms)) out w"
  have live: "heap s' 1 \<noteq> None" "heap s' 2 \<noteq> None" "heap s' 3 \<noteq> None" using d by (auto simp: desk_def)
  have "seated ?w q n (B q)" if q: "q = 1 \<or> q = 2" for q
  proof -
    have "seated w q n (A q)" using r q seated_le [of w q "Suc n" "A q" n] by (auto simp: rig_def)
    then show ?thesis using live p B [OF q] q by (auto simp: seated_def sched_moved_def)
  qed
  moreover have "w_up ?w 3 = []" using live p r by (auto simp: sched_moved_def rig_def)
  moreover have "reached tog ?w" by (rule reached_step [OF step(2,1)])
  ultimately show ?thesis using d by (simp add: rig_def sched_moved_def)
qed

lemma rig_inv: "rig tog w on Q n as A \<Longrightarrow> sched_inv (w_sched w) \<and> mem_inv (w_sched w)"
  using full_reach_inv [of w] reached_full by (auto simp: rig_def full_inv_def sched_inv_def)

lemma rig_request:
  assumes r: "rig tog w True Q (Suc n) (carries (note_of p REQ_LOCK) # (if Q = [] then taken # as else as)) A" and p: "p = 1 \<or> p = 2" "p \<notin> set Q"
    and Q: "set Q \<subseteq> {1, 2}" and U: "st_up (A p) = REQ_LOCK # U"
  shows "\<exists>w'. world_step w w' \<and> rig tog w' True (Q @ [p]) n as (A(p := (A p)\<lparr>st_up := U, st_down := st_down (A p) @ (if Q = [] then [LOCK_OK] else [])\<rparr>))"
proof -
  let ?s = "w_sched w" and ?m = "note_of p REQ_LOCK"
  have d: "desk ?s True Q (Suc n) (carries ?m # (if Q = [] then taken # as else as))" and reach: "reached tog w" using r by (simp_all add: rig_def)
  obtain s' where s': "handle_event 6 (ex_event p) ?s = Inr s'" "desk s' True (Q @ [p]) n as" using desk_request [OF d p Q] by blast
  obtain c where c: "heap ?s p = Some c" "may_send c (message_type_of (m_type ?m))" "data_fd p \<noteq> 6"
    using d p by (auto simp: desk_def may_send_def data_fd_def)
  have up: "w_up w p = ?m # map (note_of p) U" using r p U by (auto simp: rig_def seated_def)
  have as: "answers (kern ?s) = carries ?m # (if Q = [] then taken # as else as)" using d by (simp add: desk_def)
  note D = deliver [OF reach up note_of_ok(1,3) c as s'(1)]
  have dl: "dealt {p} {} ?s s'" using D(1) d by (simp add: message_effect_def switches_def desk_def)
  have h: "holder s' = Some (if Q = [] then p else hd Q)" "holder ?s = (if Q = [] then None else Some (hd Q))"
    using s'(2) d by (cases Q; auto simp: holder_def desk_def)+
  let ?out = "\<lambda>q. if holder s' = Some q \<and> holder ?s \<noteq> Some q then [lock_ok_msg ?s] else []"
  have rel: "relayed ?s s' ?out" using relayed_dealt [OF _ dl] rig_inv [OF r] by blast
  show ?thesis
    by (intro exI, rule conjI [OF D(2) [OF rel]], rule rig_served [OF r s'(2) D(2) [OF rel] reach]) (use p U h in auto)
qed

lemma rig_release:
  assumes r: "rig tog w True (p # q # Q) (Suc n) (carries (note_of p LOCK_RELEASED) # taken # as) A" and p: "p = 1 \<or> p = 2"
    and Q: "set (q # Q) \<subseteq> {1, 2} - {p}" "distinct (q # Q)" and U: "st_up (A p) = LOCK_RELEASED # U"
  shows "\<exists>w'. world_step w w' \<and> rig tog w' True (q # Q) n as (A(p := (A p)\<lparr>st_up := U\<rparr>, q := (A q)\<lparr>st_down := st_down (A q) @ [LOCK_OK]\<rparr>))"
proof -
  let ?s = "w_sched w" and ?m = "note_of p LOCK_RELEASED"
  have d: "desk ?s True (p # q # Q) (Suc n) (carries ?m # (if q # Q = [] then as else taken # as))" and reach: "reached tog w" using r by (simp_all add: rig_def)
  obtain s' where s': "handle_event 6 (ex_event p) ?s = Inr s'" "desk s' True (q # Q) n as"
    using desk_release [OF d p Q] desk_le [of _ _ _ "Suc n" _ n] by auto
  obtain c where c: "heap ?s p = Some c" "may_send c (message_type_of (m_type ?m))" "data_fd p \<noteq> 6"
    using d p by (auto simp: desk_def may_send_def data_fd_def)
  have up: "w_up w p = ?m # map (note_of p) U" using r p U by (auto simp: rig_def seated_def)
  have as: "answers (kern ?s) = carries ?m # taken # as" using d by (simp add: desk_def)
  note D = deliver [OF reach up note_of_ok(1,3) c as s'(1)]
  have dl: "dealt {} {p} ?s s'" using D(1) d by (simp add: message_effect_def switches_def desk_def)
  have h: "holder s' = Some q" "holder ?s = Some p" "p \<noteq> q"
    using s'(2) d Q by (auto simp: holder_def desk_def)
  let ?out = "\<lambda>q. if holder s' = Some q \<and> holder ?s \<noteq> Some q then [lock_ok_msg ?s] else []"
  have rel: "relayed ?s s' ?out" using relayed_dealt [OF _ dl] rig_inv [OF r] by blast
  show ?thesis
    by (intro exI, rule conjI [OF D(2) [OF rel]], rule rig_served [OF r s'(2) D(2) [OF rel] reach]) (use p U h Q in auto)
qed

text \<open>The tool sends the opposite of the current status.\<close>

lemma rig_switch:
  assumes r: "rig True w on Q (Suc n) (carries (note_of 3 k) # taken # taken # as) A" and k: "k = (if on then SCHED_OFF else SCHED_ON)"
  shows "\<exists>w'. rig True w' (\<not> on) [] n as (\<lambda>q. (A q)\<lparr>st_down := st_down (A q) @ [k]\<rparr>)"
proof -
  let ?s = "w_sched w" and ?m = "note_of 3 k" and ?w = "w\<lparr>w_up := (w_up w)(3 := w_up w 3 @ [note_of 3 k])\<rparr>"
  have d: "desk ?s on Q (Suc n) (carries ?m # taken # taken # as)" and empty: "w_up w 3 = []" using r by (simp_all add: rig_def)
  have "Q = []" if "\<not> on" using rig_inv [OF r] d that by (auto simp: sched_inv_def desk_def)
  then obtain s' where s': "handle_event 6 (ex_event 3) ?s = Inr s'" "desk s' (\<not> on) [] n as"
    using desk_switch [OF d k] desk_le [of _ _ _ "Suc n" _ n] by auto
  obtain c where c: "heap ?s 3 = Some c" "\<not> has_registered c" using d by (auto simp: desk_def)
  have "full_step w ?w"
  proof (cases on)
    case True
    then show ?thesis using k empty by (intro full_step.off [OF c]) auto
  next
    case False
    then show ?thesis using k empty by (intro full_step.same world_step.control [OF c]) auto
  qed
  then have reach: "reached True ?w" using r full_reach_step by (auto simp: rig_def reached_def)
  have up: "w_up ?w 3 = ?m # []" using empty by simp
  have "may_send c (message_type_of (m_type ?m))" "data_fd 3 \<noteq> 6" using c k by (simp_all add: may_send_def data_fd_def)
  note D = deliver [OF reach up note_of_ok(1,3) _ this, simplified, OF c(1) _ s'(1)]
  have as: "answers (kern ?s) = carries ?m # taken # taken # as" using d by (simp add: desk_def)
  have tg: "toggled ?s s'" using D(1) [OF as] d k by (cases on) (simp_all add: message_effect_def switches_def desk_def)
  let ?st = "status_msg (?s\<lparr>scheduler_on := \<not> scheduler_on ?s\<rparr>)"
  let ?out = "\<lambda>q. case heap s' q of None \<Rightarrow> [] | Some c \<Rightarrow> if has_registered c then [?st] else []"
  have rel: "relayed ?s s' ?out" using relayed_toggled [OF _ tg] rig_inv [OF r] by blast
  have kind: "message_type_of (m_type ?st) = Some k"
    using k d by (simp add: status_msg_def sched_status_def desk_def message_type_of_Some del: message_type_code.simps)
  have same: "sched_moved s' (w_timer w) ((w_up w)(3 := [])) ?out ?w = sched_moved s' (w_timer w) ((w_up w)(3 := [])) ?out w"
    by (simp add: sched_moved_def cong: if_cong)
  have "world_step ?w (sched_moved s' (w_timer w) ((w_up w)(3 := [])) ?out w)"
    using D(2) [OF as rel] unfolding same .
  then show ?thesis
    by (intro exI, rule rig_served [OF r s'(2) _ reach]) (use s'(2) kind in \<open>auto simp: desk_def\<close>)
qed

section \<open>The start of the run\<close>

definition run_mallocs :: "(addr \<times> nvshare_client) option list" where
  "run_mallocs = Some (1, junk) # Some (2, junk) # Some (3, junk) # replicate 60 (Some (4, junk))"

definition run_dawn :: "sysret list \<Rightarrow> sched" where
  "run_dawn as = sched_globals\<lparr>kern := \<lparr>answers = map ok_ret [0, 0, 5, 6, 0, 0, 0, 0, 0] @ as, calls = []\<rparr>,
     mallocs := run_mallocs, rands := [0, 0, 1, 0, 0, 2], stale := (\<lambda>_. - 1)\<rparr>"

definition run_up :: "sysret list \<Rightarrow> (syscall \<times> sysret) list \<Rightarrow> sched" where
  "run_up as cs = (run_dawn as)\<lparr>scheduler_on := True, tq := 30, kern := \<lparr>answers = as, calls = cs\<rparr>, out_msg := zero_message\<lparr>m_id := 7331\<rparr>\<rparr>"

lemma run_dawn_runs: "\<exists>cs. sched_main (replicate NVSHARE_SOCK_PATH_MAX NUL) (run_dawn as) = Inr (6, run_up as cs)"
proof -
  obtain path where p: "nvshare_get_scheduler_path (replicate NVSHARE_SOCK_PATH_MAX NUL) = Inr (0, path)" "NUL \<in> set path"
    using nvshare_get_scheduler_path_eq [of "replicate NVSHARE_SOCK_PATH_MAX NUL"] by auto
  have "\<exists>b n. strlcpy (replicate NVSHARE_SOCK_PATH_MAX NUL) path NVSHARE_SOCK_PATH_MAX = Inr (b, n)"
    using strlcpy_string [OF p(2), of NVSHARE_SOCK_PATH_MAX "replicate NVSHARE_SOCK_PATH_MAX NUL"]
    by (simp add: Let_def NVSHARE_SOCK_PATH_MAX_def)
  with p(1) show ?thesis
    by (auto simp: sched_main_def run_dawn_def run_up_def ok_ret_def sched_globals_def sys_def nvshare_bind_and_listen_def
        nvshare_unix_bind_def Let_def NVSHARE_DEFAULT_TQ_def)
qed

lemma run_started:
  "\<exists>w cs. world_reach w \<and> w_sched w = run_up as cs \<and> w_app w = (\<lambda>_. None) \<and> w_up w = (\<lambda>_. []) \<and> w_down w = (\<lambda>_. [])"
proof -
  let ?n = "\<lparr>tv_sec = 0, tv_nsec = 0\<rparr>"
  obtain cs where boot: "sched_main (replicate NVSHARE_SOCK_PATH_MAX NUL) (run_dawn as) = Inr (6, run_up as cs)"
    using run_dawn_runs by blast
  have "world_reach (world_start ?n (run_up as cs))"
    unfolding world_reach_def using boot
    by (intro exI [of _ "replicate NVSHARE_SOCK_PATH_MAX NUL"] exI [of _ "kern (run_dawn as)"] exI [of _ run_mallocs]
        exI [of _ "[0, 0, 1, 0, 0, 2]"] exI [of _ "\<lambda>_. - 1"] exI [of _ 6] exI [of _ "run_up as cs"] exI [of _ ?n])
      (auto simp: run_dawn_def run_mallocs_def junk_def)
  then show ?thesis
    by (intro exI [of _ "world_start ?n (run_up as cs)"])
      (auto simp: world_start_def timer_start_def timer_arm_def run_up_def run_dawn_def sched_globals_def)
qed

text \<open>A connection is accepted.\<close>

definition fd_of :: "addr \<Rightarrow> int" where
  "fd_of p = (if p = 1 then 7 else if p = 2 then 8 else 9)"

lemma fd_of_int32 [simp]: "to_int32 (fd_of p) = fd_of p" "0 < fd_of p" "\<not> fd_of p < 0" "- 1 \<noteq> fd_of p"
  by (auto simp: fd_of_def)

definition lobby :: "sched \<Rightarrow> addr list \<Rightarrow> (addr \<times> nvshare_client) option list \<Rightarrow> sysret list \<Rightarrow> bool" where
  "lobby s ps ms as \<longleftrightarrow> scheduler_on s \<and> requests s = [] \<and> \<not> lock_held s \<and> clients s = ps
     \<and> (\<forall>p \<in> set ps. heap s p = Some (junk\<lparr>c_fd := fd_of p, c_id := NVSHARE_UNREGISTERED_ID\<rparr>))
     \<and> mallocs s = ms \<and> rands s = [0, 0, 1, 0, 0, 2] \<and> stale s = (\<lambda>_. - 1) \<and> answers (kern s) = as"

lemma lobby_accept:
  assumes l: "lobby s ps (Some (p, junk) # ms) (ok_ret (fd_of p) # ok_ret 0 # as)" and p: "p \<notin> set ps" "\<forall>q \<in> set ps. fd_of q \<noteq> fd_of p"
  shows "\<exists>s'. handle_event 6 (ex_event 6) s = Inr s' \<and> lobby s' (ps @ [p]) ms as \<and> (\<forall>fd. sent_to fd (kern s') = sent_to fd (kern s))"
    "event_ok 6 (ex_event 6) s"
proof -
  have "handle_event 6 (ex_event 6) s = Inr (s\<lparr>kern := (kern s)\<lparr>answers := as, calls := calls (kern s) @ [(Sys_accept4 6, ok_ret (fd_of p)),
      (Sys_epoll_add (fd_of p) p, ok_ret 0)]\<rparr>, mallocs := ms, clients := ps @ [p],
      heap := (heap s)(p \<mapsto> junk\<lparr>c_fd := fd_of p, c_id := NVSHARE_UNREGISTERED_ID\<rparr>)\<rparr>)"
    using l by (simp add: lobby_def handle_event_def ex_event_def data_fd_def new_connection_def nvshare_accept_def ok_ret_def
        interrupted_def Let_def pop_malloc_def sys_def)
  then show "\<exists>s'. handle_event 6 (ex_event 6) s = Inr s' \<and> lobby s' (ps @ [p]) ms as \<and> (\<forall>fd. sent_to fd (kern s') = sent_to fd (kern s))"
    using l p by (simp add: lobby_def sent_to_def)
  show "event_ok 6 (ex_event 6) s" using l p
    by (auto simp: event_ok_def ex_event_def data_fd_def accept_ok_def lobby_def ok_ret_def interrupted_def Let_def)
qed

lemma run_accept:
  assumes w: "world_reach w" "lobby (w_sched w) ps (Some (p, junk) # ms) (ok_ret (fd_of p) # ok_ret 0 # as)" and p: "p \<notin> set ps" "\<forall>q \<in> set ps. fd_of q \<noteq> fd_of p"
    and e: "w_app w = (\<lambda>_. None)" "w_up w = (\<lambda>_. [])" "w_down w = (\<lambda>_. [])"
  shows "\<exists>w'. world_reach w' \<and> lobby (w_sched w') (ps @ [p]) ms as \<and> w_app w' = (\<lambda>_. None) \<and> w_up w' = (\<lambda>_. []) \<and> w_down w' = (\<lambda>_. [])"
proof -
  obtain s' where s': "handle_event 6 (ex_event 6) (w_sched w) = Inr s'" "lobby s' (ps @ [p]) ms as"
      "\<And>fd. sent_to fd (kern s') = sent_to fd (kern (w_sched w))" using lobby_accept(1) [OF w(2) p] by blast
  have "world_step w (sched_moved s' (w_timer w) (w_up w) (\<lambda>_. []) w)"
    using lobby_accept(2) [OF w(2) p] s' by (intro world_step.main [of 6 "ex_event 6"]) (simp_all add: relayed_def reads_def ex_event_def data_fd_def)
  from world_reach_step [OF w(1) this] s'(2) e show ?thesis
    by (intro exI [of _ "sched_moved s' (w_timer w) (w_up w) (\<lambda>_. []) w"]) (auto simp: sched_moved_def)
qed

lemma run_lobby:
  "\<exists>w. world_reach w \<and> lobby (w_sched w) [1, 2, 3] (replicate 60 (Some (4, junk))) as \<and> w_app w = (\<lambda>_. None) \<and> w_up w = (\<lambda>_. []) \<and> w_down w = (\<lambda>_. [])"
proof -
  let ?as2 = "ok_ret (fd_of 3) # ok_ret 0 # as"
  let ?as1 = "ok_ret (fd_of 2) # ok_ret 0 # ?as2"
  obtain w cs where w: "world_reach w" "w_sched w = run_up (ok_ret (fd_of 1) # ok_ret 0 # ?as1) cs" "w_app w = (\<lambda>_. None)" "w_up w = (\<lambda>_. [])" "w_down w = (\<lambda>_. [])"
    using run_started by blast
  have "lobby (w_sched w) [] run_mallocs (ok_ret (fd_of 1) # ok_ret 0 # ?as1)"
    using w(2) by (simp add: lobby_def run_up_def run_dawn_def sched_globals_def)
  then have l: "lobby (w_sched w) [] (Some (1, junk) # Some (2, junk) # Some (3, junk) # replicate 60 (Some (4, junk))) (ok_ret (fd_of 1) # ok_ret 0 # ?as1)"
    by (simp only: run_mallocs_def)
  obtain w1 where w1: "world_reach w1" "lobby (w_sched w1) ([] @ [1]) (Some (2, junk) # Some (3, junk) # replicate 60 (Some (4, junk))) ?as1"
    "w_app w1 = (\<lambda>_. None)" "w_up w1 = (\<lambda>_. [])" "w_down w1 = (\<lambda>_. [])"
    using run_accept [OF w(1) l _ _ w(3-5)] by auto
  obtain w2 where w2: "world_reach w2" "lobby (w_sched w2) (([] @ [1]) @ [2]) (Some (3, junk) # replicate 60 (Some (4, junk))) ?as2"
    "w_app w2 = (\<lambda>_. None)" "w_up w2 = (\<lambda>_. [])" "w_down w2 = (\<lambda>_. [])"
    using run_accept [OF w1(1,2) _ _ w1(3-5)] by (auto simp: fd_of_def)
  show ?thesis using run_accept [OF w2(1,2) _ _ w2(3-5)] by (auto simp: fd_of_def)
qed

text \<open>A registration, with the ID that is the address.\<close>

lemma run_register:
  assumes s: "heap s p = Some (junk\<lparr>c_fd := f, c_id := NVSHARE_UNREGISTERED_ID\<rparr>)" "clients s = ps" "\<forall>q \<in> set ps. \<exists>c. heap s q = Some c \<and> c_id c \<noteq> p"
    and as: "answers (kern s) = carries (ex_msg REGISTER) # taken # as" and g: "nvshare_generate_id (rands s) = Inr (p, rs)"
    and p: "p \<noteq> NVSHARE_UNREGISTERED_ID" "data_fd p \<noteq> 6" and m: "length (m_data (out_msg s)) = MSG_DATA_LEN"
  shows "\<exists>s' c. handle_event 6 (ex_event p) s = Inr s' \<and> heap s' = (heap s)(p \<mapsto> c) \<and> c_id c = p \<and> c_fd c = f
    \<and> clients s' = clients s \<and> requests s' = requests s \<and> lock_held s' = lock_held s \<and> scheduler_on s' = scheduler_on s
    \<and> mallocs s' = mallocs s \<and> rands s' = rs \<and> answers (kern s') = as"
proof -
  have "NUL \<in> set (drop (Suc 0) (encode_message (ex_msg REGISTER)))" "NUL \<in> set (drop (Suc POD_NAME_LEN_MAX) (encode_message (ex_msg REGISTER)))"
    by (simp_all add: encode_message_def ex_msg_def zero_message_def msg_sizes drop_Cons' del: le_bytes.simps)
  note cp = strlcpy_string [OF this(1)] strlcpy_string [OF this(2)]
  let ?s = "s\<lparr>kern := (kern s)\<lparr>answers := taken # as, calls := calls (kern s) @ [(Sys_read f 537, carries (ex_msg REGISTER))]\<rparr>\<rparr>"
  have run: "handle_event 6 (ex_event p) s = process_msg p (ex_msg REGISTER) ?s"
    using handle_carries [OF p(2) s(1) as] by simp
  have all: "deref_all ?s ps = Inr (map (\<lambda>q. the (heap s q)) ps)"
    using deref_all_eq [of ps ?s] s(3) by (auto simp: dom_def)
  have "p \<notin> set (map c_id (map (\<lambda>q. the (heap s q)) ps))" using s(3) by auto
  then have pick: "pick_id (map c_id (map (\<lambda>q. the (heap s q)) ps)) (rands s) = Inr (p, rs)"
    using g p(1) by (simp add: pick_id.simps [of _ "rands s"])
  show ?thesis
    unfolding run
    using cp s(1,2) all pick p(1)
    by (simp add: process_msg_def message_type_of_Some register_client_def has_registered_def deref_def snprintf_def length_show_016x
        junk_def ex_client_def msg_sizes send_message_def nvshare_send_noblock_def taken_def interrupted_def Let_def set_out_type_def
        m [unfolded msg_sizes] comp_def del: message_type_code.simps) (rule exI, rule conjI, rule refl, simp)
qed

definition idle_seat :: seat where
  "idle_seat = \<lparr>st_lc = \<lparr>lc_on = True, lc_own = False, lc_need = False\<rparr>, st_up = [], st_down = []\<rparr>"

definition run_app :: app where
  "run_app = ex_app False (replicate 60 wrote_all) (replicate 60 cu_ok)"

lemma run_join:
  assumes reach: "world_reach w" and s: "heap (w_sched w) p = Some (junk\<lparr>c_fd := f, c_id := NVSHARE_UNREGISTERED_ID\<rparr>)" "clients (w_sched w) = ps"
      "\<forall>q \<in> set ps. \<exists>c. heap (w_sched w) q = Some c \<and> c_id c \<noteq> p" "scheduler_on (w_sched w)"
    and as: "answers (kern (w_sched w)) = carries (ex_msg REGISTER) # taken # as" and g: "nvshare_generate_id (rands (w_sched w)) = Inr (p, rs)"
    and p: "p \<noteq> NVSHARE_UNREGISTERED_ID" "data_fd p \<noteq> 6" and new: "w_app w p = None" "w_up w p = []" "w_down w p = []"
  shows "\<exists>w' c. world_reach w' \<and> seated w' p 60 idle_seat \<and> heap (w_sched w') = (heap (w_sched w))(p \<mapsto> c) \<and> c_id c = p \<and> c_fd c = f
    \<and> clients (w_sched w') = ps \<and> requests (w_sched w') = requests (w_sched w) \<and> lock_held (w_sched w') = lock_held (w_sched w)
    \<and> scheduler_on (w_sched w') \<and> mallocs (w_sched w') = mallocs (w_sched w) \<and> rands (w_sched w') = rs \<and> answers (kern (w_sched w')) = as
    \<and> (\<forall>q. q \<noteq> p \<and> heap (w_sched w) q \<noteq> None \<longrightarrow> w_app w' q = w_app w q \<and> w_up w' q = w_up w q \<and> w_down w' q = w_down w q)"
proof -
  let ?s = "w_sched w" and ?m = "ex_msg REGISTER" and ?w1 = "w\<lparr>w_up := (w_up w)(p := [ex_msg REGISTER])\<rparr>"
  have kind: "message_type_of (m_type ?m) = Some REGISTER" by (simp add: message_type_of_Some del: message_type_code.simps)
  have inv: "sched_inv ?s" "mem_inv ?s" using world_reach_inv [OF reach] by (auto simp: world_inv_def sched_inv_def)
  have "world_step w ?w1" by (rule world_step.join [OF s(1)]) (use new kind in \<open>simp_all add: has_registered_def\<close>)
  then have w1: "world_reach ?w1" by (rule world_reach_step [OF reach])
  have "length (m_data (out_msg ?s)) = MSG_DATA_LEN" using mem_invD(5) [OF inv(2)] by (simp add: message_ok_def)
  from run_register [OF s(1-3) as g p this] obtain s' c where s': "handle_event 6 (ex_event p) ?s = Inr s'" "heap s' = (heap ?s)(p \<mapsto> c)"
    "c_id c = p" "c_fd c = f" "clients s' = ps" "requests s' = requests ?s" "lock_held s' = lock_held ?s" "scheduler_on s'"
    "mallocs s' = mallocs ?s" "rands s' = rs" "answers (kern s') = as" using s by auto
  have c: "heap (w_sched ?w1) p = Some (junk\<lparr>c_fd := f, c_id := NVSHARE_UNREGISTERED_ID\<rparr>)" using s(1) by simp
  have ms: "may_send (junk\<lparr>c_fd := f, c_id := NVSHARE_UNREGISTERED_ID\<rparr>) (message_type_of (m_type ?m))"
    using kind by (simp add: may_send_def has_registered_def)
  have as1: "answers (kern (w_sched ?w1)) = carries ?m # taken # as" and run1: "handle_event 6 (ex_event p) (w_sched ?w1) = Inr s'"
    and up1: "w_up ?w1 p = ?m # []" using as s' by simp_all
  have "reached False ?w1" using w1 by (simp add: reached_def)
  note D = deliver [OF this up1 ex_msg_ok(1,3) c ms p(2) as1 run1]
  have wel: "welcomed p ?s s'" using D(1) kind by (simp add: message_effect_def)
  have cp: "heap s' p = Some c" using s'(2) by simp
  let ?out = "\<lambda>q. if q = p then [id_msg p ?s] else []"
  have "relayed (w_sched ?w1) s' ?out" using relayed_welcomed [OF inv(2) wel cp, unfolded s'(3)] by simp
  note w2 = world_reach_step [OF w1 D(2) [OF this]]
  let ?w2 = "sched_moved s' (w_timer ?w1) ((w_up ?w1)(p := [])) ?out ?w1"
  have f2: "w_app ?w2 p = None" "w_down ?w2 p = id_msg p ?s # []" using new cp by (simp_all add: sched_moved_def)
  have "\<exists>b. client_ready (id_msg p ?s) run_app = Inr b \<and> a_scheduler_on b \<and> \<not> a_own_lock b \<and> \<not> a_need_lock b \<and> a_cuda_ctx_ok b \<and> a_nvml_ok b
      \<and> answers (a_kern b) = replicate 60 wrote_all \<and> cu_answers (a_cuda b) = replicate 60 cu_ok \<and> a_client_id b = p"
    using s(4) by (simp add: client_ready_def initial_status_def message_type_of_def id_msg_def sched_status_def sscanf_show_016x
        show_016x_no_NUL run_app_def ex_app_def)
  then obtain b where b: "client_ready (id_msg p ?s) run_app = Inr b" "a_scheduler_on b" "\<not> a_own_lock b" "\<not> a_need_lock b" "a_cuda_ctx_ok b" "a_nvml_ok b"
    "answers (a_kern b) = replicate 60 wrote_all" "cu_answers (a_cuda b) = replicate 60 cu_ok" "a_client_id b = p" by blast
  let ?b = "b\<lparr>a_req_lock_msg := zero_message\<lparr>m_type := message_type_code REQ_LOCK, m_id := a_client_id b\<rparr>\<rparr>"
  let ?w3 = "app_moved p ?b [] [] ?w2"
  have "world_reach ?w3" by (rule world_reach_step [OF w2 world_step.start [OF f2 b(1)]])
  moreover have "seated ?w3 p 60 idle_seat"
    using b cp by (simp add: seated_def app_moved_def sched_moved_def lc_abs_def supplied_def idle_seat_def)
  moreover have "w_sched ?w3 = s'" by (simp add: app_moved_def sched_moved_def)
  moreover have "w_app ?w3 q = w_app w q \<and> w_up ?w3 q = w_up w q \<and> w_down ?w3 q = w_down w q" if "q \<noteq> p" "heap ?s q \<noteq> None" for q
    using that s'(2) by (auto simp: app_moved_def sched_moved_def)
  ultimately show ?thesis using s' by (intro exI [of _ ?w3] exI [of _ c]) auto
qed

lemma rig_start: "\<exists>w. rig tog w True [] 60 as (\<lambda>_. idle_seat)"
proof -
  let ?as = "carries (ex_msg REGISTER) # taken # as"
  obtain w where w: "world_reach w" "lobby (w_sched w) [1, 2, 3] (replicate 60 (Some (4, junk))) (carries (ex_msg REGISTER) # taken # ?as)"
    "w_app w = (\<lambda>_. None)" "w_up w = (\<lambda>_. [])" "w_down w = (\<lambda>_. [])" using run_lobby by blast
  have g: "nvshare_generate_id [0, 0, 1, 0, 0, 2] = Inr (1, [0, 0, 2])" "nvshare_generate_id [0, 0, 2] = Inr (2, [])"
    by (simp_all add: nvshare_generate_id_eq)
  from run_join [OF w(1), of 1 7 "[1, 2, 3]" ?as "[0, 0, 2]"] w g(1) obtain v c where v: "world_reach v" "seated v 1 60 idle_seat"
    "heap (w_sched v) = (heap (w_sched w))(1 \<mapsto> c)" "c_id c = 1" "c_fd c = 7" "clients (w_sched v) = [1, 2, 3]" "requests (w_sched v) = []"
    "\<not> lock_held (w_sched v)" "scheduler_on (w_sched v)" "mallocs (w_sched v) = replicate 60 (Some (4, junk))" "rands (w_sched v) = [0, 0, 2]"
    "answers (kern (w_sched v)) = ?as"
    "\<forall>q. q \<noteq> 1 \<and> heap (w_sched w) q \<noteq> None \<longrightarrow> w_app v q = None \<and> w_up v q = [] \<and> w_down v q = []"
    by (auto simp: lobby_def fd_of_def NVSHARE_UNREGISTERED_ID_def data_fd_def)
  have h: "heap (w_sched v) 2 = Some (junk\<lparr>c_fd := 8, c_id := NVSHARE_UNREGISTERED_ID\<rparr>)"
    "heap (w_sched v) 3 = Some (junk\<lparr>c_fd := 9, c_id := NVSHARE_UNREGISTERED_ID\<rparr>)" "heap (w_sched w) 2 \<noteq> None" "heap (w_sched w) 3 \<noteq> None"
    using v(3) w(2) by (simp_all add: lobby_def fd_of_def)
  from run_join [OF v(1) h(1) v(6) _ v(9) v(12), of "[]"] v h g(2) obtain u d where u: "world_reach u" "seated u 2 60 idle_seat"
    "heap (w_sched u) = (heap (w_sched v))(2 \<mapsto> d)" "c_id d = 2" "c_fd d = 8" "clients (w_sched u) = [1, 2, 3]" "requests (w_sched u) = []"
    "\<not> lock_held (w_sched u)" "scheduler_on (w_sched u)" "mallocs (w_sched u) = replicate 60 (Some (4, junk))"
    "answers (kern (w_sched u)) = as"
    "\<forall>q. q \<noteq> 2 \<and> heap (w_sched v) q \<noteq> None \<longrightarrow> w_app u q = w_app v q \<and> w_up u q = w_up v q \<and> w_down u q = w_down v q"
    by (auto simp: NVSHARE_UNREGISTERED_ID_def data_fd_def)
  have "seated u 1 60 idle_seat" using v(2,3) u(12) by (simp add: seated_def)
  moreover have "w_up u 3 = []" using v(13) h u(12) by simp
  moreover have "desk (w_sched u) True [] 60 as"
    using u v(3-5) h(2) by (auto simp: desk_def has_registered_def NVSHARE_UNREGISTERED_ID_def)
  moreover have "reached tog u" using u(1) world_reach_full by (simp add: reached_def)
  ultimately show ?thesis using u(2) by (auto simp: rig_def)
qed

section \<open>Playing a script\<close>

text \<open>
  A script of steps; \<open>play\<close> computes what a step does to the description, and which system calls of the scheduler it needs. A
  script that plays is a run of the code.
\<close>

datatype act = Want addr | Recv addr | Early addr | Serve addr | Switch

record bench =
  b_on :: bool
  b_queue :: "addr list"
  b_one :: seat
  b_two :: seat

definition seat_of :: "bench \<Rightarrow> addr \<Rightarrow> seat" where
  "seat_of b p = (if p = 1 then b_one b else b_two b)"

definition put :: "addr \<Rightarrow> seat \<Rightarrow> bench \<Rightarrow> bench" where
  "put p st b = (if p = 1 then b\<lparr>b_one := st\<rparr> else b\<lparr>b_two := st\<rparr>)"

fun play :: "act \<Rightarrow> bench \<Rightarrow> (bench \<times> sysret list) option" where
  "play (Want p) b =
     (let st = seat_of b p in
      if (p = 1 \<or> p = 2) \<and> \<not> lc_own (st_lc st) \<and> \<not> lc_need (st_lc st) then Some (put p (moved lc_want (st_down st) st) b, []) else None)"
| "play (Recv p) b =
     (let st = seat_of b p in
      case st_down st of
        [] \<Rightarrow> None
      | k # D \<Rightarrow> if (p = 1 \<or> p = 2) \<and> k \<noteq> DROP_LOCK then Some (put p (moved (lc_recv (Some k)) D st) b, []) else None)"
| "play (Early p) b =
     (let st = seat_of b p in
      if (p = 1 \<or> p = 2) \<and> lc_on (st_lc st) \<and> lc_own (st_lc st) then Some (put p (moved lc_early (st_down st) st) b, []) else None)"
| "play (Serve p) b =
     (let st = seat_of b p; Q = b_queue b in
      if (p = 1 \<or> p = 2) \<and> b_on b \<and> set Q \<subseteq> {1, 2} \<and> distinct Q then
        (case st_up st of
           REQ_LOCK # U \<Rightarrow>
             (if p \<notin> set Q
              then Some (put p (st\<lparr>st_up := U, st_down := st_down st @ (if Q = [] then [LOCK_OK] else [])\<rparr>) (b\<lparr>b_queue := Q @ [p]\<rparr>),
                carries (note_of p REQ_LOCK) # (if Q = [] then [taken] else []))
              else None)
         | LOCK_RELEASED # U \<Rightarrow>
             (case Q of
                p' # q # R \<Rightarrow>
                  (if p' = p
                   then let b = put p (st\<lparr>st_up := U\<rparr>) (b\<lparr>b_queue := q # R\<rparr>); tq = seat_of b q in
                     Some (put q (tq\<lparr>st_down := st_down tq @ [LOCK_OK]\<rparr>) b, [carries (note_of p LOCK_RELEASED), taken])
                   else None)
              | _ \<Rightarrow> None)
         | _ \<Rightarrow> None)
      else None)"
| "play Switch b =
     (let k = (if b_on b then SCHED_OFF else SCHED_ON); tell = (\<lambda>st. st\<lparr>st_down := st_down st @ [k]\<rparr>) in
      Some (b\<lparr>b_on := \<not> b_on b, b_queue := [], b_one := tell (b_one b), b_two := tell (b_two b)\<rparr>,
        [carries (note_of 3 k), taken, taken]))"

fun plays :: "act list \<Rightarrow> bench \<Rightarrow> (bench \<times> sysret list) option" where
  "plays [] b = Some (b, [])"
| "plays (x # xs) b =
     (case play x b of None \<Rightarrow> None | Some (b', as) \<Rightarrow>
        (case plays xs b' of None \<Rightarrow> None | Some (b'', bs) \<Rightarrow> Some (b'', as @ bs)))"

abbreviation bench_rig :: "bool \<Rightarrow> world \<Rightarrow> bench \<Rightarrow> nat \<Rightarrow> sysret list \<Rightarrow> bool" where
  "bench_rig tog w b n as \<equiv> rig tog w (b_on b) (b_queue b) n as (seat_of b)"

lemma rig_cong: "A 1 = B 1 \<Longrightarrow> A 2 = B 2 \<Longrightarrow> rig tog w on Q n as A = rig tog w on Q n as B"
  by (simp add: rig_def)

lemma rig_le: "rig tog w on Q n as A \<Longrightarrow> m \<le> n \<Longrightarrow> rig tog w on Q m as A"
  by (auto simp: rig_def intro: desk_le seated_le)

lemma put_seat_sel [simp]: "b_on (put p st b) = b_on b" "b_queue (put p st b) = b_queue b"
  "seat_of (b\<lparr>b_queue := Q\<rparr>) = seat_of b"
  by (auto simp: put_def seat_of_def)

lemma seat_of_put: "p = 1 \<or> p = 2 \<Longrightarrow> q = 1 \<or> q = 2 \<Longrightarrow> seat_of (put p st b) q = (if q = p then st else seat_of b q)"
  by (auto simp: put_def seat_of_def)

lemma rig_put: "p = 1 \<or> p = 2 \<Longrightarrow> rig tog w on Q n as ((seat_of b)(p := st)) = rig tog w on Q n as (seat_of (put p st b))"
  by (rule rig_cong) (auto simp: seat_of_put)

lemma play_runs:
  assumes p: "play x b = Some (b', as)" and sw: "x = Switch \<Longrightarrow> tog" and r: "bench_rig tog w b (Suc n) (as @ bs)"
  shows "\<exists>w'. bench_rig tog w' b' n bs"
proof -
  note r1 = r
  show ?thesis
  proof (cases x)
    case (Want p)
    with p rig_want [OF r1] show ?thesis by (fastforce simp: Let_def rig_put split: if_splits)
  next
    case (Recv p)
    with p rig_receive [OF r1] show ?thesis by (fastforce simp: Let_def rig_put split: if_splits list.splits)
  next
    case (Early p)
    with p rig_early [OF r1] show ?thesis by (fastforce simp: Let_def rig_put split: if_splits)
  next
    case Switch
    let ?k = "if b_on b then SCHED_OFF else SCHED_ON"
    have b': "b' = b\<lparr>b_on := \<not> b_on b, b_queue := [], b_one := (b_one b)\<lparr>st_down := st_down (b_one b) @ [?k]\<rparr>,
        b_two := (b_two b)\<lparr>st_down := st_down (b_two b) @ [?k]\<rparr>\<rparr>" "as = [carries (note_of 3 ?k), taken, taken]"
      using p Switch by (simp_all add: Let_def)
    have "\<exists>w'. rig tog w' (\<not> b_on b) [] n bs (\<lambda>q. (seat_of b q)\<lparr>st_down := st_down (seat_of b q) @ [?k]\<rparr>)"
      using rig_switch [OF _ refl, of w "b_on b"] r1 b' sw Switch by simp
    then show ?thesis unfolding b' by (subst rig_cong [where B = "\<lambda>q. (seat_of b q)\<lparr>st_down := st_down (seat_of b q) @ [?k]\<rparr>"]) (auto simp: seat_of_def)
  next
    case (Serve p)
    then have g: "p = 1 \<or> p = 2" "b_on b" "set (b_queue b) \<subseteq> {1, 2}" "distinct (b_queue b)"
      using p by (auto simp: Let_def split: if_splits)
    obtain k U where U: "st_up (seat_of b p) = k # U" using p Serve by (auto simp: Let_def split: if_splits list.splits)
    show ?thesis
    proof (cases "k = REQ_LOCK")
      case True
      with p Serve g U have q: "p \<notin> set (b_queue b)" "b' = put p ((seat_of b p)\<lparr>st_up := U, st_down := st_down (seat_of b p) @ (if b_queue b = [] then [LOCK_OK] else [])\<rparr>)
          (b\<lparr>b_queue := b_queue b @ [p]\<rparr>)" "as = carries (note_of p REQ_LOCK) # (if b_queue b = [] then [taken] else [])"
        by (auto simp: Let_def split: if_splits)
      have "rig tog w True (b_queue b) (Suc n) (carries (note_of p REQ_LOCK) # (if b_queue b = [] then taken # bs else bs)) (seat_of b)"
        using r1 q(3) g(2) by auto
      from rig_request [OF this g(1) q(1) g(3)] U True g show ?thesis
        unfolding q(2) by (subst rig_cong [where B = "(seat_of b)(p := (seat_of b p)\<lparr>st_up := U, st_down := st_down (seat_of b p) @ (if b_queue b = [] then [LOCK_OK] else [])\<rparr>)"])
          (auto simp: seat_of_put)
    next
      case False
      with p Serve g U obtain q R where q: "b_queue b = p # q # R" "k = LOCK_RELEASED" "as = [carries (note_of p LOCK_RELEASED), taken]"
        "b' = put q ((seat_of (put p ((seat_of b p)\<lparr>st_up := U\<rparr>) (b\<lparr>b_queue := q # R\<rparr>)) q)\<lparr>st_down := st_down (seat_of (put p ((seat_of b p)\<lparr>st_up := U\<rparr>) (b\<lparr>b_queue := q # R\<rparr>)) q) @ [LOCK_OK]\<rparr>)
          (put p ((seat_of b p)\<lparr>st_up := U\<rparr>) (b\<lparr>b_queue := q # R\<rparr>))"
        by (auto simp: Let_def split: if_splits list.splits message_type.splits)
      then have qq: "q = 1 \<or> q = 2" "q \<noteq> p" using g by auto
      have "rig tog w True (p # q # R) (Suc n) (carries (note_of p LOCK_RELEASED) # taken # bs) (seat_of b)" using r1 q g(2) by simp
      from rig_release [OF this g(1)] U q g show ?thesis
        unfolding q(4) by (subst rig_cong [where B = "(seat_of b)(p := (seat_of b p)\<lparr>st_up := U\<rparr>, q := (seat_of b q)\<lparr>st_down := st_down (seat_of b q) @ [LOCK_OK]\<rparr>)"])
          (use qq in \<open>auto simp: seat_of_put\<close>)
    qed
  qed
qed

lemma plays_runs:
  assumes "plays xs b = Some (b', as)" "bench_rig tog w b (length xs + n) (as @ bs)" "Switch \<in> set xs \<Longrightarrow> tog"
  shows "\<exists>w'. bench_rig tog w' b' n bs"
  using assms
proof (induction xs arbitrary: w b as)
  case Nil
  then show ?case by auto
next
  case (Cons x xs)
  then obtain b1 as1 as2 where x: "play x b = Some (b1, as1)" "plays xs b1 = Some (b', as2)" "as = as1 @ as2"
    by (auto split: option.splits)
  then obtain w1 where "bench_rig tog w1 b1 (length xs + n) (as2 @ bs)"
    using play_runs [OF x(1), of tog w "length xs + n" "as2 @ bs"] Cons.prems(2,3) by auto
  with Cons.IH [OF x(2)] Cons.prems(3) show ?case by simp
qed

definition bench0 :: bench where
  "bench0 = \<lparr>b_on = True, b_queue = [], b_one = idle_seat, b_two = idle_seat\<rparr>"

lemma script_runs:
  assumes "plays xs bench0 = Some (b, as)" "length xs \<le> 60" "Switch \<in> set xs \<Longrightarrow> tog"
  shows "\<exists>w. bench_rig tog w b 0 []"
proof -
  obtain w where w: "rig tog w True [] 60 (as @ []) (\<lambda>_. idle_seat)" using rig_start by blast
  have "rig tog w True [] (length xs + 0) (as @ []) (\<lambda>_. idle_seat)" by (rule rig_le [OF w]) (use assms(2) in simp)
  then have "bench_rig tog w bench0 (length xs + 0) (as @ [])"
    by (subst rig_cong [where B = "\<lambda>_. idle_seat"]) (simp_all add: bench0_def seat_of_def)
  from plays_runs [OF assms(1) this assms(3)] show ?thesis .
qed

end
