(* ===== verification/Starvation.thy ===== *)
theory Starvation
  imports Progress Toggle_Run
begin

text \<open>
  Nobody starves: the theorem, and a run to which it applies in which the traffic never ends. Two applications ask for the lock
  again and again; each of them always waits while the other one owns it.
\<close>

section \<open>A run without end\<close>

text \<open>
  One turn: the owner \<open>h\<close> goes idle and gives the lock back, asks for it again, the scheduler handles the release and the
  request, and the other application reads its LOCK_OK. Before every step of the code the environment provides what
  the step needs.
\<close>

definition chair :: "bool \<Rightarrow> bool \<Rightarrow> message_type list \<Rightarrow> message_type list \<Rightarrow> seat" where
  "chair own need U D = \<lparr>st_lc = \<lparr>lc_on = True, lc_own = own, lc_need = need\<rparr>, st_up = U, st_down = D\<rparr>"

definition partner :: "addr \<Rightarrow> addr" where
  "partner h = (if h = 1 then 2 else 1)"

definition queue_at :: "nat \<Rightarrow> addr \<Rightarrow> addr list" where
  "queue_at k h = (if k \<le> 3 then [h, partner h] else if k = 4 then [partner h] else [partner h, h])"

definition seats_at :: "nat \<Rightarrow> addr \<Rightarrow> addr \<Rightarrow> seat" where
  "seats_at k h p =
     (if p = h then
        (if k \<le> 1 then chair True False [] [] else if k = 2 then chair False False [LOCK_RELEASED] []
         else if k = 3 then chair False True [LOCK_RELEASED, REQ_LOCK] [] else if k = 4 then chair False True [REQ_LOCK] []
         else chair False True [] [])
      else chair False True [] (if k \<le> 3 then [] else [LOCK_OK]))"

definition needs_at :: "nat \<Rightarrow> addr \<Rightarrow> sysret list" where
  "needs_at k h = (if k = 3 then [carries (note_of h LOCK_RELEASED), taken] else if k = 4 then [carries (note_of h REQ_LOCK)] else [])"

lemma partner_simps [simp]: "partner 1 = 2" "partner 2 = 1"
  by (simp_all add: partner_def)

lemma rig_refill:
  assumes r: "rig tog w on Q n as A"
  shows "\<exists>w'. world_step w w' \<and> rig tog w' on Q 2 bs A \<and> resting w' = resting w"
proof -
  let ?s = "resupplied bs [Some (4, junk), Some (4, junk)] (rands (w_sched w)) (stale (w_sched w)) (w_sched w)"
  let ?w = "w\<lparr>w_sched := ?s, w_app := (\<lambda>p. map_option (reequipped [wrote_all, wrote_all] [cu_ok, cu_ok]) (w_app w p))\<rparr>"
  have m: "mem_inv (w_sched w)" using rig_inv [OF r] by simp
  have step: "world_step w ?w"
    by (rule world_step.refill) (use mem_invD(7) [OF m] in \<open>auto simp: client_ok_def junk_def ex_client_def\<close>)
  have "desk ?s on Q 2 bs" using r by (simp add: rig_def desk_def) (simp add: resupplied_def)
  moreover have "seated ?w q 2 (A q)" if "q = 1 \<or> q = 2" for q
    using r that by (auto simp: rig_def seated_def supplied_def lc_abs_def reequipped_def)
  moreover have "resting ?w = resting w" by (rule ext) (simp add: resting_def reequipped_def split: option.split)
  ultimately show ?thesis
    using step r reached_step [OF _ step] by (intro exI [of _ ?w]) (auto simp: rig_def)
qed

text \<open>The six steps of a turn.\<close>

lemma step_to:
  assumes "\<exists>w'. world_step w w' \<and> rig tog w' on Q n as A" "A 1 = B 1" "A 2 = B 2"
  shows "\<exists>w'. world_step w w' \<and> rig tog w' on Q n as B"
  using assms rig_cong by blast

lemmas turn_simps = queue_at_def seats_at_def needs_at_def chair_def moved_def lc_early_def lc_want_def lc_recv_def noted_def

lemma turn_rest:
  assumes "rig tog w True (queue_at 0 h) 2 (needs_at 0 h) (seats_at 0 h)" "h = 1 \<or> h = 2"
  shows "\<exists>w'. world_step w w' \<and> resting w' h \<and> rig tog w' True (queue_at 1 h) 2 [] (seats_at 1 h)"
proof -
  have "seats_at 1 h = seats_at 0 h" by (rule ext) (simp add: seats_at_def)
  with rig_rest [OF assms] show ?thesis by (simp add: queue_at_def needs_at_def)
qed

lemma turn_early:
  assumes "rig tog w True (queue_at 1 h) 2 (needs_at 1 h) (seats_at 1 h)" "h = 1 \<or> h = 2" "resting w h"
  shows "\<exists>w'. world_step w w' \<and> rig tog w' True (queue_at 2 h) 1 [] (seats_at 2 h)"
  by (rule step_to [OF rig_early_once [OF _ assms(2), where n = 1 and as = "[]" and A = "seats_at 1 h"]])
    (use assms in \<open>auto simp: turn_simps numeral_2_eq_2\<close>)

lemma turn_want:
  assumes "rig tog w True (queue_at 2 h) 2 (needs_at 2 h) (seats_at 2 h)" "h = 1 \<or> h = 2"
  shows "\<exists>w'. world_step w w' \<and> rig tog w' True (queue_at 3 h) 1 [] (seats_at 3 h)"
  by (rule step_to [OF rig_want [OF _ assms(2), where n = 1 and as = "[]" and A = "seats_at 2 h"]])
    (use assms in \<open>auto simp: turn_simps numeral_2_eq_2\<close>)

lemma turn_release:
  assumes "rig tog w True (queue_at 3 h) 2 (needs_at 3 h) (seats_at 3 h)" "h = 1 \<or> h = 2"
  shows "\<exists>w'. world_step w w' \<and> rig tog w' True (queue_at 4 h) 1 [] (seats_at 4 h)"
proof -
  have "\<exists>w'. world_step w w' \<and> rig tog w' True [partner h] 1 [] ((seats_at 3 h)(h := (seats_at 3 h h)\<lparr>st_up := [REQ_LOCK]\<rparr>,
      partner h := (seats_at 3 h (partner h))\<lparr>st_down := st_down (seats_at 3 h (partner h)) @ [LOCK_OK]\<rparr>))"
    by (rule rig_release) (use assms in \<open>auto simp: turn_simps numeral_2_eq_2\<close>)
  from step_to [OF this, of "seats_at 4 h"] assms(2) show ?thesis by (auto simp: turn_simps)
qed

lemma turn_request:
  assumes "rig tog w True (queue_at 4 h) 2 (needs_at 4 h) (seats_at 4 h)" "h = 1 \<or> h = 2"
  shows "\<exists>w'. world_step w w' \<and> rig tog w' True (queue_at 5 h) 1 [] (seats_at 5 h)"
proof -
  have "\<exists>w'. world_step w w' \<and> rig tog w' True ([partner h] @ [h]) 1 [] ((seats_at 4 h)(h := (seats_at 4 h h)\<lparr>st_up := [],
      st_down := st_down (seats_at 4 h h) @ (if [partner h] = [] then [LOCK_OK] else [])\<rparr>))"
    by (rule rig_request) (use assms in \<open>auto simp: turn_simps numeral_2_eq_2\<close>)
  from step_to [OF this, of "seats_at 5 h"] assms(2) show ?thesis by (auto simp: turn_simps)
qed

lemma turn_receive:
  assumes "rig tog w True (queue_at 5 h) 2 (needs_at 5 h) (seats_at 5 h)" "h = 1 \<or> h = 2"
  shows "\<exists>w'. world_step w w' \<and> rig tog w' True (queue_at 0 (partner h)) 1 [] (seats_at 0 (partner h))"
  by (rule step_to [OF rig_receive [where n = 1 and as = "[]" and A = "seats_at 5 h" and p = "partner h" and k = LOCK_OK and D = "[]"]])
    (use assms in \<open>auto simp: turn_simps numeral_2_eq_2\<close>)

text \<open>
  World \<open>i\<close> of the run: the environment provides for the step at even numbers, and the step of the code is at
  odd ones. After twelve steps the two applications have changed places.
\<close>

definition turn_at :: "nat \<Rightarrow> nat" where
  "turn_at i = i mod 12 div 2"

definition owner_at :: "nat \<Rightarrow> addr" where
  "owner_at i = (if even (i div 12) then 1 else 2)"

definition scene :: "nat \<Rightarrow> world \<Rightarrow> bool" where
  "scene i w \<longleftrightarrow> (\<exists>n as. rig False w True (queue_at (turn_at i) (owner_at i)) n as (seats_at (turn_at i) (owner_at i))
       \<and> (odd i \<longrightarrow> n = 2 \<and> as = needs_at (turn_at i) (owner_at i)))
     \<and> (turn_at i = 1 \<longrightarrow> resting w (owner_at i))"

lemma scene_times:
  "even i \<Longrightarrow> turn_at (Suc i) = turn_at i \<and> owner_at (Suc i) = owner_at i"
  "odd i \<Longrightarrow> turn_at i < 5 \<Longrightarrow> turn_at (Suc i) = Suc (turn_at i) \<and> owner_at (Suc i) = owner_at i"
  "odd i \<Longrightarrow> turn_at i = 5 \<Longrightarrow> turn_at (Suc i) = 0 \<and> owner_at (Suc i) = partner (owner_at i)"
proof -
  define r where "r = i mod 12"
  have p: "even i = even r" unfolding r_def by (simp add: dvd_mod_iff)
  have m: "Suc i mod 12 = (if r = 11 then 0 else Suc r)" "Suc i div 12 = (if r = 11 then Suc (i div 12) else i div 12)"
    by (simp_all add: r_def mod_Suc div_Suc)
  have "r < 12" by (simp add: r_def)
  then have r: "r = 0 \<or> r = 1 \<or> r = 2 \<or> r = 3 \<or> r = 4 \<or> r = 5 \<or> r = 6 \<or> r = 7 \<or> r = 8 \<or> r = 9 \<or> r = 10 \<or> r = 11" by presburger
  note defs = turn_at_def owner_at_def m r_def [symmetric]
  show "even i \<Longrightarrow> turn_at (Suc i) = turn_at i \<and> owner_at (Suc i) = owner_at i"
    using r p by (elim disjE) (simp_all add: defs)
  show "odd i \<Longrightarrow> turn_at i < 5 \<Longrightarrow> turn_at (Suc i) = Suc (turn_at i) \<and> owner_at (Suc i) = owner_at i"
    using r p by (elim disjE) (simp_all add: defs)
  show "odd i \<Longrightarrow> turn_at i = 5 \<Longrightarrow> turn_at (Suc i) = 0 \<and> owner_at (Suc i) = partner (owner_at i)"
    using r p by (elim disjE) (simp_all add: defs)
qed

lemma scene_step:
  assumes "scene i w"
  shows "\<exists>w'. scene (Suc i) w' \<and> world_step w w'"
proof -
  let ?k = "turn_at i" and ?h = "owner_at i"
  have h: "?h = 1 \<or> ?h = 2" by (simp add: owner_at_def)
  obtain n as where r: "rig False w True (queue_at ?k ?h) n as (seats_at ?k ?h)" "odd i \<longrightarrow> n = 2 \<and> as = needs_at ?k ?h"
    and rest: "?k = 1 \<longrightarrow> resting w ?h" using assms by (auto simp: scene_def)
  show ?thesis
  proof (cases "even i")
    case True
    obtain w' where "world_step w w'" "rig False w' True (queue_at ?k ?h) 2 (needs_at ?k ?h) (seats_at ?k ?h)" "resting w' = resting w"
      using rig_refill [OF r(1)] by blast
    then show ?thesis using True rest scene_times(1) [OF True] by (auto simp: scene_def)
  next
    case False
    then have o: "odd i" and r: "rig False w True (queue_at ?k ?h) 2 (needs_at ?k ?h) (seats_at ?k ?h)" using r by simp_all
    have onward: ?thesis if "\<exists>w'. world_step w w' \<and> rig False w' True (queue_at (Suc ?k) ?h) n as (seats_at (Suc ?k) ?h)" "?k < 5" "?k \<noteq> 0" for n as
      using that o scene_times(2) [OF o that(2)] by (auto simp: scene_def)
    consider "?k = 0" | "?k = 1" | "?k = 2" | "?k = 3" | "?k = 4" | "?k = 5"
      unfolding turn_at_def by linarith
    then show ?thesis
    proof cases
      case 1
      then obtain w' where "world_step w w'" "resting w' ?h" "rig False w' True (queue_at 1 ?h) 2 [] (seats_at 1 ?h)"
        using turn_rest [OF _ h] r by auto
      then show ?thesis using 1 o scene_times(2) [OF o] by (intro exI [of _ w']) (auto simp: scene_def)
    next
      case 2
      with turn_early [OF _ h] r rest show ?thesis by (intro onward) (simp_all add: numeral_2_eq_2)
    next
      case 3
      with turn_want [OF _ h] r show ?thesis by (intro onward) simp_all
    next
      case 4
      with turn_release [OF _ h] r show ?thesis by (intro onward) simp_all
    next
      case 5
      with turn_request [OF _ h] r show ?thesis by (intro onward) simp_all
    next
      case 6
      then obtain w' where "world_step w w'" "rig False w' True (queue_at 0 (partner ?h)) 1 [] (seats_at 0 (partner ?h))"
        using turn_receive [OF _ h] r by auto
      then show ?thesis using scene_times(3) [OF o 6] o
        by (intro exI [of _ w']) (auto simp: scene_def simp del: One_nat_def)
    qed
  qed
qed

lemma scene_start: "\<exists>w. scene 0 w"
proof -
  let ?b = "\<lparr>b_on = True, b_queue = [1, 2], b_one = chair True False [] [], b_two = chair False True [] []\<rparr>"
  have "\<exists>as. plays [Want 1, Serve 1, Want 2, Serve 2, Recv 1] bench0 = Some (?b, as)"
    by (simp add: bench0_def idle_seat_def seat_of_def put_def chair_def moved_def lc_want_def lc_recv_def noted_def)
  then obtain as where "plays [Want 1, Serve 1, Want 2, Serve 2, Recv 1] bench0 = Some (?b, as)" by blast
  with script_runs [of "[Want 1, Serve 1, Want 2, Serve 2, Recv 1]" ?b as False] obtain w where "bench_rig False w ?b 0 []" by auto
  moreover have "seat_of ?b 1 = seats_at 0 1 1" "seat_of ?b 2 = seats_at 0 1 2" by (simp_all add: seat_of_def seats_at_def)
  ultimately have "rig False w True [1, 2] 0 [] (seats_at 0 1)" using rig_cong [of "seat_of ?b" "seats_at 0 1"] by simp
  then have "scene 0 w" unfolding scene_def by (auto simp: turn_at_def owner_at_def queue_at_def)
  then show ?thesis by blast
qed

text \<open>What can be seen of the run: the lengths of what is under way, and who owns the lock and who waits.\<close>

lemma scene_seat:
  assumes "scene i w" "p = 1 \<or> p = 2"
  shows "length (w_up w p) = length (st_up (seats_at (turn_at i) (owner_at i) p))"
    "length (w_down w p) = length (st_down (seats_at (turn_at i) (owner_at i) p))"
    "owns w p = lc_own (st_lc (seats_at (turn_at i) (owner_at i) p))"
    "waits w p = lc_need (st_lc (seats_at (turn_at i) (owner_at i) p))"
proof -
  let ?st = "seats_at (turn_at i) (owner_at i) p"
  obtain n as where r: "rig False w True (queue_at (turn_at i) (owner_at i)) n as (seats_at (turn_at i) (owner_at i))"
    using assms(1) by (auto simp: scene_def)
  obtain a where a: "w_app w p = Some a" "lc_abs a = st_lc ?st" "w_up w p = map (note_of p) (st_up ?st)"
    "kinds (w_down w p) = map Some (st_down ?st)" using rig_seat [OF r assms(2)] by blast
  show "length (w_up w p) = length (st_up ?st)" using a(3) by simp
  show "length (w_down w p) = length (st_down ?st)" using arg_cong [OF a(4), of length] by simp
  show "owns w p = lc_own (st_lc ?st)" using a(1) unfolding a(2) [symmetric] by (simp add: owns_def lc_abs_def)
  show "waits w p = lc_need (st_lc ?st)" using a(1) unfolding a(2) [symmetric] by (simp add: waits_def lc_abs_def)
qed

lemma scene_others:
  assumes "scene i w" "p \<noteq> 1" "p \<noteq> 2"
  shows "w_up w p = [] \<and> w_down w p = [] \<and> \<not> owns w p"
proof -
  obtain Q n as A where r: "rig False w True Q n as A" using assms(1) by (auto simp: scene_def)
  then have w: "world_inv w" "desk (w_sched w) True Q n as" "w_up w 3 = []" "world_reach w"
    using world_reach_inv by (auto simp: rig_def reached_def)
  note c = world_inv_conn [OF w(1), of p]
  show ?thesis
  proof (cases "heap (w_sched w) p")
    case None
    with c show ?thesis by (simp add: conn_inv_def owns_def)
  next
    case (Some d)
    then have "p \<in> set (clients (w_sched w))"
      using w(1) mem_invD(2) [of "w_sched w"] by (auto simp: world_inv_def sched_inv_def)
    then have p: "p = 3" using w(2) assms(2,3) by (auto simp: desk_def)
    then show ?thesis using c w(2,3) Some by (auto simp: conn_inv_def desk_def owns_def split: option.splits)
  qed
qed

lemma turn_moment:
  assumes "c < 24"
  shows "turn_at (24 * n + c) = turn_at c" "owner_at (24 * n + c) = owner_at c"
proof -
  have "24 * n + c = 12 * (2 * n) + c" by simp
  then have "(24 * n + c) mod 12 = c mod 12" "(24 * n + c) div 12 = 2 * n + c div 12"
    by (simp_all only: mod_mult_self4 div_mult_self2)
  then show "turn_at (24 * n + c) = turn_at c" "owner_at (24 * n + c) = owner_at c"
    by (simp_all add: turn_at_def owner_at_def)
qed

lemma endless_run:
  "\<exists>run. world_run run \<and> (\<forall>i. scene i (run i))"
proof -
  have "\<exists>run. \<forall>i. scene i (run i) \<and> world_step (run i) (run (Suc i))"
    using dependent_nat_choice [of scene "\<lambda>_. world_step"] scene_start scene_step by auto
  then obtain run where run: "\<And>i. scene i (run i)" "\<And>i. world_step (run i) (run (Suc i))" by blast
  have "world_reach (run 0)" using run(1) [of 0] by (auto simp: scene_def rig_def reached_def)
  with run show ?thesis by (intro exI [of _ run]) (simp add: world_run_def)
qed

lemma endless_fair:
  assumes "\<And>i. scene i (run i)"
  shows "scheduler_reads run" "clients_read run" "quanta_end run"
    and "\<exists>i>n. waits (run i) 1" "\<exists>i>n. waits (run i) 2"
proof -
  have here: "length (w_up (run (24 * n + c)) p) = length (st_up (seats_at (turn_at c) (owner_at c) p))"
    "length (w_down (run (24 * n + c)) p) = length (st_down (seats_at (turn_at c) (owner_at c) p))"
    "owns (run (24 * n + c)) p = lc_own (st_lc (seats_at (turn_at c) (owner_at c) p))"
    "waits (run (24 * n + c)) p = lc_need (st_lc (seats_at (turn_at c) (owner_at c) p))"
    if "p = 1 \<or> p = 2" "c < 24" for n c p
    using scene_seat [OF assms [of "24 * n + c"] that(1)] turn_moment [OF that(2)] by simp_all
  have cs: "p = 1 \<or> p = 2" if "w_up (run i) p \<noteq> [] \<or> w_down (run i) p \<noteq> [] \<or> owns (run i) p" for i p
    using scene_others [OF assms [of i]] that by auto
  note ev = turn_at_def owner_at_def seats_at_def chair_def partner_def
  show "scheduler_reads run"
    unfolding scheduler_reads_def
  proof (intro allI impI)
    fix i q assume "w_up (run i) q \<noteq> []"
    with cs have q: "q = 1 \<or> q = 2" by blast
    show "\<exists>j\<ge>i. length (w_up (run (Suc j)) q) < length (w_up (run j) q)"
      using here(1) [OF q, of 7 i] here(1) [OF q, of 8 i] here(1) [OF q, of 19 i] here(1) [OF q, of 20 i] q
      by (intro exI [of _ "24 * i + (if q = 1 then 7 else 19)"]) (auto simp: ev add.commute)
  qed
  show "clients_read run"
    unfolding clients_read_def
  proof (intro allI impI)
    fix i q assume "w_down (run i) q \<noteq> []"
    with cs have q: "q = 1 \<or> q = 2" by blast
    show "\<exists>j\<ge>i. length (w_down (run (Suc j)) q) < length (w_down (run j) q)"
      using here(2) [OF q, of 23 i] here(2) [OF q, of 0 "Suc i"] here(2) [OF q, of 11 i] here(2) [OF q, of 12 i] q
      by (intro exI [of _ "24 * i + (if q = 2 then 11 else 23)"]) (auto simp: ev add.commute)
  qed
  show "quanta_end run"
    unfolding quanta_end_def
  proof (intro allI impI)
    fix i q assume "owns (run i) q"
    with cs have q: "q = 1 \<or> q = 2" by blast
    show "\<exists>j\<ge>i. timer_fires (run j) (run (Suc j)) \<or> \<not> owns (run j) q"
      using here(3) [OF q, of 4 i] here(3) [OF q, of 16 i] q
      by (intro exI [of _ "24 * i + (if q = 1 then 4 else 16)"]) (auto simp: ev)
  qed
  show "\<exists>i>n. waits (run i) 1"
    using here(4) [of 1 12 n] by (intro exI [of _ "24 * n + 12"]) (simp add: ev)
  show "\<exists>i>n. waits (run i) 2"
    using here(4) [of 2 1 n] by (intro exI [of _ "24 * n + 1"]) (simp add: ev)
qed

section \<open>Property\<close>

text \<open>
  C3: nobody starves. Take any infinite run of the scheduler's and the applications' threads, with the environment free to provide the answers to
  system calls, memory and random numbers as the run goes on, in which
  messages under way are read some time and the quantum of an application that owns the lock ends some time: the timer fires, unless the application
  gives the lock up before. An application that waits for the lock goes on waiting until it owns the lock, or until its
  connection is closed, and that happens after finitely many steps. That the timer fires
  in the end is an assumption because the timer thread does not always see to it: a reset of the timer can be lost.
\<close>

theorem starvation_free:
  assumes run: "world_run run" and fair: "scheduler_reads run" "clients_read run" "quanta_end run"
    and p: "waits (run i) p"
  shows "\<exists>j>i. (\<forall>k. i \<le> k \<and> k < j \<longrightarrow> waits (run k) p) \<and> (w_app (run j) p = None \<or> owns (run j) p)"
proof -
  obtain j0 where j0: "i \<le> j0" "\<not> waits (run j0) p" using waiting_ends [OF run fair(1,2) quanta_end_told [OF run fair(3)]] by blast
  define j where "j = (LEAST j. i \<le> j \<and> \<not> waits (run j) p)"
  have j: "i \<le> j" "\<not> waits (run j) p" using LeastI [of "\<lambda>j. i \<le> j \<and> \<not> waits (run j) p" j0] j0 by (simp_all add: j_def)
  have before: "waits (run k) p" if "i \<le> k" "k < j" for k using not_less_Least [of k] that unfolding j_def by blast
  have "i < j" using j p by (metis le_neq_implies_less)
  then obtain k where k: "j = Suc k" "i \<le> k" by (cases j) auto
  have w: "waits (run k) p" using before k by simp
  have last: "w_app (run j) p = None \<or> owns (run j) p"
  proof (cases "w_app (run j) p")
    case that: (Some a)
    have "w_app (run k) p \<noteq> None" using w by (auto elim: waitsE)
    then have "by_sched p (run k) (run j) \<or> by_app p (run k) (run j)"
      using world_step_conn [OF world_run_inv(1,2) [OF run], of k p] that k(1) by simp
    moreover have "\<not> by_sched p (run k) (run j)" using w j(2) by (auto simp: by_sched_def waits_def)
    ultimately show ?thesis using w j(2) by (simp add: by_app_def)
  qed simp
  show ?thesis
  proof (intro exI conjI allI impI)
    show "i < j" by fact
    show "waits (run k) p" if "i \<le> k \<and> k < j" for k using before that by simp
    show "w_app (run j) p = None \<or> owns (run j) p" by (rule last)
  qed
qed

theorem starvation_free_witness:
  "\<exists>run. world_run run \<and> scheduler_reads run \<and> clients_read run \<and> quanta_end run
     \<and> (\<forall>n. \<exists>i>n. waits (run i) 1) \<and> (\<forall>n. \<exists>i>n. waits (run i) 2)
     \<and> (\<forall>n. \<exists>j>n. w_app (run j) 1 = None \<or> owns (run j) 1)"
proof -
  obtain run where run: "world_run run" "\<And>i. scene i (run i)" using endless_run by blast
  note fair = endless_fair [OF run(2)]
  have "\<exists>j>n. w_app (run j) 1 = None \<or> owns (run j) 1" for n
  proof -
    obtain i where i: "n < i" "waits (run i) 1" using fair(4) by blast
    from starvation_free [OF run(1) fair(1-3) i(2)] i(1) show ?thesis by (meson less_trans)
  qed
  with run(1) fair show ?thesis by blast
qed

end
