(* ===== verification/Hook.thy ===== *)
theory Hook
  imports Client
begin

text \<open>
  The CUDA interposer, \<open>src/src/hook.c\<close>: the functions libnvshare puts in front of the CUDA driver.

  The dynamic linker is an environment, \<open>dlenv\<close>: whether \<open>dlopen\<close> finds the two libraries, what
  \<open>dlvsym\<close> gives for the real \<open>dlsym\<close>, and for each symbol the pointer the real \<open>dlsym\<close> returns and
  whether \<open>dlerror\<close> reports an error afterwards. The global \<open>real_*\<close> pointers are the function \<open>h_real\<close>, indexed by the
  symbol they are looked up under; 0 is NULL. The real functions themselves are calls to the environment of theory \<open>Client\<close>.

  A wrapper that must own the GPU lock first goes through \<open>continue_with_lock\<close>, where it may wait. It
  is modelled in two stretches: up to the return of \<open>continue_with_lock\<close>, and the rest.
\<close>

section \<open>Names\<close>

datatype hooked =
    H_cuMemAlloc | H_cuMemFree | H_cuMemGetInfo | H_cuGetProcAddress | H_cuGetProcAddress_v2
  | H_cuInit | H_cuLaunchKernel | H_cuMemcpy | H_cuMemcpyAsync | H_cuMemcpyDtoH | H_cuMemcpyDtoHAsync
  | H_cuMemcpyHtoD | H_cuMemcpyHtoDAsync | H_cuMemcpyDtoD | H_cuMemcpyDtoDAsync

text \<open>The interposed functions in the order the dispatchers compare them.\<close>

definition hooks :: "hooked list" where
  "hooks = [H_cuMemAlloc, H_cuMemFree, H_cuMemGetInfo, H_cuGetProcAddress, H_cuGetProcAddress_v2,
     H_cuInit, H_cuLaunchKernel, H_cuMemcpy, H_cuMemcpyAsync, H_cuMemcpyDtoH, H_cuMemcpyDtoHAsync,
     H_cuMemcpyHtoD, H_cuMemcpyHtoDAsync, H_cuMemcpyDtoD, H_cuMemcpyDtoDAsync]"

text \<open>The literals that \<open>cuGetProcAddress\<close> compares with.\<close>

fun proc_name :: "hooked \<Rightarrow> string" where
  "proc_name H_cuMemAlloc = ''cuMemAlloc''"
| "proc_name H_cuMemFree = ''cuMemFree''"
| "proc_name H_cuMemGetInfo = ''cuMemGetInfo''"
| "proc_name H_cuGetProcAddress = ''cuGetProcAddress''"
| "proc_name H_cuGetProcAddress_v2 = ''cuGetProcAddress_v2''"
| "proc_name H_cuInit = ''cuInit''"
| "proc_name H_cuLaunchKernel = ''cuLaunchKernel''"
| "proc_name H_cuMemcpy = ''cuMemcpy''"
| "proc_name H_cuMemcpyAsync = ''cuMemcpyAsync''"
| "proc_name H_cuMemcpyDtoH = ''cuMemcpyDtoH''"
| "proc_name H_cuMemcpyDtoHAsync = ''cuMemcpyDtoHAsync''"
| "proc_name H_cuMemcpyHtoD = ''cuMemcpyHtoD''"
| "proc_name H_cuMemcpyHtoDAsync = ''cuMemcpyHtoDAsync''"
| "proc_name H_cuMemcpyDtoD = ''cuMemcpyDtoD''"
| "proc_name H_cuMemcpyDtoDAsync = ''cuMemcpyDtoDAsync''"

text \<open>\<open>CUDA_SYMBOL_STRING\<close>: the name after the \<open>#define\<close>s of \<open>cuda_defs.h\<close>.\<close>

fun CUDA_SYMBOL_STRING :: "hooked \<Rightarrow> string" where
  "CUDA_SYMBOL_STRING H_cuMemAlloc = ''cuMemAlloc_v2''"
| "CUDA_SYMBOL_STRING H_cuMemFree = ''cuMemFree_v2''"
| "CUDA_SYMBOL_STRING H_cuMemGetInfo = ''cuMemGetInfo_v2''"
| "CUDA_SYMBOL_STRING H_cuGetProcAddress = ''cuGetProcAddress''"
| "CUDA_SYMBOL_STRING H_cuGetProcAddress_v2 = ''cuGetProcAddress_v2''"
| "CUDA_SYMBOL_STRING H_cuInit = ''cuInit''"
| "CUDA_SYMBOL_STRING H_cuLaunchKernel = ''cuLaunchKernel''"
| "CUDA_SYMBOL_STRING H_cuMemcpy = ''cuMemcpy''"
| "CUDA_SYMBOL_STRING H_cuMemcpyAsync = ''cuMemcpyAsync''"
| "CUDA_SYMBOL_STRING H_cuMemcpyDtoH = ''cuMemcpyDtoH_v2''"
| "CUDA_SYMBOL_STRING H_cuMemcpyDtoHAsync = ''cuMemcpyDtoHAsync_v2''"
| "CUDA_SYMBOL_STRING H_cuMemcpyHtoD = ''cuMemcpyHtoD_v2''"
| "CUDA_SYMBOL_STRING H_cuMemcpyHtoDAsync = ''cuMemcpyHtoDAsync_v2''"
| "CUDA_SYMBOL_STRING H_cuMemcpyDtoD = ''cuMemcpyDtoD_v2''"
| "CUDA_SYMBOL_STRING H_cuMemcpyDtoDAsync = ''cuMemcpyDtoDAsync_v2''"

fun find_hook :: "(hooked \<Rightarrow> string) \<Rightarrow> hooked list \<Rightarrow> string \<Rightarrow> hooked option" where
  "find_hook name [] nm = None"
| "find_hook name (h # hs) nm = (if nm = name h then Some h else find_hook name hs nm)"

section \<open>State\<close>

record dlenv =
  dl_nvml :: bool
  dl_cuda :: bool
  dl_dlvsym_225 :: "64 word \<times> bool"
  dl_dlvsym_234 :: "64 word \<times> bool"
  dl_sym :: "string \<Rightarrow> 64 word \<times> bool"

record cuda_mem_allocation =
  al_ptr :: "64 word"
  al_size :: "64 word"

record hook =
  h_app :: app
  h_real :: "string \<Rightarrow> 64 word"
  h_r_dlsym_225 :: bool
  h_r_dlsym_234 :: bool
  h_libnvshare_done :: bool
  h_init_done :: bool
  h_enable_single_oversub :: bool
  h_got_max_mem_size :: bool
  h_size_mem_allocatable :: "64 word"
  h_sum_allocated :: "64 word"
  h_allocation_list :: "cuda_mem_allocation list"
  h_kern_since_sync :: int
  h_mallocs :: "bool list"

definition MEMINFO_RESERVE_MIB :: int where "MEMINFO_RESERVE_MIB = 1536"
definition KERN_SYNC_DURATION_BIG :: int where "KERN_SYNC_DURATION_BIG = 10"
definition KERN_SYNC_WINDOW_STEPDOWN_THRESH :: int where "KERN_SYNC_WINDOW_STEPDOWN_THRESH = 1"
definition KERN_SYNC_WINDOW_MAX :: int where "KERN_SYNC_WINDOW_MAX = 2048"
definition MiB :: int where "MiB = 2 ^ 20"

definition CU_MEM_ATTACH_GLOBAL :: nat where "CU_MEM_ATTACH_GLOBAL = 1"
definition CUDA_ERROR_OUT_OF_MEMORY :: int where "CUDA_ERROR_OUT_OF_MEMORY = 2"
definition CUDA_ERROR_NOT_INITIALIZED :: int where "CUDA_ERROR_NOT_INITIALIZED = 3"

definition in_app :: "(app \<Rightarrow> ('a \<times> app) res) \<Rightarrow> hook \<Rightarrow> ('a \<times> hook) res" where
  "in_app f s = bindR (f (h_app s)) (\<lambda>(x, a). Inr (x, s\<lparr>h_app := a\<rparr>))"

definition hook_check :: "int \<Rightarrow> hook \<Rightarrow> hook res" where
  "hook_check e s = bindR (check_error e (h_app s)) (\<lambda>a. Inr (s\<lparr>h_app := a\<rparr>))"

section \<open>Finding the real functions\<close>

text \<open>The result of \<open>real_dlsym_*\<close>: the pointer, and whether \<open>dlerror\<close> will report an error.\<close>

definition real_dlsym_225 :: "dlenv \<Rightarrow> string \<Rightarrow> hook \<Rightarrow> ((64 word \<times> bool) \<times> hook) res" where
  "real_dlsym_225 dl symbol s =
     bindR (if h_r_dlsym_225 s then Inr s
            else if snd (dl_dlvsym_225 dl) then Inl Exit
            else Inr (s\<lparr>h_r_dlsym_225 := fst (dl_dlvsym_225 dl) \<noteq> 0\<rparr>)) (\<lambda>s.
       if \<not> h_r_dlsym_225 s then Inl NullDeref else Inr (dl_sym dl symbol, s))"

definition real_dlsym_234 :: "dlenv \<Rightarrow> string \<Rightarrow> hook \<Rightarrow> ((64 word \<times> bool) \<times> hook) res" where
  "real_dlsym_234 dl symbol s =
     bindR (if h_r_dlsym_234 s then Inr s
            else if snd (dl_dlvsym_234 dl) then Inl Exit
            else Inr (s\<lparr>h_r_dlsym_234 := fst (dl_dlvsym_234 dl) \<noteq> 0\<rparr>)) (\<lambda>s.
       if \<not> h_r_dlsym_234 s then Inl NullDeref else Inr (dl_sym dl symbol, s))"

text \<open>The driver symbols in the order of \<open>bootstrap_cuda\<close>; a missing one is fatal where marked.\<close>

definition cuda_symbols :: "(string \<times> bool) list" where
  "cuda_symbols = [(''cuMemAllocManaged'', True), (CUDA_SYMBOL_STRING H_cuMemFree, True),
     (CUDA_SYMBOL_STRING H_cuGetProcAddress, False), (CUDA_SYMBOL_STRING H_cuGetProcAddress_v2, False),
     (CUDA_SYMBOL_STRING H_cuMemGetInfo, True), (''cuGetErrorString'', True), (''cuGetErrorName'', True),
     (''cuCtxSetCurrent'', True), (''cuCtxGetCurrent'', True), (CUDA_SYMBOL_STRING H_cuInit, True),
     (''cuCtxSynchronize'', True), (CUDA_SYMBOL_STRING H_cuLaunchKernel, True),
     (CUDA_SYMBOL_STRING H_cuMemcpy, True), (CUDA_SYMBOL_STRING H_cuMemcpyAsync, True),
     (CUDA_SYMBOL_STRING H_cuMemcpyDtoH, True), (CUDA_SYMBOL_STRING H_cuMemcpyDtoHAsync, True),
     (CUDA_SYMBOL_STRING H_cuMemcpyHtoD, True), (CUDA_SYMBOL_STRING H_cuMemcpyHtoDAsync, True),
     (CUDA_SYMBOL_STRING H_cuMemcpyDtoD, True), (CUDA_SYMBOL_STRING H_cuMemcpyDtoDAsync, True)]"

definition nvml_symbols :: "string list" where
  "nvml_symbols = [''nvmlDeviceGetUtilizationRates'', ''nvmlInit_v2'', ''nvmlDeviceGetHandleByIndex_v2'']"

fun resolve_nvml :: "dlenv \<Rightarrow> string list \<Rightarrow> hook \<Rightarrow> hook res" where
  "resolve_nvml dl [] s = Inr s"
| "resolve_nvml dl (nm # nms) s =
     bindR (real_dlsym_225 dl nm s) (\<lambda>((p, e), s).
       let s = s\<lparr>h_real := (h_real s)(nm := p)\<rparr> in
       resolve_nvml dl nms (if e then s\<lparr>h_app := (h_app s)\<lparr>a_nvml_ok := False\<rparr>\<rparr> else s))"

fun resolve_cuda :: "dlenv \<Rightarrow> (string \<times> bool) list \<Rightarrow> hook \<Rightarrow> hook res" where
  "resolve_cuda dl [] s = Inr s"
| "resolve_cuda dl ((nm, needed) # nms) s =
     bindR (real_dlsym_225 dl nm s) (\<lambda>((p, e), s).
       if e \<and> needed then Inl Exit
       else resolve_cuda dl nms (s\<lparr>h_real := (h_real s)(nm := p)\<rparr>))"

definition bootstrap_cuda :: "dlenv \<Rightarrow> hook \<Rightarrow> hook res" where
  "bootstrap_cuda dl s =
     bindR (if dl_nvml dl then resolve_nvml dl nvml_symbols s
            else Inr (s\<lparr>h_app := (h_app s)\<lparr>a_nvml_ok := False\<rparr>\<rparr>)) (\<lambda>s.
       if \<not> dl_cuda dl then Inl Exit else resolve_cuda dl cuda_symbols s)"

text \<open>\<open>initialize_libnvshare\<close>; \<open>oversub\<close>: whether \<open>NVSHARE_ENABLE_SINGLE_OVERSUB\<close> is set.\<close>

definition initialize_libnvshare :: "bool \<Rightarrow> dlenv \<Rightarrow> hook \<Rightarrow> hook res" where
  "initialize_libnvshare oversub dl s =
     bootstrap_cuda dl (if oversub then s\<lparr>h_enable_single_oversub := True\<rparr> else s)"

record henv =
  he_oversub :: bool
  he_dl :: dlenv
  he_penv :: penv
  he_path :: "char list"

text \<open>The two calls of \<open>pthread_once\<close> at the entry points.\<close>

definition init_once :: "henv \<Rightarrow> hook \<Rightarrow> hook res" where
  "init_once e s =
     bindR (if h_libnvshare_done s then Inr s
            else bindR (initialize_libnvshare (he_oversub e) (he_dl e) s) (\<lambda>s. Inr (s\<lparr>h_libnvshare_done := True\<rparr>))) (\<lambda>s.
       if h_init_done s then Inr s
       else bindR (initialize_client (he_penv e) (he_path e) (h_app s)) (\<lambda>a.
         Inr (s\<lparr>h_app := a, h_init_done := True\<rparr>)))"

section \<open>Dispatch\<close>

datatype target = Interposed hooked | Real "64 word"

definition dlsym_225 :: "dlenv \<Rightarrow> string \<Rightarrow> hook \<Rightarrow> (target \<times> hook) res" where
  "dlsym_225 dl symbol s =
     (if take 2 symbol \<noteq> ''cu''
      then bindR (real_dlsym_225 dl symbol s) (\<lambda>((p, _), s). Inr (Real p, s))
      else case find_hook CUDA_SYMBOL_STRING hooks symbol of
        Some h \<Rightarrow> Inr (Interposed h, s)
      | None \<Rightarrow> bindR (real_dlsym_225 dl symbol s) (\<lambda>((p, _), s). Inr (Real p, s)))"

definition dlsym_234 :: "dlenv \<Rightarrow> string \<Rightarrow> hook \<Rightarrow> (target \<times> hook) res" where
  "dlsym_234 dl symbol s =
     (if take 2 symbol \<noteq> ''cu''
      then bindR (real_dlsym_234 dl symbol s) (\<lambda>((p, _), s). Inr (Real p, s))
      else case find_hook CUDA_SYMBOL_STRING hooks symbol of
        Some h \<Rightarrow> Inr (Interposed h, s)
      | None \<Rightarrow> bindR (real_dlsym_234 dl symbol s) (\<lambda>((p, _), s). Inr (Real p, s)))"

text \<open>Result code, and what is stored through \<open>pfn\<close> (\<open>None\<close>: nothing).\<close>

definition cuGetProcAddress :: "henv \<Rightarrow> string \<Rightarrow> int \<Rightarrow> 64 word \<Rightarrow> hook \<Rightarrow> ((int \<times> target option) \<times> hook) res" where
  "cuGetProcAddress e symbol cudaVersion flags s =
     bindR (init_once e s) (\<lambda>s.
       if h_real s (CUDA_SYMBOL_STRING H_cuGetProcAddress) = 0 then Inr ((CUDA_ERROR_NOT_INITIALIZED, None), s)
       else case find_hook proc_name hooks symbol of
         Some h \<Rightarrow> Inr ((CUDA_SUCCESS, Some (Interposed h)), s)
       | None \<Rightarrow> bindR (in_app (cuda_call (Cu_GetProcAddress (CUDA_SYMBOL_STRING H_cuGetProcAddress) symbol cudaVersion flags)) s) (\<lambda>(a, s).
           Inr ((cu_result a, Some (Real (cu_val a))), s)))"

definition CU_GET_PROC_ADDRESS_SUCCESS :: "64 word" where "CU_GET_PROC_ADDRESS_SUCCESS = 0"

text \<open>The third component is what is stored through \<open>symbolStatus\<close>, if that is not NULL.\<close>

definition cuGetProcAddress_v2 :: "henv \<Rightarrow> bool \<Rightarrow> string \<Rightarrow> int \<Rightarrow> 64 word \<Rightarrow> hook \<Rightarrow> ((int \<times> target option \<times> 64 word option) \<times> hook) res" where
  "cuGetProcAddress_v2 e want_status symbol cudaVersion flags s =
     bindR (init_once e s) (\<lambda>s.
       if h_real s (CUDA_SYMBOL_STRING H_cuGetProcAddress_v2) = 0 then Inr ((CUDA_ERROR_NOT_INITIALIZED, None, None), s)
       else case find_hook proc_name hooks symbol of
         Some h \<Rightarrow> Inr ((CUDA_SUCCESS, Some (Interposed h), if want_status then Some CU_GET_PROC_ADDRESS_SUCCESS else None), s)
       | None \<Rightarrow> bindR (in_app (cuda_call (Cu_GetProcAddress (CUDA_SYMBOL_STRING H_cuGetProcAddress_v2) symbol cudaVersion flags)) s) (\<lambda>(a, s).
           Inr ((cu_result a, Some (Real (cu_val a)), if want_status then Some (cu_val2 a) else None), s)))"

definition cuInit :: "henv \<Rightarrow> 32 word \<Rightarrow> hook \<Rightarrow> (int \<times> hook) res" where
  "cuInit e flags s =
     bindR (init_once e s) (\<lambda>s.
     bindR (in_app (cuda_call (Cu_Init flags)) s) (\<lambda>(a, s).
     bindR (hook_check (cu_result a) s) (\<lambda>s. Inr (cu_result a, s))))"

section \<open>Memory\<close>

definition insert_cuda_allocation :: "64 word \<Rightarrow> 64 word \<Rightarrow> hook \<Rightarrow> hook res" where
  "insert_cuda_allocation dptr bytesize s =
     (let s = s\<lparr>h_sum_allocated := h_sum_allocated s + bytesize\<rparr> in
      case h_mallocs s of
        [] \<Rightarrow> Inl Blocked
      | ok # ms \<Rightarrow>
          if \<not> ok then Inl Exit
          else Inr (s\<lparr>h_mallocs := ms,
            h_allocation_list := h_allocation_list s @ [\<lparr>al_ptr = dptr, al_size = bytesize\<rparr>]\<rparr>))"

text \<open>The loop over the list: what is left of it and of \<open>sum_allocated\<close>.\<close>

fun remove_allocation_loop :: "64 word \<Rightarrow> cuda_mem_allocation list \<Rightarrow> 64 word \<Rightarrow> cuda_mem_allocation list \<times> 64 word" where
  "remove_allocation_loop rm_ptr [] sm = ([], sm)"
| "remove_allocation_loop rm_ptr (a # as) sm =
     (if al_ptr a = rm_ptr then remove_allocation_loop rm_ptr as (sm - al_size a)
      else let (as', sm') = remove_allocation_loop rm_ptr as sm in (a # as', sm'))"

definition remove_cuda_allocation :: "64 word \<Rightarrow> hook \<Rightarrow> hook" where
  "remove_cuda_allocation rm_ptr s =
     (let (as, sm) = remove_allocation_loop rm_ptr (h_allocation_list s) (h_sum_allocated s)
      in s\<lparr>h_allocation_list := as, h_sum_allocated := sm\<rparr>)"

text \<open>Result code, \<open>*free\<close> and \<open>*total\<close> (\<open>None\<close> if they are not written).\<close>

definition cuMemGetInfo :: "hook \<Rightarrow> ((int \<times> (64 word \<times> 64 word) option) \<times> hook) res" where
  "cuMemGetInfo s =
     (if h_real s (CUDA_SYMBOL_STRING H_cuMemGetInfo) = 0 then Inr ((CUDA_ERROR_NOT_INITIALIZED, None), s)
      else
        bindR (in_app (cuda_call Cu_MemGetInfo) s) (\<lambda>(a, s).
        bindR (hook_check (cu_result a) s) (\<lambda>s.
          let reserve_mib = MEMINFO_RESERVE_MIB * MiB; tot = cu_val2 a
          in Inr ((cu_result a, Some (tot - of_int reserve_mib, tot)), s))))"

definition get_max_mem_size :: "hook \<Rightarrow> hook res" where
  "get_max_mem_size s =
     (if h_got_max_mem_size s then Inr s
      else
        bindR (cuMemGetInfo s) (\<lambda>((r, out), s).
          let s = (case out of Some (fr, _) \<Rightarrow> s\<lparr>h_size_mem_allocatable := fr\<rparr> | None \<Rightarrow> s) in
          bindR (hook_check r s) (\<lambda>s. Inr (s\<lparr>h_got_max_mem_size := True\<rparr>))))"

definition cuMemAlloc :: "64 word \<Rightarrow> hook \<Rightarrow> ((int \<times> 64 word option) \<times> hook) res" where
  "cuMemAlloc bytesize s =
     (if h_real s ''cuMemAllocManaged'' = 0 then Inr ((CUDA_ERROR_NOT_INITIALIZED, None), s)
      else
        bindR (get_max_mem_size s) (\<lambda>s.
          if h_sum_allocated s + bytesize > h_size_mem_allocatable s \<and> \<not> h_enable_single_oversub s
          then Inr ((CUDA_ERROR_OUT_OF_MEMORY, None), s)
          else
            bindR (in_app (cuda_call (Cu_MemAllocManaged bytesize CU_MEM_ATTACH_GLOBAL)) s) (\<lambda>(a, s).
            bindR (hook_check (cu_result a) s) (\<lambda>s.
              bindR (if cu_result a = CUDA_SUCCESS then insert_cuda_allocation (cu_val a) bytesize s else Inr s) (\<lambda>s.
                Inr ((cu_result a, Some (cu_val a)), s))))))"

definition cuMemFree :: "64 word \<Rightarrow> hook \<Rightarrow> (int \<times> hook) res" where
  "cuMemFree dptr s =
     (if h_real s (CUDA_SYMBOL_STRING H_cuMemFree) = 0 then Inr (CUDA_ERROR_NOT_INITIALIZED, s)
      else
        bindR (in_app (cuda_call (Cu_MemFree dptr)) s) (\<lambda>(a, s).
          Inr (cu_result a, if cu_result a = CUDA_SUCCESS then remove_cuda_allocation dptr s else s)))"

section \<open>Work that needs the lock\<close>

text \<open>
  The wrappers that touch the GPU have the same shape. \<open>wrapper_enter\<close> is the part up to the return of
  \<open>continue_with_lock\<close>: \<open>Some r\<close> is an early return with the code \<open>r\<close>; otherwise the lock is there (\<open>True\<close>) or the
  thread waits for it (\<open>False\<close>). \<open>guarded\<close> adds what follows when it need not wait; its result is
  \<open>None\<close> while the thread waits. \<open>guarded_resume\<close> goes on when the thread is woken up. Both are the runs of a wrapper in which no other thread comes between
  the check of the lock and the call of the driver, although the mutex is free there; theory \<open>Gate\<close> has the two as separate steps,
  interleaved with the other threads.
\<close>

definition wrapper_enter :: "string \<Rightarrow> hook \<Rightarrow> ((int option \<times> bool) \<times> hook) res" where
  "wrapper_enter real s =
     (if h_real s real = 0 then Inr ((Some CUDA_ERROR_NOT_INITIALIZED, False), s)
      else bindR (in_app continue_with_lock s) (\<lambda>(fin, s). Inr ((None, fin), s)))"

definition guarded :: "string \<Rightarrow> (hook \<Rightarrow> (int \<times> hook) res) \<Rightarrow> hook \<Rightarrow> (int option \<times> hook) res" where
  "guarded real body s =
     bindR (wrapper_enter real s) (\<lambda>((early, fin), s).
       if early \<noteq> None then Inr (early, s)
       else if fin then bindR (body s) (\<lambda>(r, s). Inr (Some r, s))
       else Inr (None, s))"

definition guarded_resume :: "(hook \<Rightarrow> (int \<times> hook) res) \<Rightarrow> hook \<Rightarrow> (int option \<times> hook) res" where
  "guarded_resume body s =
     bindR (in_app cwl_resume s) (\<lambda>(fin, s).
       if fin then bindR (body s) (\<lambda>(r, s). Inr (Some r, s)) else Inr (None, s))"

text \<open>The window after a synchronisation that took \<open>sec\<close> seconds.\<close>

definition next_window :: "int \<Rightarrow> int \<Rightarrow> int" where
  "next_window sec w =
     (if KERN_SYNC_DURATION_BIG \<le> sec then 1
      else if KERN_SYNC_WINDOW_STEPDOWN_THRESH \<le> sec then max (w div 2) 1
      else min (w * 2) KERN_SYNC_WINDOW_MAX)"

text \<open>
  \<open>cuLaunchKernel\<close>: \<open>dims\<close> are the seven sizes, \<open>ptrs\<close> the stream and the two parameter arrays; \<open>t0\<close>
  and \<open>t1\<close> are the clock readings around the synchronisation.
\<close>

definition launch_body :: "64 word \<Rightarrow> 32 word list \<Rightarrow> 64 word list \<Rightarrow> timespec \<Rightarrow> timespec \<Rightarrow> hook \<Rightarrow> (int \<times> hook) res" where
  "launch_body f dims ptrs t0 t1 s =
     bindR (in_app (cuda_call (Cu_LaunchKernel f dims ptrs)) s) (\<lambda>(a, s).
     bindR (hook_check (cu_result a) s) (\<lambda>s.
       let s = s\<lparr>h_kern_since_sync := h_kern_since_sync s + 1\<rparr> in
       if a_pending_kernel_window (h_app s) \<le> h_kern_since_sync s then
         bindR (in_app (cuda_call Cu_CtxSynchronize) s) (\<lambda>(b, s).
         bindR (hook_check (cu_result b) s) (\<lambda>s.
           let w = next_window (tv_sec (timespecsub t1 t0)) (a_pending_kernel_window (h_app s)) in
           Inr (cu_result b, s\<lparr>h_app := (h_app s)\<lparr>a_pending_kernel_window := w\<rparr>, h_kern_since_sync := 0\<rparr>)))
       else Inr (cu_result a, s)))"

definition cuLaunchKernel :: "64 word \<Rightarrow> 32 word list \<Rightarrow> 64 word list \<Rightarrow> timespec \<Rightarrow> timespec \<Rightarrow> hook \<Rightarrow> (int option \<times> hook) res" where
  "cuLaunchKernel f dims ptrs t0 t1 =
     guarded (CUDA_SYMBOL_STRING H_cuLaunchKernel) (launch_body f dims ptrs t0 t1)"

text \<open>The memory copies; an asynchronous one has a stream.\<close>

definition copy_body :: "hooked \<Rightarrow> 64 word \<Rightarrow> 64 word \<Rightarrow> 64 word \<Rightarrow> 64 word option \<Rightarrow> hook \<Rightarrow> (int \<times> hook) res" where
  "copy_body h dst src n stream s =
     bindR (in_app (cuda_call (Cu_Memcpy (CUDA_SYMBOL_STRING h) dst src n stream)) s) (\<lambda>(a, s).
     bindR (hook_check (cu_result a) s) (\<lambda>s. Inr (cu_result a, s)))"

definition cuMemcpy :: "64 word \<Rightarrow> 64 word \<Rightarrow> 64 word \<Rightarrow> hook \<Rightarrow> (int option \<times> hook) res" where
  "cuMemcpy dst src ByteCount =
     guarded (CUDA_SYMBOL_STRING H_cuMemcpy) (copy_body H_cuMemcpy dst src ByteCount None)"

definition cuMemcpyAsync :: "64 word \<Rightarrow> 64 word \<Rightarrow> 64 word \<Rightarrow> 64 word \<Rightarrow> hook \<Rightarrow> (int option \<times> hook) res" where
  "cuMemcpyAsync dst src ByteCount hStream =
     guarded (CUDA_SYMBOL_STRING H_cuMemcpyAsync) (copy_body H_cuMemcpyAsync dst src ByteCount (Some hStream))"

definition cuMemcpyDtoH :: "64 word \<Rightarrow> 64 word \<Rightarrow> 64 word \<Rightarrow> hook \<Rightarrow> (int option \<times> hook) res" where
  "cuMemcpyDtoH dst src ByteCount =
     guarded (CUDA_SYMBOL_STRING H_cuMemcpyDtoH) (copy_body H_cuMemcpyDtoH dst src ByteCount None)"

definition cuMemcpyDtoHAsync :: "64 word \<Rightarrow> 64 word \<Rightarrow> 64 word \<Rightarrow> 64 word \<Rightarrow> hook \<Rightarrow> (int option \<times> hook) res" where
  "cuMemcpyDtoHAsync dst src ByteCount hStream =
     guarded (CUDA_SYMBOL_STRING H_cuMemcpyDtoHAsync) (copy_body H_cuMemcpyDtoHAsync dst src ByteCount (Some hStream))"

definition cuMemcpyHtoD :: "64 word \<Rightarrow> 64 word \<Rightarrow> 64 word \<Rightarrow> hook \<Rightarrow> (int option \<times> hook) res" where
  "cuMemcpyHtoD dst src ByteCount =
     guarded (CUDA_SYMBOL_STRING H_cuMemcpyHtoD) (copy_body H_cuMemcpyHtoD dst src ByteCount None)"

definition cuMemcpyHtoDAsync :: "64 word \<Rightarrow> 64 word \<Rightarrow> 64 word \<Rightarrow> 64 word \<Rightarrow> hook \<Rightarrow> (int option \<times> hook) res" where
  "cuMemcpyHtoDAsync dst src ByteCount hStream =
     guarded (CUDA_SYMBOL_STRING H_cuMemcpyHtoDAsync) (copy_body H_cuMemcpyHtoDAsync dst src ByteCount (Some hStream))"

definition cuMemcpyDtoD :: "64 word \<Rightarrow> 64 word \<Rightarrow> 64 word \<Rightarrow> hook \<Rightarrow> (int option \<times> hook) res" where
  "cuMemcpyDtoD dst src ByteCount =
     guarded (CUDA_SYMBOL_STRING H_cuMemcpyDtoD) (copy_body H_cuMemcpyDtoD dst src ByteCount None)"

definition cuMemcpyDtoDAsync :: "64 word \<Rightarrow> 64 word \<Rightarrow> 64 word \<Rightarrow> 64 word \<Rightarrow> hook \<Rightarrow> (int option \<times> hook) res" where
  "cuMemcpyDtoDAsync dst src ByteCount hStream =
     guarded (CUDA_SYMBOL_STRING H_cuMemcpyDtoDAsync) (copy_body H_cuMemcpyDtoDAsync dst src ByteCount (Some hStream))"

end
