(* ===== verification/Hook_Props.thy ===== *)
theory Hook_Props
  imports Hook Client_Props
begin

text \<open>
  The properties of the CUDA interposer: which symbols are interposed, that GPU work waits for the lock, the accounting
  of device memory, and the window of pending kernels.
\<close>

section \<open>Frames\<close>

lemma in_app_Inr: "in_app f s = Inr (x, t) \<longleftrightarrow> (\<exists>a. f (h_app s) = Inr (x, a) \<and> t = s\<lparr>h_app := a\<rparr>)"
  by (auto simp: in_app_def bindR_Inr_iff)

lemma cuda_call_Inr:
  "cuda_call c s = Inr (a, t) \<Longrightarrow> \<exists>d. t = s\<lparr>a_cuda := d\<rparr>"
  by (auto simp: cuda_call_def cuda_sys_def bindR_Inr_iff split: list.splits)

lemma check_error_Inr: "check_error e s = Inr t \<Longrightarrow> \<exists>d. t = s\<lparr>a_cuda := d\<rparr>"
  by (auto simp: check_error_def bindR_Inr_iff)

lemma hook_check_Inr: "hook_check e s = Inr t \<Longrightarrow> \<exists>d. t = s\<lparr>h_app := (h_app s)\<lparr>a_cuda := d\<rparr>\<rparr>"
  by (auto simp: hook_check_def bindR_Inr_iff dest: check_error_Inr)

lemma in_app_cuda_call: "in_app (cuda_call c) s = Inr (a, t) \<Longrightarrow> \<exists>d. t = s\<lparr>h_app := (h_app s)\<lparr>a_cuda := d\<rparr>\<rparr>"
  by (auto simp: in_app_Inr dest: cuda_call_Inr)

lemmas hook_frames = in_app_cuda_call hook_check_Inr

section \<open>Dispatch\<close>

lemma find_hook_name:
  assumes "distinct (map name hs)" "h \<in> set hs"
  shows "find_hook name hs (name h) = Some h"
  using assms by (induction hs) (auto, metis image_eqI)

lemma find_hook_None: "find_hook name hs x = None \<longleftrightarrow> x \<notin> name ` set hs"
  by (induction hs) auto

lemma hooks_all [simp]: "h \<in> set hooks"
  by (cases h) (simp_all add: hooks_def)

lemma hook_names [simp]: "distinct (map CUDA_SYMBOL_STRING hooks)" "distinct (map proc_name hooks)"
  by (simp_all add: hooks_def)

lemma symbol_prefix [simp]: "take 2 (CUDA_SYMBOL_STRING h) = ''cu''"
  by (cases h) simp_all

text \<open>
  What is interposed. \<open>dlsym\<close> in both versions, \<open>cuGetProcAddress\<close> and \<open>cuGetProcAddress_v2\<close> give out libnvshare's own
  function for each of the fifteen interposed driver functions, under the name the respective
  interface knows it by; every other symbol goes to the real \<open>dlsym\<close>. In particular the test for
  the prefix \<open>cu\<close>, which saves the comparisons, changes no result.
\<close>

theorem interposed_symbols:
  "dlsym_225 dl symbol s =
     (case find_hook CUDA_SYMBOL_STRING hooks symbol of
        Some h \<Rightarrow> Inr (Interposed h, s)
      | None \<Rightarrow> bindR (real_dlsym_225 dl symbol s) (\<lambda>((p, _), s). Inr (Real p, s)))
   \<and> dlsym_234 dl symbol s =
     (case find_hook CUDA_SYMBOL_STRING hooks symbol of
        Some h \<Rightarrow> Inr (Interposed h, s)
      | None \<Rightarrow> bindR (real_dlsym_234 dl symbol s) (\<lambda>((p, _), s). Inr (Real p, s)))
   \<and> (\<forall>h. find_hook CUDA_SYMBOL_STRING hooks (CUDA_SYMBOL_STRING h) = Some h)
   \<and> (\<forall>h. find_hook proc_name hooks (proc_name h) = Some h)"
proof -
  have "find_hook CUDA_SYMBOL_STRING hooks symbol = None" if "take 2 symbol \<noteq> ''cu''"
    using that by (auto simp: find_hook_None)
  then show ?thesis
    using find_hook_name [OF hook_names(1) hooks_all] find_hook_name [OF hook_names(2) hooks_all]
    by (simp add: dlsym_225_def dlsym_234_def)
qed

section \<open>Finding the real functions\<close>

lemma real_dlsym_225_Inr: "real_dlsym_225 dl nm s = Inr ((p, e), t) \<Longrightarrow> (p, e) = dl_sym dl nm \<and> (\<exists>b. t = s\<lparr>h_r_dlsym_225 := b\<rparr>)"
  by (auto simp: real_dlsym_225_def bindR_Inr_iff split: if_splits intro: exI [of _ "h_r_dlsym_225 s"])

lemma resolve_cuda_Inr:
  "resolve_cuda dl nms s = Inr t \<Longrightarrow>
   (\<forall>(nm, needed) \<in> set nms. h_real t nm = fst (dl_sym dl nm) \<and> (needed \<longrightarrow> \<not> snd (dl_sym dl nm)))
   \<and> (\<forall>nm. nm \<notin> fst ` set nms \<longrightarrow> h_real t nm = h_real s nm)"
proof (induction nms arbitrary: s)
  case (Cons x nms)
  obtain nm needed where x: "x = (nm, needed)" by (cases x)
  with Cons.prems obtain p e u where u: "real_dlsym_225 dl nm s = Inr ((p, e), u)" "\<not> (e \<and> needed)"
    and rec: "resolve_cuda dl nms (u\<lparr>h_real := (h_real u)(nm := p)\<rparr>) = Inr t"
    by (auto simp: bindR_Inr_iff split: if_splits)
  have p: "(p, e) = dl_sym dl nm" "h_real u = h_real s" using real_dlsym_225_Inr [OF u(1)] by auto
  then have pe: "fst (dl_sym dl nm) = p" "snd (dl_sym dl nm) = e" by (metis fst_conv, metis snd_conv)
  from Cons.IH [OF rec] u(2) pe p(2) x show ?case
    by (cases "nm \<in> fst ` set nms") fastforce+
qed simp

text \<open>
  bootstrapping finds every function it needs or ends the process. If \<open>bootstrap_cuda\<close> returns, then the driver library
  was found and each required \<open>real_*\<close> pointer is what the real \<open>dlsym\<close> returned without an error.
\<close>

theorem bootstrap_resolves:
  assumes "bootstrap_cuda dl s = Inr t"
  shows "dl_cuda dl \<and> (\<forall>(nm, needed) \<in> set cuda_symbols.
    h_real t nm = fst (dl_sym dl nm) \<and> (needed \<longrightarrow> \<not> snd (dl_sym dl nm)))"
  using assms resolve_cuda_Inr [of dl cuda_symbols _ t]
  by (auto simp: bootstrap_cuda_def bindR_Inr_iff split: if_splits)

section \<open>A concrete interposer\<close>

definition ex_dl :: dlenv where
  "ex_dl = \<lparr>dl_nvml = False, dl_cuda = True, dl_dlvsym_225 = (1, False), dl_dlvsym_234 = (1, False), dl_sym = (\<lambda>_. (1, False))\<rparr>"

definition ex_hook :: "bool \<Rightarrow> sysret list \<Rightarrow> cuda_ret list \<Rightarrow> hook" where
  "ex_hook own as ds = \<lparr>h_app = ex_app own as ds, h_real = (\<lambda>_. 1), h_r_dlsym_225 = True, h_r_dlsym_234 = False,
     h_libnvshare_done = True, h_init_done = True, h_enable_single_oversub = False, h_got_max_mem_size = True,
     h_size_mem_allocatable = 1000, h_sum_allocated = 0, h_allocation_list = [], h_kern_since_sync = 0,
     h_mallocs = [True, True]\<rparr>"

theorem bootstrap_resolves_witness:
  "\<exists>t. bootstrap_cuda ex_dl (ex_hook False [] []) = Inr t \<and> (\<forall>(nm, needed) \<in> set cuda_symbols. h_real t nm = 1)"
proof -
  obtain t where t: "bootstrap_cuda ex_dl (ex_hook False [] []) = Inr t"
    by (simp add: bootstrap_cuda_def cuda_symbols_def real_dlsym_225_def ex_dl_def ex_hook_def)
  with bootstrap_resolves [OF t] show ?thesis by (auto simp: ex_dl_def)
qed

section \<open>GPU work waits for the lock\<close>

lemma continue_needs_lock:
  assumes "app_ok a" "\<not> a_own_lock a" "continue_with_lock a = Inr (fin, b)"
  shows "\<not> fin"
  using post_D [OF continue_with_lock_acts [OF assms(1)] assms(3)] assms(2) by simp

text \<open>The nine wrappers that submit work to the GPU, each with its arguments, and the call of the driver that each stands for.\<close>

datatype gpu_call =
    LaunchKernel "64 word" "32 word list" "64 word list" timespec timespec
  | Memcpy "64 word" "64 word" "64 word"
  | MemcpyAsync "64 word" "64 word" "64 word" "64 word"
  | MemcpyDtoH "64 word" "64 word" "64 word"
  | MemcpyDtoHAsync "64 word" "64 word" "64 word" "64 word"
  | MemcpyHtoD "64 word" "64 word" "64 word"
  | MemcpyHtoDAsync "64 word" "64 word" "64 word" "64 word"
  | MemcpyDtoD "64 word" "64 word" "64 word"
  | MemcpyDtoDAsync "64 word" "64 word" "64 word" "64 word"

fun call_wrapper :: "gpu_call \<Rightarrow> hook \<Rightarrow> (int option \<times> hook) res" where
  "call_wrapper (LaunchKernel f dims ptrs t0 t1) = cuLaunchKernel f dims ptrs t0 t1"
| "call_wrapper (Memcpy d s n) = cuMemcpy d s n"
| "call_wrapper (MemcpyAsync d s n q) = cuMemcpyAsync d s n q"
| "call_wrapper (MemcpyDtoH d s n) = cuMemcpyDtoH d s n"
| "call_wrapper (MemcpyDtoHAsync d s n q) = cuMemcpyDtoHAsync d s n q"
| "call_wrapper (MemcpyHtoD d s n) = cuMemcpyHtoD d s n"
| "call_wrapper (MemcpyHtoDAsync d s n q) = cuMemcpyHtoDAsync d s n q"
| "call_wrapper (MemcpyDtoD d s n) = cuMemcpyDtoD d s n"
| "call_wrapper (MemcpyDtoDAsync d s n q) = cuMemcpyDtoDAsync d s n q"

fun driver_call :: "gpu_call \<Rightarrow> cuda_call" where
  "driver_call (LaunchKernel f dims ptrs t0 t1) = Cu_LaunchKernel f dims ptrs"
| "driver_call (Memcpy d s n) = Cu_Memcpy ''cuMemcpy'' d s n None"
| "driver_call (MemcpyAsync d s n q) = Cu_Memcpy ''cuMemcpyAsync'' d s n (Some q)"
| "driver_call (MemcpyDtoH d s n) = Cu_Memcpy ''cuMemcpyDtoH_v2'' d s n None"
| "driver_call (MemcpyDtoHAsync d s n q) = Cu_Memcpy ''cuMemcpyDtoHAsync_v2'' d s n (Some q)"
| "driver_call (MemcpyHtoD d s n) = Cu_Memcpy ''cuMemcpyHtoD_v2'' d s n None"
| "driver_call (MemcpyHtoDAsync d s n q) = Cu_Memcpy ''cuMemcpyHtoDAsync_v2'' d s n (Some q)"
| "driver_call (MemcpyDtoD d s n) = Cu_Memcpy ''cuMemcpyDtoD_v2'' d s n None"
| "driver_call (MemcpyDtoDAsync d s n q) = Cu_Memcpy ''cuMemcpyDtoDAsync_v2'' d s n (Some q)"

text \<open>The GPU work an application has submitted, in order: the launches and copies among its calls of the driver.\<close>

fun is_work :: "cuda_call \<Rightarrow> bool" where
  "is_work (Cu_LaunchKernel f dims ptrs) = True"
| "is_work (Cu_Memcpy nm d s n q) = True"
| "is_work _ = False"

definition works :: "app \<Rightarrow> cuda_call list" where
  "works a = filter is_work (map fst (cu_calls (a_cuda a)))"

lemma driver_call_is_work [simp]: "is_work (driver_call c)"
  by (cases c) simp_all

text \<open>The symbol, and the part after the return of \<open>continue_with_lock\<close>.\<close>

fun call_symbol :: "gpu_call \<Rightarrow> string" where
  "call_symbol (LaunchKernel f dims ptrs t0 t1) = ''cuLaunchKernel''"
| "call_symbol (Memcpy d s n) = ''cuMemcpy''"
| "call_symbol (MemcpyAsync d s n q) = ''cuMemcpyAsync''"
| "call_symbol (MemcpyDtoH d s n) = ''cuMemcpyDtoH_v2''"
| "call_symbol (MemcpyDtoHAsync d s n q) = ''cuMemcpyDtoHAsync_v2''"
| "call_symbol (MemcpyHtoD d s n) = ''cuMemcpyHtoD_v2''"
| "call_symbol (MemcpyHtoDAsync d s n q) = ''cuMemcpyHtoDAsync_v2''"
| "call_symbol (MemcpyDtoD d s n) = ''cuMemcpyDtoD_v2''"
| "call_symbol (MemcpyDtoDAsync d s n q) = ''cuMemcpyDtoDAsync_v2''"

fun call_body :: "gpu_call \<Rightarrow> hook \<Rightarrow> (int \<times> hook) res" where
  "call_body (LaunchKernel f dims ptrs t0 t1) = launch_body f dims ptrs t0 t1"
| "call_body (Memcpy d s n) = copy_body H_cuMemcpy d s n None"
| "call_body (MemcpyAsync d s n q) = copy_body H_cuMemcpyAsync d s n (Some q)"
| "call_body (MemcpyDtoH d s n) = copy_body H_cuMemcpyDtoH d s n None"
| "call_body (MemcpyDtoHAsync d s n q) = copy_body H_cuMemcpyDtoHAsync d s n (Some q)"
| "call_body (MemcpyHtoD d s n) = copy_body H_cuMemcpyHtoD d s n None"
| "call_body (MemcpyHtoDAsync d s n q) = copy_body H_cuMemcpyHtoDAsync d s n (Some q)"
| "call_body (MemcpyDtoD d s n) = copy_body H_cuMemcpyDtoD d s n None"
| "call_body (MemcpyDtoDAsync d s n q) = copy_body H_cuMemcpyDtoDAsync d s n (Some q)"

lemma call_wrapper_eq: "call_wrapper c = guarded (call_symbol c) (call_body c)"
  by (cases c) (simp_all add: cuLaunchKernel_def cuMemcpy_def cuMemcpyAsync_def cuMemcpyDtoH_def cuMemcpyDtoHAsync_def
      cuMemcpyHtoD_def cuMemcpyHtoDAsync_def cuMemcpyDtoD_def cuMemcpyDtoDAsync_def)

text \<open>What the steps of a wrapper add to the work.\<close>

lemma cuda_call_works: "cuda_call c a = Inr (x, b) \<Longrightarrow> works b = works a @ (if is_work c then [c] else [])"
  by (auto simp: cuda_call_def cuda_sys_def works_def bindR_Inr_iff split: list.splits)

lemma check_error_works: "check_error e a = Inr b \<Longrightarrow> works b = works a"
  by (auto simp: check_error_def cuda_driver_check_error_def cuda_sys_def works_def bindR_Inr_iff split: if_splits list.splits)

lemma send_whole_works: "send_whole m a = Inr b \<Longrightarrow> works b = works a"
  by (auto simp: send_whole_def works_def bindR_Inr_iff split: if_splits)

lemma cwl_resume_works: "cwl_resume a = Inr (fin, b) \<Longrightarrow> works b = works a"
  by (auto simp: cwl_resume_def bindR_Inr_iff works_def split: if_splits dest!: send_whole_works)

lemma continue_works: "continue_with_lock a = Inr (fin, b) \<Longrightarrow> works b = works a"
  by (auto simp: continue_with_lock_def get_context_def bindR_Inr_iff Let_def works_def split: if_splits
      dest!: cwl_resume_works cuda_call_works check_error_works)

lemma hook_check_works: "hook_check e s = Inr t \<Longrightarrow> works (h_app t) = works (h_app s)"
  by (auto simp: hook_check_def bindR_Inr_iff dest: check_error_works)

lemma call_body_works:
  assumes "call_body c s = Inr (r, t)"
  shows "works (h_app t) = works (h_app s) @ [driver_call c]"
  using assms
  by (cases c) (auto simp: launch_body_def copy_body_def bindR_Inr_iff in_app_Inr Let_def works_def split: if_splits
      dest!: cuda_call_works hook_check_works)

text \<open>
  C11: GPU work waits for the lock. Each of the nine wrappers, \<open>cuLaunchKernel\<close> and the eight memory copies, submits its work to the driver exactly
  if the application owns the lock when \<open>continue_with_lock\<close> checks it, and then exactly that work, once. If the application does not own the
  lock, nothing is submitted, and the thread waits, with the lock asked for; a thread that is woken up is checked again in the same way. If the
  driver function was not found, the wrapper returns \<open>CUDA_ERROR_NOT_INITIALIZED\<close> and does nothing.
\<close>

theorem gpu_work_needs_lock:
  assumes "app_ok (h_app s)"
  shows "(\<forall>r t. call_wrapper c s = Inr (r, t) \<longrightarrow>
      (if h_real s (call_symbol c) = 0 then r = Some CUDA_ERROR_NOT_INITIALIZED \<and> t = s
       else if a_own_lock (h_app s) then r \<noteq> None \<and> works (h_app t) = works (h_app s) @ [driver_call c]
       else r = None \<and> works (h_app t) = works (h_app s) \<and> a_need_lock (h_app t)))
    \<and> (\<forall>r t. guarded_resume (call_body c) s = Inr (r, t) \<longrightarrow>
      (if a_own_lock (h_app s) then r \<noteq> None \<and> works (h_app t) = works (h_app s) @ [driver_call c]
       else r = None \<and> works (h_app t) = works (h_app s) \<and> a_need_lock (h_app t)))"
proof -
  have need: "a_need_lock b" if "acts lc_want (h_app s) b" "\<not> a_own_lock (h_app s)" for b
    using that by (auto simp: acts_def lc_want_def lc_abs_def split: if_splits)
  have cont: "fin = a_own_lock (h_app s) \<and> works b = works (h_app s) \<and> (\<not> fin \<longrightarrow> a_need_lock b)"
    if "continue_with_lock (h_app s) = Inr (fin, b)" for fin b
    using post_D [OF continue_with_lock_acts [OF assms] that] continue_works [OF that] need by auto
  have res: "fin = a_own_lock (h_app s) \<and> works b = works (h_app s) \<and> (\<not> fin \<longrightarrow> a_need_lock b)"
    if "cwl_resume (h_app s) = Inr (fin, b)" for fin b
    using post_D [OF cwl_resume_acts [OF assms] that] cwl_resume_works [OF that] need by auto
  have "if h_real s (call_symbol c) = 0 then r = Some CUDA_ERROR_NOT_INITIALIZED \<and> t = s
      else if a_own_lock (h_app s) then r \<noteq> None \<and> works (h_app t) = works (h_app s) @ [driver_call c]
      else r = None \<and> works (h_app t) = works (h_app s) \<and> a_need_lock (h_app t)" if "call_wrapper c s = Inr (r, t)" for r t
    using that
    by (auto simp: call_wrapper_eq guarded_def wrapper_enter_def bindR_Inr_iff in_app_Inr split: if_splits
        dest!: cont call_body_works)
  moreover have "if a_own_lock (h_app s) then r \<noteq> None \<and> works (h_app t) = works (h_app s) @ [driver_call c]
      else r = None \<and> works (h_app t) = works (h_app s) \<and> a_need_lock (h_app t)" if "guarded_resume (call_body c) s = Inr (r, t)" for r t
    using that
    by (auto simp: guarded_resume_def bindR_Inr_iff in_app_Inr split: if_splits dest!: res call_body_works)
  ultimately show ?thesis by blast
qed

lemma ex_wrappers:
  "\<exists>r t. call_wrapper (MemcpyHtoD 1 2 64) (ex_hook False [wrote_all] []) = Inr (r, t)"
  "\<exists>r t. call_wrapper (MemcpyHtoD 1 2 64) (ex_hook True [] [cu_ok]) = Inr (r, t)"
proof -
  have "\<exists>k. send_whole (a_req_lock_msg (ex_app False [wrote_all] [])) (ex_app False [wrote_all] []\<lparr>a_need_lock := True\<rparr>)
      = Inr (ex_app False [wrote_all] []\<lparr>a_need_lock := True\<rparr>\<lparr>a_kern := k\<rparr>)"
    by (rule send_whole_once) (simp_all add: ex_app_def)
  then show "\<exists>r t. call_wrapper (MemcpyHtoD 1 2 64) (ex_hook False [wrote_all] []) = Inr (r, t)"
    by (auto simp: call_wrapper_eq guarded_def wrapper_enter_def in_app_def continue_with_lock_def get_context_def cwl_resume_def
        ex_hook_def ex_app_def)
  show "\<exists>r t. call_wrapper (MemcpyHtoD 1 2 64) (ex_hook True [] [cu_ok]) = Inr (r, t)"
    by (simp add: call_wrapper_eq guarded_def wrapper_enter_def in_app_def continue_with_lock_def get_context_def cwl_resume_def
        copy_body_def cuda_defs hook_check_def cuda_sys_def ex_hook_def ex_app_def cu_ok_def CUDA_SUCCESS_def)
qed

theorem gpu_work_needs_lock_witness:
  "(\<exists>t. call_wrapper (MemcpyHtoD 1 2 64) (ex_hook False [wrote_all] []) = Inr (None, t) \<and> works (h_app t) = [])
   \<and> (\<exists>r t. call_wrapper (MemcpyHtoD 1 2 64) (ex_hook True [] [cu_ok]) = Inr (r, t)
       \<and> works (h_app t) = [Cu_Memcpy ''cuMemcpyHtoD_v2'' 1 2 64 None])"
proof -
  have ok: "app_ok (h_app (ex_hook own as ds))" for own as ds by (simp add: ex_hook_def)
  have w: "works (h_app (ex_hook own as ds)) = []" for own as ds by (simp add: works_def ex_hook_def ex_app_def)
  have st: "h_real (ex_hook own as ds) nm = 1" "a_own_lock (h_app (ex_hook own as ds)) = own" for own as ds nm
    by (simp_all add: ex_hook_def ex_app_def)
  obtain r t r' t' where "call_wrapper (MemcpyHtoD 1 2 64) (ex_hook False [wrote_all] []) = Inr (r, t)"
    "call_wrapper (MemcpyHtoD 1 2 64) (ex_hook True [] [cu_ok]) = Inr (r', t')" using ex_wrappers by blast
  with gpu_work_needs_lock [OF ok, of "MemcpyHtoD 1 2 64" False "[wrote_all]" "[]"]
    gpu_work_needs_lock [OF ok, of "MemcpyHtoD 1 2 64" True "[]" "[cu_ok]"] show ?thesis
    by (force simp: w st)
qed

section \<open>Memory accounting\<close>

definition total_bytes :: "cuda_mem_allocation list \<Rightarrow> nat" where
  "total_bytes as = (\<Sum>a \<leftarrow> as. unat (al_size a))"

definition accounted :: "hook \<Rightarrow> bool" where
  "accounted s \<longleftrightarrow> h_sum_allocated s = of_nat (total_bytes (h_allocation_list s))"

lemma total_bytes_simps [simp]:
  "total_bytes [] = 0" "total_bytes (a # as) = unat (al_size a) + total_bytes as"
  "total_bytes (as @ bs) = total_bytes as + total_bytes bs"
  by (simp_all add: total_bytes_def)

lemma remove_allocation_loop_eq:
  "remove_allocation_loop p as sm =
     (filter (\<lambda>a. al_ptr a \<noteq> p) as, sm - of_nat (total_bytes (filter (\<lambda>a. al_ptr a = p) as)))"
  by (induction as arbitrary: sm) (simp_all add: algebra_simps)

lemma total_bytes_partition:
  "total_bytes as = total_bytes (filter (\<lambda>a. al_ptr a = p) as) + total_bytes (filter (\<lambda>a. al_ptr a \<noteq> p) as)"
  by (induction as) auto

lemma remove_accounted: "accounted s \<Longrightarrow> accounted (remove_cuda_allocation p s)"
  using total_bytes_partition [of "h_allocation_list s" p]
  by (simp add: accounted_def remove_cuda_allocation_def remove_allocation_loop_eq)






text \<open>
  C26: a freed allocation is off the books. After \<open>cuMemFree\<close> has succeeded, no allocation at that address is listed, all
  others are, in their order, and the sum is again exactly that of the listed allocations;
  after a failure nothing has changed.
\<close>

theorem cuMemFree_accounts:
  assumes "accounted s" "cuMemFree p s = Inr (r, t)"
  shows "accounted t \<and> h_allocation_list t =
    (if r = CUDA_SUCCESS then filter (\<lambda>a. al_ptr a \<noteq> p) (h_allocation_list s) else h_allocation_list s)"
proof (cases "h_real s (CUDA_SYMBOL_STRING H_cuMemFree) = 0")
  case True
  with assms show ?thesis by (auto simp: cuMemFree_def CUDA_ERROR_NOT_INITIALIZED_def CUDA_SUCCESS_def)
next
  case False
  with assms(2) obtain d where t: "t = (if r = CUDA_SUCCESS then remove_cuda_allocation p (s\<lparr>h_app := (h_app s)\<lparr>a_cuda := d\<rparr>\<rparr>)
      else s\<lparr>h_app := (h_app s)\<lparr>a_cuda := d\<rparr>\<rparr>)"
    by (auto simp: cuMemFree_def bindR_Inr_iff dest!: hook_frames)
  have acc: "accounted (s\<lparr>h_app := (h_app s)\<lparr>a_cuda := d\<rparr>\<rparr>)" using assms(1) by (simp add: accounted_def)
  have "h_allocation_list (remove_cuda_allocation p (s\<lparr>h_app := (h_app s)\<lparr>a_cuda := d\<rparr>\<rparr>)) =
      filter (\<lambda>a. al_ptr a \<noteq> p) (h_allocation_list s)"
    by (simp add: remove_cuda_allocation_def remove_allocation_loop_eq)
  with t acc remove_accounted [OF acc, of p] show ?thesis by simp
qed

theorem cuMemFree_accounts_witness:
  "\<exists>t. cuMemFree 4096 ((ex_hook True [] [cu_ok])\<lparr>h_allocation_list := [\<lparr>al_ptr = 4096, al_size = 600\<rparr>], h_sum_allocated := 600\<rparr>)
     = Inr (CUDA_SUCCESS, t) \<and> h_allocation_list t = [] \<and> h_sum_allocated t = 0"
proof -
  let ?s = "(ex_hook True [] [cu_ok])\<lparr>h_allocation_list := [\<lparr>al_ptr = 4096, al_size = 600\<rparr>], h_sum_allocated := 600\<rparr>"
  have acc: "accounted ?s" by (simp add: accounted_def)
  obtain t where t: "cuMemFree 4096 ?s = Inr (CUDA_SUCCESS, t)"
    by (simp add: cuMemFree_def ex_hook_def in_app_def cuda_defs cuda_sys_def ex_app_def cu_ok_def CUDA_SUCCESS_def)
  with cuMemFree_accounts [OF acc t] show ?thesis by (auto simp: accounted_def)
qed

section \<open>Pending kernels\<close>

definition window_ok :: "hook \<Rightarrow> bool" where
  "window_ok s \<longleftrightarrow> 1 \<le> a_pending_kernel_window (h_app s) \<and> a_pending_kernel_window (h_app s) \<le> KERN_SYNC_WINDOW_MAX
     \<and> 0 \<le> h_kern_since_sync s \<and> h_kern_since_sync s < KERN_SYNC_WINDOW_MAX"

lemma next_window_bounds:
  "1 \<le> w \<Longrightarrow> w \<le> KERN_SYNC_WINDOW_MAX \<Longrightarrow> 1 \<le> next_window sec w \<and> next_window sec w \<le> KERN_SYNC_WINDOW_MAX"
  by (auto simp: next_window_def KERN_SYNC_WINDOW_MAX_def)

lemma launch_body_Inr:
  assumes "launch_body f dims ptrs t0 t1 s = Inr (r, t)"
  shows "if a_pending_kernel_window (h_app s) \<le> h_kern_since_sync s + 1
      then h_kern_since_sync t = 0 \<and> a_pending_kernel_window (h_app t) = next_window (tv_sec (timespecsub t1 t0)) (a_pending_kernel_window (h_app s))
      else h_kern_since_sync t = h_kern_since_sync s + 1 \<and> a_pending_kernel_window (h_app t) = a_pending_kernel_window (h_app s)"
proof -
  from assms obtain a v w where a: "in_app (cuda_call (Cu_LaunchKernel f dims ptrs)) s = Inr (a, v)"
    and w: "hook_check (cu_result a) v = Inr w"
    and rest: "(let s = w\<lparr>h_kern_since_sync := h_kern_since_sync w + 1\<rparr> in
       if a_pending_kernel_window (h_app s) \<le> h_kern_since_sync s then
         bindR (in_app (cuda_call Cu_CtxSynchronize) s) (\<lambda>(b, s).
         bindR (hook_check (cu_result b) s) (\<lambda>s.
           let w = next_window (tv_sec (timespecsub t1 t0)) (a_pending_kernel_window (h_app s)) in
           Inr (cu_result b, s\<lparr>h_app := (h_app s)\<lparr>a_pending_kernel_window := w\<rparr>, h_kern_since_sync := 0\<rparr>)))
       else Inr (cu_result a, s)) = Inr (r, t)"
    by (auto simp: launch_body_def bindR_Inr_iff)
  obtain d where d: "w = s\<lparr>h_app := (h_app s)\<lparr>a_cuda := d\<rparr>\<rparr>"
    using in_app_cuda_call [OF a] hook_check_Inr [OF w] by auto
  show ?thesis
    using rest d by (auto simp: Let_def bindR_Inr_iff split: if_splits dest!: hook_frames)
qed

text \<open>
  C27: the number of pending kernels is bounded. Through any launch the window stays between 1 and 2048, and fewer
  kernels are pending than the maximal window; a launch that fills the window ends with a
  synchronisation and an empty window, whose new size is 1, half or twice the old one, depending on how
  long the synchronisation took.
\<close>

theorem pending_kernels_bounded:
  assumes "window_ok s" "launch_body f dims ptrs t0 t1 s = Inr (r, t)"
  shows "window_ok t \<and> (if a_pending_kernel_window (h_app s) \<le> h_kern_since_sync s + 1
      then h_kern_since_sync t = 0 \<and> a_pending_kernel_window (h_app t) = next_window (tv_sec (timespecsub t1 t0)) (a_pending_kernel_window (h_app s))
      else h_kern_since_sync t = h_kern_since_sync s + 1 \<and> a_pending_kernel_window (h_app t) = a_pending_kernel_window (h_app s))"
proof -
  have w: "1 \<le> a_pending_kernel_window (h_app s)" "a_pending_kernel_window (h_app s) \<le> KERN_SYNC_WINDOW_MAX"
    using assms(1) by (simp_all add: window_ok_def)
  have "window_ok t"
    using launch_body_Inr [OF assms(2)] next_window_bounds [OF w, of "tv_sec (timespecsub t1 t0)"] assms(1)
    by (auto simp: window_ok_def KERN_SYNC_WINDOW_MAX_def split: if_splits)
  with launch_body_Inr [OF assms(2)] show ?thesis by simp
qed

theorem pending_kernels_bounded_witness:
  "\<exists>r t. launch_body 5 [] [] \<lparr>tv_sec = 1, tv_nsec = 0\<rparr> \<lparr>tv_sec = 1, tv_nsec = 0\<rparr> ((ex_hook True [] [cu_ok, cu_ok])\<lparr>h_kern_since_sync := 3\<rparr>) = Inr (r, t)
    \<and> window_ok t \<and> a_pending_kernel_window (h_app t) = 8"
proof -
  let ?s = "(ex_hook True [] [cu_ok, cu_ok])\<lparr>h_kern_since_sync := 3\<rparr>"
  have ok: "window_ok ?s" by (simp add: window_ok_def ex_hook_def ex_app_def KERN_SYNC_WINDOW_MAX_def)
  obtain r t where t: "launch_body 5 [] [] \<lparr>tv_sec = 1, tv_nsec = 0\<rparr> \<lparr>tv_sec = 1, tv_nsec = 0\<rparr> ?s = Inr (r, t)"
    by (simp add: launch_body_def ex_hook_def in_app_def cuda_defs hook_check_def cuda_sys_def ex_app_def cu_ok_def CUDA_SUCCESS_def Let_def)
  with pending_kernels_bounded [OF ok t] show ?thesis
    by (auto simp: ex_hook_def ex_app_def next_window_def timespecsub_def KERN_SYNC_DURATION_BIG_def
        KERN_SYNC_WINDOW_STEPDOWN_THRESH_def KERN_SYNC_WINDOW_MAX_def)
qed

text \<open>
  a failed launch can be reported as a success. When a launch fills the window, the result of the launch is overwritten by that
  of the synchronisation: here the driver refuses the launch with code 700, and \<open>cuLaunchKernel\<close> returns
  \<open>CUDA_SUCCESS\<close>.
\<close>

theorem launch_error_lost:
  "\<exists>t. cuLaunchKernel 5 [] [] \<lparr>tv_sec = 1, tv_nsec = 0\<rparr> \<lparr>tv_sec = 1, tv_nsec = 0\<rparr>
      ((ex_hook True [] [cu_ok\<lparr>cu_result := 700\<rparr>, cu_ok, cu_ok, cu_ok])\<lparr>h_kern_since_sync := 3\<rparr>) = Inr (Some CUDA_SUCCESS, t)
    \<and> (Cu_LaunchKernel 5 [] [], cu_ok\<lparr>cu_result := 700\<rparr>) \<in> set (cu_calls (a_cuda (h_app t)))"
  by (simp add: cuLaunchKernel_def guarded_def wrapper_enter_def continue_with_lock_def get_context_def cwl_resume_def
      launch_body_def ex_hook_def in_app_def cuda_defs hook_check_def cuda_sys_def ex_app_def cu_ok_def CUDA_SUCCESS_def Let_def)

text \<open>
  how much memory an application is told it has. If \<open>cuMemGetInfo\<close> succeeds on a device of at least 1536 MiB,
  the free memory it reports is the device's total less 1536 MiB; on a smaller device the subtraction wraps around, and the
  application is told that nearly \<open>2 ^ 64\<close> bytes are free.
\<close>

theorem meminfo_reserve:
  assumes "cuMemGetInfo s = Inr ((r, Some (fr, tot)), t)"
  shows "unat fr = (if 1536 * 2 ^ 20 \<le> unat tot then unat tot - 1536 * 2 ^ 20 else 2 ^ 64 + unat tot - 1536 * 2 ^ 20)"
proof -
  have fr: "fr = tot - 1610612736"
    using assms by (auto simp: cuMemGetInfo_def bindR_Inr_iff Let_def MEMINFO_RESERVE_MIB_def MiB_def split: if_splits)
  have "unat tot < 2 ^ 64" using unsigned_less [of tot] by simp
  then show ?thesis
    using fr by (simp add: unat_sub_if')
qed

theorem meminfo_reserve_witness:
  "\<exists>r fr t. cuMemGetInfo (ex_hook True [] [cu_ok\<lparr>cu_val2 := 2147483648\<rparr>]) = Inr ((r, Some (fr, 2147483648)), t)
    \<and> unat fr = 536870912"
proof -
  let ?s = "ex_hook True [] [cu_ok\<lparr>cu_val2 := 2147483648\<rparr>]"
  have "\<exists>r fr t. cuMemGetInfo ?s = Inr ((r, Some (fr, 2147483648)), t)"
    by (simp add: cuMemGetInfo_def ex_hook_def in_app_def cuda_defs hook_check_def cuda_sys_def ex_app_def cu_ok_def CUDA_SUCCESS_def Let_def)
  then obtain r fr t where t: "cuMemGetInfo ?s = Inr ((r, Some (fr, 2147483648)), t)" by blast
  with meminfo_reserve [OF t] show ?thesis by auto
qed

end
