(* ===== verification/Gate.thy ===== *)
theory Gate
  imports Hook_Props
begin

text \<open>
  One application with all its threads: any number of application threads inside the wrappers of \<open>src/src/hook.c\<close>, the
  client thread and the early-release thread of \<open>src/src/client.c\<close>, and the mutex \<open>global_mutex\<close> that they share. The
  wrappers of theory \<open>Hook\<close> run from the check of the lock to the call of the driver without
  interruption; here the two are separate steps, as they are in the code, where \<open>continue_with_lock\<close> has given up the
  mutex when it returns. What a thread does while it owns the mutex is one step, because every other access to
  these variables is made under the mutex too.
\<close>

section \<open>Threads\<close>

datatype thread = App_Thread nat | Client_Thread | Early_Thread

text \<open>
  Where an application thread is: outside of the wrappers; called, before \<open>pthread_mutex_lock\<close>; owning the mutex in
  \<open>continue_with_lock\<close>, at its start or after a return of \<open>pthread_cond_wait\<close> (\<open>True\<close>); waiting in
  \<open>pthread_cond_wait\<close>; past \<open>continue_with_lock\<close>, before the call of the driver.
\<close>

datatype place = Outside | Called gpu_call | Checking bool gpu_call | Waiting gpu_call | Past gpu_call

record proc =
  pr_hook :: hook
  pr_mutex :: "thread option"
  pr_place :: "nat \<Rightarrow> place"
  pr_in :: "message option"

abbreviation pr_app :: "proc \<Rightarrow> app" where
  "pr_app s \<equiv> h_app (pr_hook s)"

definition check_lock :: "bool \<Rightarrow> app \<Rightarrow> (bool \<times> app) res" where
  "check_lock woken = (if woken then cwl_resume else continue_with_lock)"

inductive proc_step :: "proc \<Rightarrow> proc \<Rightarrow> bool" where
  call: "pr_place s t = Outside \<Longrightarrow> h_real (pr_hook s) (call_symbol c) \<noteq> 0 \<Longrightarrow>
    proc_step s (s\<lparr>pr_place := (pr_place s)(t := Called c)\<rparr>)"
| lock: "pr_place s t = Called c \<Longrightarrow> pr_mutex s = None \<Longrightarrow>
    proc_step s (s\<lparr>pr_mutex := Some (App_Thread t), pr_place := (pr_place s)(t := Checking False c)\<rparr>)"
| pass: "pr_place s t = Checking woken c \<Longrightarrow> pr_mutex s = Some (App_Thread t) \<Longrightarrow> check_lock woken (pr_app s) = Inr (True, a) \<Longrightarrow>
    proc_step s (s\<lparr>pr_hook := (pr_hook s)\<lparr>h_app := a\<rparr>, pr_mutex := None, pr_place := (pr_place s)(t := Past c)\<rparr>)"
| wait: "pr_place s t = Checking woken c \<Longrightarrow> pr_mutex s = Some (App_Thread t) \<Longrightarrow> check_lock woken (pr_app s) = Inr (False, a) \<Longrightarrow>
    proc_step s (s\<lparr>pr_hook := (pr_hook s)\<lparr>h_app := a\<rparr>, pr_mutex := None, pr_place := (pr_place s)(t := Waiting c)\<rparr>)"
| wake: "pr_place s t = Waiting c \<Longrightarrow> pr_mutex s = None \<Longrightarrow>
    proc_step s (s\<lparr>pr_mutex := Some (App_Thread t), pr_place := (pr_place s)(t := Checking True c)\<rparr>)"
| submit: "pr_place s t = Past c \<Longrightarrow> call_body c (pr_hook s) = Inr (r, h) \<Longrightarrow>
    proc_step s (s\<lparr>pr_hook := h, pr_place := (pr_place s)(t := Outside)\<rparr>)"
| client_read: "pr_in s = None \<Longrightarrow> proc_step s (s\<lparr>pr_in := Some m\<rparr>)"
| client_lock: "pr_in s = Some m \<Longrightarrow> pr_mutex s = None \<Longrightarrow> proc_step s (s\<lparr>pr_mutex := Some Client_Thread\<rparr>)"
| client_handle: "pr_in s = Some m \<Longrightarrow> pr_mutex s = Some Client_Thread \<Longrightarrow> client_handle m (pr_app s) = Inr a \<Longrightarrow>
    proc_step s (s\<lparr>pr_hook := (pr_hook s)\<lparr>h_app := a\<rparr>, pr_mutex := None, pr_in := None\<rparr>)"
| early_lock: "pr_mutex s = None \<Longrightarrow> proc_step s (s\<lparr>pr_mutex := Some Early_Thread\<rparr>)"
| early_wake: "pr_mutex s = Some Early_Thread \<Longrightarrow> release_wake r t0 t1 n (pr_app s, e) = Inr (a, e') \<Longrightarrow>
    proc_step s (s\<lparr>pr_hook := (pr_hook s)\<lparr>h_app := a\<rparr>, pr_mutex := None\<rparr>)"

section \<open>The wrappers of theory Hook are runs without interference\<close>

text \<open>A wrapper that gets through, and one that waits.\<close>

lemma guarded_cases:
  assumes "call_wrapper c h = Inr (r, h')" "h_real h (call_symbol c) \<noteq> 0"
  shows "(\<exists>a n. continue_with_lock (h_app h) = Inr (True, a) \<and> call_body c (h\<lparr>h_app := a\<rparr>) = Inr (n, h') \<and> r = Some n)
    \<or> (\<exists>a. continue_with_lock (h_app h) = Inr (False, a) \<and> h' = h\<lparr>h_app := a\<rparr> \<and> r = None)"
  using assms by (auto simp: call_wrapper_eq guarded_def wrapper_enter_def bindR_Inr_iff in_app_Inr split: if_splits)

lemma wrapper_runs:
  assumes run: "call_wrapper c (pr_hook s) = Inr (r, h)" and "h_real (pr_hook s) (call_symbol c) \<noteq> 0"
    and s: "pr_place s t = Outside" "pr_mutex s = None"
  shows "proc_step\<^sup>*\<^sup>* s (s\<lparr>pr_hook := h, pr_mutex := None, pr_place := (pr_place s)(t := if r = None then Waiting c else Outside)\<rparr>)"
proof -
  let ?called = "s\<lparr>pr_place := (pr_place s)(t := Called c)\<rparr>"
  let ?checking = "s\<lparr>pr_mutex := Some (App_Thread t), pr_place := (pr_place s)(t := Checking False c)\<rparr>"
  have 1: "proc_step s ?called" by (rule call [OF s(1) assms(2)])
  have 2: "proc_step ?called ?checking" using lock [of ?called t c] s by simp
  from guarded_cases [OF assms(1,2)] show ?thesis
  proof (elim disjE exE conjE)
    fix a n assume a: "continue_with_lock (pr_app s) = Inr (True, a)" "call_body c ((pr_hook s)\<lparr>h_app := a\<rparr>) = Inr (n, h)" "r = Some n"
    let ?past = "s\<lparr>pr_hook := (pr_hook s)\<lparr>h_app := a\<rparr>, pr_mutex := None, pr_place := (pr_place s)(t := Past c)\<rparr>"
    have 3: "proc_step ?checking ?past" using pass [of ?checking t False c a] a(1) s(2) by (simp add: check_lock_def)
    have 4: "proc_step ?past (s\<lparr>pr_hook := h, pr_mutex := None, pr_place := (pr_place s)(t := Outside)\<rparr>)" using submit [of ?past t c n h] a(2) by (cases s) simp
    show ?thesis using converse_rtranclp_into_rtranclp [OF 1 converse_rtranclp_into_rtranclp [OF 2
          converse_rtranclp_into_rtranclp [OF 3 r_into_rtranclp [of proc_step, OF 4]]]] a(3) by simp
  next
    fix a assume a: "continue_with_lock (pr_app s) = Inr (False, a)" "h = (pr_hook s)\<lparr>h_app := a\<rparr>" "r = None"
    have 3: "proc_step ?checking (s\<lparr>pr_hook := h, pr_mutex := None, pr_place := (pr_place s)(t := Waiting c)\<rparr>)"
      using wait [of ?checking t False c a] a(1,2) s(2) by (simp add: check_lock_def)
    show ?thesis using converse_rtranclp_into_rtranclp [OF 1 converse_rtranclp_into_rtranclp [OF 2
          r_into_rtranclp [of proc_step, OF 3]]] a(3) by simp
  qed
qed

section \<open>What the mutex gives, and what it does not\<close>

text \<open>
  A thread gets past \<open>continue_with_lock\<close> only in a step in which the application owns the lock, and GPU work is submitted only by
  threads that are past it.
\<close>

lemma check_lock_acts:
  assumes "app_ok a" "check_lock woken a = Inr (fin, b)"
  shows "acts lc_want a b" "fin = a_own_lock a"
  using assms post_D [OF cwl_resume_acts [OF assms(1)]] post_D [OF continue_with_lock_acts [OF assms(1)]]
  by (fastforce simp: check_lock_def split: if_splits)+

lemma only_owner_passes:
  assumes "proc_step s s'" "app_ok (pr_app s)" "pr_place s' t = Past c" "pr_place s t \<noteq> Past c"
  shows "a_own_lock (pr_app s) \<and> pr_mutex s = Some (App_Thread t)"
  using assms by (cases rule: proc_step.cases) (auto dest: check_lock_acts(2) split: if_splits)

lemma works_upd [simp]:
  "works (a\<lparr>a_own_lock := x\<rparr>) = works a" "works (a\<lparr>a_did_work := x\<rparr>) = works a" "works (a\<lparr>a_need_lock := x\<rparr>) = works a"
  "works (a\<lparr>a_out_msg := m\<rparr>) = works a" "works (a\<lparr>a_pending_kernel_window := n\<rparr>) = works a" "works (a\<lparr>a_nvml_ok := x\<rparr>) = works a"
  by (simp_all add: works_def)

lemma sync_works:
  assumes "cuda_sync_context a = Inr b"
  shows "works b = works a"
proof -
  obtain x u v y w where "cuda_call (Cu_CtxSetCurrent (a_cuda_ctx a)) (a\<lparr>a_pending_kernel_window := 1\<rparr>) = Inr (x, u)"
    "check_error (cu_result x) u = Inr v" "cuda_call Cu_CtxSynchronize v = Inr (y, w)" "check_error (cu_result y) w = Inr b"
    using assms by (auto simp: cuda_sync_context_def bindR_Inr_iff)
  from cuda_call_works [OF this(1)] check_error_works [OF this(2)] cuda_call_works [OF this(3)] check_error_works [OF this(4)]
  show ?thesis by simp
qed

lemma gpu_busy_works:
  assumes "gpu_busy t0 t1 a = Inr (x, b)"
  shows "works b = works a"
proof (cases "a_nvml_ok a")
  case True
  with assms obtain y u where "cuda_call Nvml_DeviceGetUtilizationRates a = Inr (y, u)" "b = u \<or> b = u\<lparr>a_nvml_ok := False\<rparr>"
    by (auto simp: gpu_busy_def bindR_Inr_iff split: if_splits)
  with cuda_call_works [OF this(1)] show ?thesis by auto
next
  case False
  with assms show ?thesis using sync_works by (auto simp: gpu_busy_def bindR_Inr_iff)
qed

lemma release_wake_works: "release_wake r t0 t1 n (a, e) = Inr (b, e') \<Longrightarrow> works b = works a"
  by (auto simp: release_wake_def release_arm_def bindR_Inr_iff split: if_splits dest!: send_whole_works gpu_busy_works)

lemma client_handle_works:
  assumes "client_handle m a = Inr b"
  shows "works b = works a"
proof (cases "message_type_of (m_type m)")
  case None
  with assms show ?thesis by (simp add: client_handle_def)
next
  case (Some k)
  with assms show ?thesis
    by (cases k) (auto simp: client_handle_def bindR_Inr_iff Let_def works_def [of "_\<lparr>a_scheduler_on := _\<rparr>"] split: if_splits
        dest!: send_whole_works sync_works, simp_all add: works_def)
qed

text \<open>Nothing but a thread past \<open>continue_with_lock\<close> submits work, and then just its own.\<close>

lemma work_past_lock:
  assumes "proc_step s s'"
  shows "works (pr_app s') = works (pr_app s) \<or> (\<exists>t c. pr_place s t = Past c \<and> works (pr_app s') = works (pr_app s) @ [driver_call c])"
  using assms
proof (cases rule: proc_step.cases)
  case (pass t woken c a)
  then have "works a = works (pr_app s)" by (auto simp: check_lock_def split: if_splits dest!: cwl_resume_works continue_works)
  with pass show ?thesis by simp
next
  case (wait t woken c a)
  then have "works a = works (pr_app s)" by (auto simp: check_lock_def split: if_splits dest!: cwl_resume_works continue_works)
  with wait show ?thesis by simp
next
  case (submit t c r h)
  with call_body_works [OF submit(3)] show ?thesis by auto
qed (auto dest: client_handle_works release_wake_works)

section \<open>Property\<close>

text \<open>
  C40: the lock can be gone before the work is submitted. Let an application thread be at the start of a wrapper in an application that
  owns the lock, and let the client thread be waiting for a message. If the system calls and calls of the driver on the way succeed, the
  threads can run as follows: the thread passes \<open>continue_with_lock\<close> and gives up the mutex; a DROP_LOCK arrives,
  the client thread takes the mutex, synchronises the context and sends LOCK_RELEASED; and then the thread
  submits its work to the driver, with the application no longer the owner of the lock.
\<close>

theorem work_after_release:
  assumes s: "pr_place s t = Called c" "pr_mutex s = None" "pr_in s = None" "app_ok (pr_app s)" "a_own_lock (pr_app s)"
    and m: "message_type_of (m_type m) = Some DROP_LOCK"
    and run: "continue_with_lock (pr_app s) = Inr (fin, a)" "client_handle m a = Inr b" "call_body c ((pr_hook s)\<lparr>h_app := b\<rparr>) = Inr (r, h)"
  shows "\<exists>u v. proc_step\<^sup>*\<^sup>* s u \<and> \<not> a_own_lock (pr_app u) \<and> wrote [wire (pr_app s) Rel] (pr_app s) (pr_app u) \<and> works (pr_app u) = works (pr_app s)
    \<and> proc_step u v \<and> works (pr_app v) = works (pr_app s) @ [driver_call c]"
proof -
  have a: "acts lc_want (pr_app s) a" "fin" using post_D [OF continue_with_lock_acts [OF s(4)] run(1)] s(5) by auto
  then have ok: "app_ok a" "a_own_lock a" using s(5) by (auto simp: acts_def lc_want_def lc_abs_def)
  have b: "acts (lc_recv (Some DROP_LOCK)) a b" using post_D [OF client_handle_acts [OF ok(1)] run(2)] m by simp
  let ?checking = "s\<lparr>pr_mutex := Some (App_Thread t), pr_place := (pr_place s)(t := Checking False c)\<rparr>"
  let ?past = "s\<lparr>pr_hook := (pr_hook s)\<lparr>h_app := a\<rparr>, pr_mutex := None, pr_place := (pr_place s)(t := Past c)\<rparr>"
  let ?told = "?past\<lparr>pr_in := Some m\<rparr>"
  let ?inside = "?told\<lparr>pr_mutex := Some Client_Thread\<rparr>"
  let ?u = "?inside\<lparr>pr_hook := (pr_hook ?inside)\<lparr>h_app := b\<rparr>, pr_mutex := None, pr_in := None\<rparr>"
  let ?v = "?u\<lparr>pr_hook := h, pr_place := (pr_place ?u)(t := Outside)\<rparr>"
  have 1: "proc_step s ?checking" by (rule lock [OF s(1,2)])
  have 2: "proc_step ?checking ?past" using pass [of ?checking t False c a] run(1) a(2) by (simp add: check_lock_def)
  have 3: "proc_step ?past ?told" by (rule client_read) (simp add: s(3))
  have 4: "proc_step ?told ?inside" by (rule client_lock) simp_all
  have 5: "proc_step ?inside ?u" using client_handle [of ?inside m b] run(2) by simp
  have 6: "proc_step ?u ?v" by (rule submit [where r = r and c = c]) (simp_all add: run(3))
  have "proc_step\<^sup>*\<^sup>* s ?u" using 1 2 3 4 5 by (meson rtranclp.rtrancl_into_rtrancl rtranclp.rtrancl_refl)
  moreover have "\<not> a_own_lock b" "wrote [wire (pr_app s) Rel] (pr_app s) b"
    using a b ok(2) s(5) by (auto simp: acts_def lc_want_def lc_recv_def lc_abs_def wrote_def wire_def)
  moreover have "works b = works (pr_app s)" using continue_works [OF run(1)] client_handle_works [OF run(2)] by simp
  moreover have "works (h_app h) = works b @ [driver_call c]" using call_body_works [OF run(3)] by simp
  ultimately show ?thesis using 6 by (intro exI [of _ ?u] exI [of _ ?v]) simp
qed

text \<open>A copy is let through, the lock is given back, and the copy reaches the driver.\<close>

lemma ex_gate_handles:
  "\<exists>b r h. client_handle (zero_message\<lparr>m_type := message_type_code DROP_LOCK\<rparr>)
      (ex_app True [wrote_all] [cu_ok, cu_ok, cu_ok]\<lparr>a_did_work := True, a_early_signals := 1\<rparr>) = Inr b
    \<and> call_body (Memcpy 1 2 64) (ex_hook True [wrote_all] [cu_ok, cu_ok, cu_ok]\<lparr>h_app := b\<rparr>) = Inr (r, h)"
proof -
  let ?a = "ex_app True [wrote_all] [cu_ok, cu_ok, cu_ok]\<lparr>a_did_work := True, a_early_signals := 1\<rparr>"
  let ?b = "?a\<lparr>a_own_lock := False, a_pending_kernel_window := 1,
      a_cuda := \<lparr>cu_answers = [cu_ok], cu_calls = [(Cu_CtxSetCurrent 0, cu_ok), (Cu_CtxSynchronize, cu_ok)]\<rparr>,
      a_out_msg := (a_out_msg ?a)\<lparr>m_type := message_type_code LOCK_RELEASED\<rparr>\<rparr>"
  obtain k where k: "send_whole (a_out_msg ?b) ?b = Inr (?b\<lparr>a_kern := k\<rparr>)"
    using send_whole_once [of "a_out_msg ?b" ?b "[]"] by (auto simp: ex_app_def)
  then have "client_handle (zero_message\<lparr>m_type := message_type_code DROP_LOCK\<rparr>) ?a = Inr (?b\<lparr>a_kern := k\<rparr>)"
    by (simp add: client_handle_def message_type_of_def cuda_sync_context_def cuda_defs cuda_sys_def ex_app_def
        cu_ok_def CUDA_SUCCESS_def Let_def)
  moreover have "\<exists>r h. call_body (Memcpy 1 2 64) (ex_hook True [wrote_all] [cu_ok, cu_ok, cu_ok]\<lparr>h_app := ?b\<lparr>a_kern := k\<rparr>\<rparr>) = Inr (r, h)"
    by (simp add: copy_body_def in_app_def cuda_defs hook_check_def cuda_sys_def cu_ok_def CUDA_SUCCESS_def)
  ultimately show ?thesis by blast
qed

definition ex_proc :: proc where
  "ex_proc = \<lparr>pr_hook = ex_hook True [wrote_all] [cu_ok, cu_ok, cu_ok], pr_mutex = None, pr_place = (\<lambda>_. Called (Memcpy 1 2 64)), pr_in = None\<rparr>"

theorem work_after_release_witness:
  "\<exists>u v. proc_step\<^sup>*\<^sup>* ex_proc u \<and> \<not> a_own_lock (pr_app u) \<and> sent_to 7 (a_kern (pr_app u)) = encode_message (wire (pr_app ex_proc) Rel)
    \<and> proc_step u v \<and> works (pr_app v) = [Cu_Memcpy ''cuMemcpy'' 1 2 64 None]"
proof -
  obtain b r h where run: "client_handle (zero_message\<lparr>m_type := message_type_code DROP_LOCK\<rparr>)
      (ex_app True [wrote_all] [cu_ok, cu_ok, cu_ok]\<lparr>a_did_work := True, a_early_signals := 1\<rparr>) = Inr b"
    "call_body (Memcpy 1 2 64) (ex_hook True [wrote_all] [cu_ok, cu_ok, cu_ok]\<lparr>h_app := b\<rparr>) = Inr (r, h)" using ex_gate_handles by blast
  have s: "pr_place ex_proc 0 = Called (Memcpy 1 2 64)" "pr_mutex ex_proc = None" "pr_in ex_proc = None" "app_ok (pr_app ex_proc)"
    "a_own_lock (pr_app ex_proc)" "pr_hook ex_proc = ex_hook True [wrote_all] [cu_ok, cu_ok, cu_ok]"
    by (simp_all add: ex_proc_def, simp_all add: ex_hook_def, simp add: ex_app_def)
  have m: "message_type_of (m_type (zero_message\<lparr>m_type := message_type_code DROP_LOCK\<rparr>)) = Some DROP_LOCK"
    by (simp add: message_type_of_Some del: message_type_code.simps)
  have "continue_with_lock (pr_app ex_proc)
      = Inr (True, ex_app True [wrote_all] [cu_ok, cu_ok, cu_ok]\<lparr>a_did_work := True, a_early_signals := 1\<rparr>)"
    by (simp add: s(6) continue_with_lock_def get_context_def cwl_resume_def ex_hook_def ex_app_def)
  from work_after_release [OF s(1-5) m this run(1), unfolded s(6), OF run(2)] obtain u v where
    uv: "proc_step\<^sup>*\<^sup>* ex_proc u" "\<not> a_own_lock (pr_app u)" "wrote [wire (pr_app ex_proc) Rel] (pr_app ex_proc) (pr_app u)"
      "proc_step u v" "works (pr_app v) = works (pr_app ex_proc) @ [driver_call (Memcpy 1 2 64)]"
    by (auto simp: s(6))
  have "works (pr_app ex_proc) = []" "sent_to 7 (a_kern (pr_app u)) = encode_message (wire (pr_app ex_proc) Rel)"
    using uv(3) by (simp_all add: works_def wrote_def s(6) ex_hook_def ex_app_def sent_to_def)
  with uv show ?thesis by auto
qed

end
