(* ===== verification/Snprintf.thy ===== *)
theory Snprintf
  imports Cstd
begin

text \<open>
  The replacement of \<open>vsnprintf\<close> in \<open>src/src/snprintf.c\<close>, which \<open>src/src/xopt.c\<close> includes and formats its error
  messages with, in the configuration made there: \<open>UINTMAX_T\<close> and \<open>INTMAX_T\<close> are the 64-bit \<open>unsigned long\<close> and \<open>long\<close>,
  \<open>LDOUBLE\<close> is \<open>double\<close>, and no locale functions are used.

  An output buffer is the list of its bytes and the number of characters produced so far. A store or a load outside a
  buffer is the fault \<open>OutOfBounds\<close>, a \<open>va_arg\<close> that does not fit the arguments is \<open>BadVarArg\<close>. Integer and opaque pointer
  arguments are slots of 64 bits, of which \<open>va_arg(args, int)\<close> reads the lower half, as on x86-64. A \<open>char *\<close> argument is the memory
  from its address to the end of the object. The arithmetic of \<open>double\<close> is a parameter, a record of its operations.
\<close>

section \<open>Output\<close>

record outbuf =
  o_str :: "char list"
  o_len :: nat

definition OUTCHAR :: "nat \<Rightarrow> char \<Rightarrow> outbuf \<Rightarrow> outbuf res" where
  "OUTCHAR siz ch o' =
     (if o_len o' + 1 < siz
      then (if o_len o' < length (o_str o')
            then Inr (o'\<lparr>o_str := (o_str o')[o_len o' := ch], o_len := o_len o' + 1\<rparr>)
            else Inl OutOfBounds)
      else Inr (o'\<lparr>o_len := o_len o' + 1\<rparr>))"

text \<open>A loop that puts out one character after the other.\<close>

fun OUTCHARS :: "nat \<Rightarrow> char list \<Rightarrow> outbuf \<Rightarrow> outbuf res" where
  "OUTCHARS siz [] o' = Inr o'"
| "OUTCHARS siz (c # cs) o' = bindR (OUTCHAR siz c o') (OUTCHARS siz cs)"

definition spaces :: "int \<Rightarrow> char list" where
  "spaces n = replicate (nat n) (CHR '' '')"

definition zeros :: "int \<Rightarrow> char list" where
  "zeros n = replicate (nat n) (CHR ''0'')"

section \<open>Flags and modifiers\<close>

record pflags =
  F_MINUS :: bool
  F_PLUS :: bool
  F_SPACE :: bool
  F_NUM :: bool
  F_ZERO :: bool
  F_QUOTE :: bool
  F_UP :: bool
  F_UNSIGNED :: bool
  F_TYPE_G :: bool
  F_TYPE_E :: bool

definition no_flags :: pflags where
  "no_flags = \<lparr>F_MINUS = False, F_PLUS = False, F_SPACE = False, F_NUM = False, F_ZERO = False, F_QUOTE = False,
     F_UP = False, F_UNSIGNED = False, F_TYPE_G = False, F_TYPE_E = False\<rparr>"

datatype cmod = C_NONE | C_CHAR | C_SHORT | C_LONG | C_LLONG | C_LDOUBLE | C_SIZE | C_PTRDIFF | C_INTMAX

datatype pstate = S_DEFAULT | S_FLAGS | S_WIDTH | S_DOT | S_PRECISION | S_MOD | S_CONV

definition INT_MAX :: int where
  "INT_MAX = 2 ^ 31 - 1"

section \<open>Strings\<close>

fun strln_loop :: "char list \<Rightarrow> bool \<Rightarrow> int \<Rightarrow> int \<Rightarrow> int res" where
  "strln_loop [] noprecision precision strln = Inl OutOfBounds"
| "strln_loop (c # mem) noprecision precision strln =
     (if c \<noteq> NUL \<and> (noprecision \<or> strln < precision)
      then (if strln = INT_MAX then Inl SignedOverflow else strln_loop mem noprecision precision (strln + 1))
      else Inr strln)"

fun copy_loop :: "nat \<Rightarrow> char list \<Rightarrow> bool \<Rightarrow> int \<Rightarrow> outbuf \<Rightarrow> outbuf res" where
  "copy_loop siz [] noprecision precision o' = Inl OutOfBounds"
| "copy_loop siz (c # mem) noprecision precision o' =
     (if c \<noteq> NUL \<and> (noprecision \<or> 0 < precision)
      then bindR (OUTCHAR siz c o') (copy_loop siz mem noprecision (precision - 1))
      else Inr o')"

definition fmtstr :: "nat \<Rightarrow> char list option \<Rightarrow> int \<Rightarrow> int \<Rightarrow> pflags \<Rightarrow> outbuf \<Rightarrow> outbuf res" where
  "fmtstr siz val width precision flags o' =
     (let noprecision = (precision = - 1);
          mem = (case val of None \<Rightarrow> ''(null)'' @ [NUL] | Some m \<Rightarrow> m)
      in bindR (strln_loop mem noprecision precision 0) (\<lambda>strln.
           let padlen = (if width - strln < 0 then 0 else width - strln);
               padlen = (if F_MINUS flags then - padlen else padlen)
           in bindR (OUTCHARS siz (spaces padlen) o') (\<lambda>o'.
              bindR (copy_loop siz mem noprecision precision o') (\<lambda>o'.
              OUTCHARS siz (spaces (- padlen)) o'))))"

section \<open>Integers\<close>

definition MAX_CONVERT_LENGTH :: nat where
  "MAX_CONVERT_LENGTH = 43"

definition hexdigit :: "bool \<Rightarrow> nat \<Rightarrow> char" where
  "hexdigit caps d = (if caps then ''0123456789ABCDEF'' else ''0123456789abcdef'') ! d"

text \<open>\<open>convert\<close>: the digits, the lowest first; \<open>siz\<close> is the room left in the buffer.\<close>

function convert :: "nat \<Rightarrow> nat \<Rightarrow> nat \<Rightarrow> bool \<Rightarrow> char list" where
  "convert val siz base caps =
     hexdigit caps (val mod base)
     # (if val div base \<noteq> 0 \<and> 1 < siz then convert (val div base) (siz - 1) base caps else [])"
  by pat_completeness auto
termination
  by (relation "measure (\<lambda>(val, siz, base, caps). siz)") auto

declare convert.simps [simp del]

definition getnumsep :: "int \<Rightarrow> int" where
  "getnumsep digits = (digits - (if digits mod 3 = 0 then 1 else 0)) div 3"

definition printsep :: "nat \<Rightarrow> outbuf \<Rightarrow> outbuf res" where
  "printsep siz o' = OUTCHAR siz (CHR '','') o'"

text \<open>The loop over the digits, from position \<open>pos - 1\<close> down to 0, with separators between groups of three.\<close>

fun digits_loop :: "nat \<Rightarrow> bool \<Rightarrow> char list \<Rightarrow> nat \<Rightarrow> outbuf \<Rightarrow> outbuf res" where
  "digits_loop siz seps buf 0 o' = Inr o'"
| "digits_loop siz seps buf (Suc pos) o' =
     bindR (OUTCHAR siz (buf ! pos) o') (\<lambda>o'.
     bindR (if seps \<and> 0 < pos \<and> pos mod 3 = 0 then printsep siz o' else Inr o') (\<lambda>o'.
     digits_loop siz seps buf pos o'))"

definition fmtint :: "nat \<Rightarrow> 64 word \<Rightarrow> nat \<Rightarrow> int \<Rightarrow> int \<Rightarrow> pflags \<Rightarrow> outbuf \<Rightarrow> outbuf res" where
  "fmtint siz val base width precision flags o' =
     (if \<not> F_UNSIGNED flags \<and> sint val = - (2 ^ 63) then Inl SignedOverflow
      else
        let noprecision = (precision = - 1);
            uvalue = (if F_UNSIGNED flags \<or> 0 \<le> sint val then unat val else unat (- val));
            sign = (if F_UNSIGNED flags then [] else if sint val < 0 then ''-'' else if F_PLUS flags then ''+''
                    else if F_SPACE flags then '' '' else []);
            iconvert = convert uvalue MAX_CONVERT_LENGTH base (F_UP flags);
            pos = int (length iconvert);
            alt = (F_NUM flags \<and> uvalue \<noteq> 0);
            precision = (if alt \<and> base = 8 \<and> precision \<le> pos then pos + 1 else precision);
            hexprefix = (if alt \<and> base = 16 then (if F_UP flags then ''0X'' else ''0x'') else []);
            separators = (if F_QUOTE flags then getnumsep pos else 0);
            zpadlen = precision - pos - separators;
            spadlen = width - separators - max precision pos - (if sign \<noteq> [] then 1 else 0) - (if hexprefix \<noteq> [] then 2 else 0)
        in if spadlen < - (2 ^ 31) then Inl SignedOverflow else
        let zpadlen = (if zpadlen < 0 then 0 else zpadlen);
            spadlen = (if spadlen < 0 then 0 else spadlen);
            tozero = (\<not> F_MINUS flags \<and> F_ZERO flags \<and> noprecision);
            zpadlen = (if tozero then zpadlen + spadlen else zpadlen);
            spadlen = (if F_MINUS flags then - spadlen else if tozero then 0 else spadlen)
        in bindR (OUTCHARS siz (spaces spadlen) o') (\<lambda>o'.
           bindR (OUTCHARS siz sign o') (\<lambda>o'.
           bindR (OUTCHARS siz hexprefix o') (\<lambda>o'.
           bindR (OUTCHARS siz (zeros zpadlen) o') (\<lambda>o'.
           bindR (digits_loop siz (0 < separators) iconvert (length iconvert) o') (\<lambda>o'.
           OUTCHARS siz (spaces (- spadlen)) o'))))))"

section \<open>Floating point\<close>

record 'f fops =
  f_zero :: 'f
  f_half :: 'f
  f_one :: 'f
  f_ten :: 'f
  f_lt :: "'f \<Rightarrow> 'f \<Rightarrow> bool"
  f_le :: "'f \<Rightarrow> 'f \<Rightarrow> bool"
  f_eq :: "'f \<Rightarrow> 'f \<Rightarrow> bool"
  f_neg :: "'f \<Rightarrow> 'f"
  f_add :: "'f \<Rightarrow> 'f \<Rightarrow> 'f"
  f_sub :: "'f \<Rightarrow> 'f \<Rightarrow> 'f"
  f_mul :: "'f \<Rightarrow> 'f \<Rightarrow> 'f"
  f_div :: "'f \<Rightarrow> 'f \<Rightarrow> 'f"
  f_of_u64 :: "64 word \<Rightarrow> 'f"
  f_to_u64 :: "'f \<Rightarrow> 64 word"

definition ISNAN :: "'f fops \<Rightarrow> 'f \<Rightarrow> bool" where
  "ISNAN fo x \<longleftrightarrow> \<not> f_eq fo x x"

definition ISINF :: "'f fops \<Rightarrow> 'f \<Rightarrow> bool" where
  "ISINF fo x \<longleftrightarrow> \<not> f_eq fo x (f_zero fo) \<and> f_eq fo (f_add fo x x) x"

definition fabs :: "'f fops \<Rightarrow> 'f \<Rightarrow> 'f" where
  "fabs fo x = (if f_le fo (f_zero fo) x then x else f_neg fo x)"

text \<open>The two loops of \<open>getexponent\<close>; the first argument counts the decrements or increments left before the bound 99.\<close>

fun exponent_down :: "nat \<Rightarrow> 'f fops \<Rightarrow> 'f \<Rightarrow> int \<Rightarrow> int \<times> 'f" where
  "exponent_down fuel fo tmp exponent =
     (if f_lt fo tmp (f_one fo) \<and> f_lt fo (f_zero fo) tmp
      then (case fuel of 0 \<Rightarrow> (exponent - 1, tmp)
            | Suc n \<Rightarrow> exponent_down n fo (f_mul fo tmp (f_ten fo)) (exponent - 1))
      else (exponent, tmp))"

fun exponent_up :: "nat \<Rightarrow> 'f fops \<Rightarrow> 'f \<Rightarrow> int \<Rightarrow> int" where
  "exponent_up fuel fo tmp exponent =
     (if f_le fo (f_ten fo) tmp
      then (case fuel of 0 \<Rightarrow> exponent + 1
            | Suc n \<Rightarrow> exponent_up n fo (f_div fo tmp (f_ten fo)) (exponent + 1))
      else exponent)"

declare exponent_down.simps [simp del] exponent_up.simps [simp del]

definition getexponent :: "'f fops \<Rightarrow> 'f \<Rightarrow> int" where
  "getexponent fo val =
     (let (exponent, tmp) = exponent_down 98 fo (fabs fo val) 0
      in exponent_up (nat (98 - exponent)) fo tmp exponent)"

definition UINTMAX_MAX :: "64 word" where
  "UINTMAX_MAX = - 1"

definition castu :: "'f fops \<Rightarrow> 'f \<Rightarrow> 64 word" where
  "castu fo val =
     (if UINTMAX_MAX \<le> f_to_u64 fo val then UINTMAX_MAX
      else let result = f_to_u64 fo val in if f_le fo (f_of_u64 fo result) val then result else result - 1)"

definition myround :: "'f fops \<Rightarrow> 'f \<Rightarrow> 64 word" where
  "myround fo val =
     (let intpart = castu fo val in
      if f_lt fo (f_sub fo val (f_of_u64 fo intpart)) (f_half fo) then intpart else intpart + 1)"

definition mypow10 :: "'f fops \<Rightarrow> int \<Rightarrow> 'f" where
  "mypow10 fo exponent =
     ((\<lambda>r. f_div fo r (f_ten fo)) ^^ nat (- exponent)) (((\<lambda>r. f_mul fo r (f_ten fo)) ^^ nat exponent) (f_one fo))"

record fparts =
  p_intpart :: "64 word"
  p_fracpart :: "64 word"
  p_exponent :: int
  p_precision :: int
  p_estyle :: bool

text \<open>From the label \<open>again\<close> to the rounding; \<open>None\<close> when the integer part does not fit.\<close>

definition fmtflt_split :: "'f fops \<Rightarrow> 'f \<Rightarrow> bool \<Rightarrow> int \<Rightarrow> int \<Rightarrow> fparts option" where
  "fmtflt_split fo fvalue estyle exponent precision =
     (let precision = (if 19 < precision then 19 else precision);
          ufvalue = (if estyle then f_div fo (fabs fo fvalue) (mypow10 fo exponent) else fabs fo fvalue);
          intpart = castu fo ufvalue
      in if intpart = UINTMAX_MAX then None
         else
           let mask = f_to_u64 fo (mypow10 fo precision);
               fracpart = myround fo (f_mul fo (f_of_u64 fo mask) (f_sub fo ufvalue (f_of_u64 fo intpart)))
           in if mask \<le> fracpart
              then (if estyle \<and> intpart + 1 = 10
                    then Some \<lparr>p_intpart = 1, p_fracpart = 0, p_exponent = exponent + 1, p_precision = precision, p_estyle = estyle\<rparr>
                    else Some \<lparr>p_intpart = intpart + 1, p_fracpart = 0, p_exponent = exponent, p_precision = precision, p_estyle = estyle\<rparr>)
              else Some \<lparr>p_intpart = intpart, p_fracpart = fracpart, p_exponent = exponent, p_precision = precision, p_estyle = estyle\<rparr>)"

text \<open>The jump back to \<open>again\<close>, taken at most once, for \<open>%g\<close> with a small exponent.\<close>

definition fmtflt_parts :: "'f fops \<Rightarrow> 'f \<Rightarrow> int \<Rightarrow> pflags \<Rightarrow> fparts option" where
  "fmtflt_parts fo fvalue precision flags =
     (let estyle = (F_TYPE_E flags \<or> F_TYPE_G flags);
          precision = (if F_TYPE_G flags then precision - 1 else precision);
          exponent = (if estyle then getexponent fo fvalue else 0)
      in case fmtflt_split fo fvalue estyle exponent precision of
           None \<Rightarrow> None
         | Some p \<Rightarrow>
             if F_TYPE_G flags \<and> estyle \<and> p_exponent p < p_precision p + 1 \<and> - 4 \<le> p_exponent p
             then fmtflt_split fo fvalue False (p_exponent p) (p_precision p - p_exponent p)
             else Some p)"

text \<open>The exponent in reverse, as it is kept in \<open>econvert\<close>.\<close>

definition fmtflt_exponent :: "fparts \<Rightarrow> pflags \<Rightarrow> char list" where
  "fmtflt_exponent p flags =
     (if p_estyle p
      then let digits = convert (nat \<bar>p_exponent p\<bar>) 2 10 False in
           digits @ (if length digits = 1 then ''0'' else []) @ (if p_exponent p < 0 then ''-'' else ''+'')
             @ (if F_UP flags then ''E'' else ''e'')
      else [])"

definition fmtflt_emit :: "nat \<Rightarrow> fparts \<Rightarrow> char list \<Rightarrow> int \<Rightarrow> pflags \<Rightarrow> outbuf \<Rightarrow> outbuf res" where
  "fmtflt_emit siz p sign width flags o' =
     (let econvert = fmtflt_exponent p flags;
          iconvert = convert (unat (p_intpart p)) MAX_CONVERT_LENGTH 10 False;
          fconvert = (if p_fracpart p \<noteq> 0 then convert (unat (p_fracpart p)) MAX_CONVERT_LENGTH 10 False else []);
          fpos = int (length fconvert);
          omitzeros = (F_TYPE_G flags \<and> \<not> F_NUM flags);
          omitcount = (if omitzeros
                       then (if 0 < fpos then int (length (takeWhile (\<lambda>c. c = CHR ''0'') fconvert)) else p_precision p)
                       else 0);
          leadfraczeros = (if omitzeros \<and> fpos = 0 then 0 else p_precision p - fpos);
          precision = p_precision p - omitcount;
          emitpoint = (0 < precision \<or> F_NUM flags);
          separators = (if F_QUOTE flags then getnumsep (int (length iconvert)) else 0);
          padlen = width - int (length iconvert) - int (length econvert) - precision - separators - (if emitpoint then 1 else 0)
                   - (if sign \<noteq> [] then 1 else 0);
          padlen = (if padlen < 0 then 0 else padlen);
          tozero = (\<not> F_MINUS flags \<and> F_ZERO flags \<and> 0 < padlen);
          head = (if tozero then sign @ zeros padlen else []);
          sign = (if tozero then [] else sign);
          padlen = (if F_MINUS flags then - padlen else if tozero then 0 else padlen)
      in bindR (OUTCHARS siz head o') (\<lambda>o'.
         bindR (OUTCHARS siz (spaces padlen) o') (\<lambda>o'.
         bindR (OUTCHARS siz sign o') (\<lambda>o'.
         bindR (digits_loop siz (0 < separators) iconvert (length iconvert) o') (\<lambda>o'.
         bindR (OUTCHARS siz (if emitpoint then ''.'' else []) o') (\<lambda>o'.
         bindR (OUTCHARS siz (zeros leadfraczeros) o') (\<lambda>o'.
         bindR (OUTCHARS siz (rev (drop (nat omitcount) fconvert)) o') (\<lambda>o'.
         bindR (OUTCHARS siz (rev econvert) o') (\<lambda>o'.
         OUTCHARS siz (spaces (- padlen)) o')))))))))"

text \<open>
  \<open>fmtflt\<close>: the result tells whether \<open>*overflow\<close> has been set. For \<open>nan\<close> and \<open>inf\<close> the unterminated array \<open>iconvert\<close> is
  passed on with its length as precision; the byte behind is read and does not matter.
\<close>

definition fmtflt :: "'f fops \<Rightarrow> nat \<Rightarrow> 'f \<Rightarrow> int \<Rightarrow> int \<Rightarrow> pflags \<Rightarrow> outbuf \<Rightarrow> (bool \<times> outbuf) res" where
  "fmtflt fo siz fvalue width precision flags o' =
     (let precision = (if precision = - 1 then 6 else precision);
          sign = (if f_lt fo fvalue (f_zero fo) then ''-'' else if F_PLUS flags then ''+'' else if F_SPACE flags then '' '' else []);
          infnan = (if ISNAN fo fvalue then (if F_UP flags then ''NAN'' else ''nan'')
                    else if ISINF fo fvalue then (if F_UP flags then ''INF'' else ''inf'') else [])
      in if infnan \<noteq> []
         then bindR (fmtstr siz (Some (sign @ infnan @ [NUL])) width (int (length (sign @ infnan))) flags o') (\<lambda>o'. Inr (False, o'))
         else case fmtflt_parts fo fvalue precision flags of
                None \<Rightarrow> Inr (True, o')
              | Some p \<Rightarrow> bindR (fmtflt_emit siz p sign width flags o') (\<lambda>o'. Inr (False, o')))"

section \<open>Arguments\<close>

datatype 'f arg = AInt "64 word" | AStr "char list option" | AFlt 'f

fun va_int :: "'f arg list \<Rightarrow> (64 word \<times> 'f arg list) res" where
  "va_int (AInt w # args) = Inr (w, args)"
| "va_int _ = Inl BadVarArg"

fun va_str :: "'f arg list \<Rightarrow> (char list option \<times> 'f arg list) res" where
  "va_str (AStr p # args) = Inr (p, args)"
| "va_str _ = Inl BadVarArg"

fun va_flt :: "'f arg list \<Rightarrow> ('f \<times> 'f arg list) res" where
  "va_flt (AFlt x # args) = Inr (x, args)"
| "va_flt _ = Inl BadVarArg"

text \<open>\<open>va_arg(args, int)\<close>, and the values that \<open>%d\<close> and \<open>%u\<close> read, widened to \<open>INTMAX_T\<close>.\<close>

definition int_of_slot :: "64 word \<Rightarrow> int" where
  "int_of_slot w = sint (ucast w :: 32 word)"

fun signed_value :: "cmod \<Rightarrow> 64 word \<Rightarrow> 64 word" where
  "signed_value C_CHAR w = scast (ucast w :: 8 word)"
| "signed_value C_SHORT w = scast (ucast w :: 16 word)"
| "signed_value C_NONE w = scast (ucast w :: 32 word)"
| "signed_value C_LDOUBLE w = scast (ucast w :: 32 word)"
| "signed_value _ w = w"

fun unsigned_value :: "cmod \<Rightarrow> 64 word \<Rightarrow> 64 word" where
  "unsigned_value C_CHAR w = ucast (ucast w :: 8 word)"
| "unsigned_value C_SHORT w = ucast (ucast w :: 16 word)"
| "unsigned_value C_NONE w = ucast (ucast w :: 32 word)"
| "unsigned_value C_LDOUBLE w = ucast (ucast w :: 32 word)"
| "unsigned_value _ w = w"

section \<open>The format\<close>

text \<open>
  The local variables of \<open>rpl_vsnprintf\<close>. \<open>v_fmt\<close> is the rest of the format with \<open>ch\<close> at its head, so that \<open>ch = *format++\<close> is \<open>tl\<close>
  and the empty list is the NUL. \<open>v_stores\<close> logs what \<open>%n\<close> stores: address, size, value.
\<close>

record 'f vst =
  v_fmt :: "char list"
  v_args :: "'f arg list"
  v_out :: outbuf
  v_overflow :: bool
  v_cflags :: cmod
  v_flags :: pflags
  v_width :: int
  v_precision :: int
  v_state :: pstate
  v_stores :: "(64 word \<times> cmod \<times> nat) list"

definition ISDIGIT :: "char \<Rightarrow> bool" where
  "ISDIGIT ch \<longleftrightarrow> 48 \<le> (of_char ch :: nat) \<and> (of_char ch :: nat) \<le> 57"

definition CHARTOINT :: "char \<Rightarrow> int" where
  "CHARTOINT ch = of_char ch - 48"

definition advance :: "'f vst \<Rightarrow> 'f vst" where
  "advance v = v\<lparr>v_fmt := tl (v_fmt v)\<rparr>"

definition step_default :: "nat \<Rightarrow> 'f vst \<Rightarrow> 'f vst res" where
  "step_default siz v =
     (if hd (v_fmt v) = CHR ''%'' then Inr (advance (v\<lparr>v_state := S_FLAGS\<rparr>))
      else bindR (OUTCHAR siz (hd (v_fmt v)) (v_out v)) (\<lambda>o'. Inr (advance (v\<lparr>v_out := o'\<rparr>))))"

definition step_flags :: "'f vst \<Rightarrow> 'f vst" where
  "step_flags v =
     (let ch = hd (v_fmt v); fl = v_flags v in
      if ch = CHR ''-'' then advance (v\<lparr>v_flags := fl\<lparr>F_MINUS := True\<rparr>\<rparr>)
      else if ch = CHR ''+'' then advance (v\<lparr>v_flags := fl\<lparr>F_PLUS := True\<rparr>\<rparr>)
      else if ch = CHR '' '' then advance (v\<lparr>v_flags := fl\<lparr>F_SPACE := True\<rparr>\<rparr>)
      else if ch = CHR ''#'' then advance (v\<lparr>v_flags := fl\<lparr>F_NUM := True\<rparr>\<rparr>)
      else if ch = CHR ''0'' then advance (v\<lparr>v_flags := fl\<lparr>F_ZERO := True\<rparr>\<rparr>)
      else if ch = CHR 0x27 then advance (v\<lparr>v_flags := fl\<lparr>F_QUOTE := True\<rparr>\<rparr>)
      else v\<lparr>v_state := S_WIDTH\<rparr>)"

definition step_width :: "'f vst \<Rightarrow> 'f vst res" where
  "step_width v =
     (let ch = hd (v_fmt v) in
      if ISDIGIT ch then
        (if (INT_MAX - CHARTOINT ch) div 10 < v_width v then Inr (v\<lparr>v_overflow := True\<rparr>)
         else Inr (advance (v\<lparr>v_width := 10 * v_width v + CHARTOINT ch\<rparr>)))
      else if ch = CHR ''*'' then
        bindR (va_int (v_args v)) (\<lambda>(w, args).
          let width = int_of_slot w in
          if width = - (2 ^ 31) then Inl SignedOverflow
          else if width < 0
          then Inr (advance (v\<lparr>v_args := args, v_flags := (v_flags v)\<lparr>F_MINUS := True\<rparr>, v_width := - width, v_state := S_DOT\<rparr>))
          else Inr (advance (v\<lparr>v_args := args, v_width := width, v_state := S_DOT\<rparr>)))
      else Inr (v\<lparr>v_state := S_DOT\<rparr>))"

definition step_dot :: "'f vst \<Rightarrow> 'f vst" where
  "step_dot v =
     (if hd (v_fmt v) = CHR ''.'' then advance (v\<lparr>v_state := S_PRECISION\<rparr>) else v\<lparr>v_state := S_MOD\<rparr>)"

definition step_precision :: "'f vst \<Rightarrow> 'f vst res" where
  "step_precision v =
     (let ch = hd (v_fmt v); precision = (if v_precision v = - 1 then 0 else v_precision v) in
      if ISDIGIT ch then
        (if (INT_MAX - CHARTOINT ch) div 10 < precision then Inr (v\<lparr>v_precision := precision, v_overflow := True\<rparr>)
         else Inr (advance (v\<lparr>v_precision := 10 * precision + CHARTOINT ch\<rparr>)))
      else if ch = CHR ''*'' then
        bindR (va_int (v_args v)) (\<lambda>(w, args).
          Inr (advance (v\<lparr>v_args := args, v_precision := (if int_of_slot w < 0 then - 1 else int_of_slot w), v_state := S_MOD\<rparr>)))
      else Inr (v\<lparr>v_precision := precision, v_state := S_MOD\<rparr>))"

text \<open>One modifier character, or two of the same kind.\<close>

definition step_mod :: "'f vst \<Rightarrow> 'f vst" where
  "step_mod v =
     (let ch = hd (v_fmt v); rest = tl (v_fmt v); c = v\<lparr>v_state := S_CONV\<rparr> in
      if ch = CHR ''h'' then
        (if rest \<noteq> [] \<and> hd rest = CHR ''h'' then c\<lparr>v_fmt := tl rest, v_cflags := C_CHAR\<rparr> else c\<lparr>v_fmt := rest, v_cflags := C_SHORT\<rparr>)
      else if ch = CHR ''l'' then
        (if rest \<noteq> [] \<and> hd rest = CHR ''l'' then c\<lparr>v_fmt := tl rest, v_cflags := C_LLONG\<rparr> else c\<lparr>v_fmt := rest, v_cflags := C_LONG\<rparr>)
      else if ch = CHR ''L'' then c\<lparr>v_fmt := rest, v_cflags := C_LDOUBLE\<rparr>
      else if ch = CHR ''j'' then c\<lparr>v_fmt := rest, v_cflags := C_INTMAX\<rparr>
      else if ch = CHR ''t'' then c\<lparr>v_fmt := rest, v_cflags := C_PTRDIFF\<rparr>
      else if ch = CHR ''z'' then c\<lparr>v_fmt := rest, v_cflags := C_SIZE\<rparr>
      else c)"

text \<open>The conversions: the arguments left, the output, the stores, and whether a number was too large.\<close>

type_synonym 'f conv_res = "('f arg list \<times> outbuf \<times> (64 word \<times> cmod \<times> nat) list \<times> bool) res"

definition conv_int :: "nat \<Rightarrow> nat \<Rightarrow> pflags \<Rightarrow> (64 word \<Rightarrow> 64 word) \<Rightarrow> 'f vst \<Rightarrow> 'f conv_res" where
  "conv_int siz base flags widen v =
     bindR (va_int (v_args v)) (\<lambda>(w, args).
     bindR (fmtint siz (widen w) base (v_width v) (v_precision v) flags (v_out v)) (\<lambda>o'.
       Inr (args, o', v_stores v, False)))"

definition conv_flt :: "'f fops \<Rightarrow> nat \<Rightarrow> pflags \<Rightarrow> int \<Rightarrow> 'f vst \<Rightarrow> 'f conv_res" where
  "conv_flt fo siz flags precision v =
     bindR (va_flt (v_args v)) (\<lambda>(x, args).
     bindR (fmtflt fo siz x (v_width v) precision flags (v_out v)) (\<lambda>(overflow, o').
       Inr (args, o', v_stores v, overflow)))"

definition conv_ptr :: "nat \<Rightarrow> 'f vst \<Rightarrow> 'f conv_res" where
  "conv_ptr siz v =
     bindR (va_int (v_args v)) (\<lambda>(w, args).
     bindR (if w = 0 then fmtstr siz (Some (''(nil)'' @ [NUL])) (v_width v) (- 1) (v_flags v) (v_out v)
            else fmtint siz w 16 (v_width v) (v_precision v) ((v_flags v)\<lparr>F_NUM := True, F_UNSIGNED := True\<rparr>) (v_out v)) (\<lambda>o'.
       Inr (args, o', v_stores v, False)))"

text \<open>\<open>%n\<close>: the number of characters so far is stored through a pointer to the integer type of the modifier.\<close>

definition conv_n :: "'f vst \<Rightarrow> 'f conv_res" where
  "conv_n v = bindR (va_int (v_args v)) (\<lambda>(w, args). Inr (args, v_out v, v_stores v @ [(w, v_cflags v, o_len (v_out v))], False))"

definition conversion :: "'f fops \<Rightarrow> nat \<Rightarrow> char \<Rightarrow> 'f vst \<Rightarrow> 'f conv_res" where
  "conversion fo siz ch v =
     (let fl = v_flags v; up = fl\<lparr>F_UP := True\<rparr>; un = fl\<lparr>F_UNSIGNED := True\<rparr>; val = unsigned_value (v_cflags v) in
      if ch = CHR ''d'' \<or> ch = CHR ''i'' then conv_int siz 10 fl (signed_value (v_cflags v)) v
      else if ch = CHR ''X'' then conv_int siz 16 (up\<lparr>F_UNSIGNED := True\<rparr>) val v
      else if ch = CHR ''x'' then conv_int siz 16 un val v
      else if ch = CHR ''o'' then conv_int siz 8 un val v
      else if ch = CHR ''u'' then conv_int siz 10 un val v
      else if ch = CHR ''A'' \<or> ch = CHR ''F'' then conv_flt fo siz up (v_precision v) v
      else if ch = CHR ''a'' \<or> ch = CHR ''f'' then conv_flt fo siz fl (v_precision v) v
      else if ch = CHR ''E'' then conv_flt fo siz (up\<lparr>F_TYPE_E := True\<rparr>) (v_precision v) v
      else if ch = CHR ''e'' then conv_flt fo siz (fl\<lparr>F_TYPE_E := True\<rparr>) (v_precision v) v
      else if ch = CHR ''G'' then conv_flt fo siz (up\<lparr>F_TYPE_G := True\<rparr>) (if v_precision v = 0 then 1 else v_precision v) v
      else if ch = CHR ''g'' then conv_flt fo siz (fl\<lparr>F_TYPE_G := True\<rparr>) (if v_precision v = 0 then 1 else v_precision v) v
      else if ch = CHR ''c'' then
        bindR (va_int (v_args v)) (\<lambda>(w, args).
        bindR (OUTCHAR siz (char_of (unat w mod 256)) (v_out v)) (\<lambda>o'. Inr (args, o', v_stores v, False)))
      else if ch = CHR ''s'' then
        bindR (va_str (v_args v)) (\<lambda>(p, args).
        bindR (fmtstr siz p (v_width v) (v_precision v) fl (v_out v)) (\<lambda>o'. Inr (args, o', v_stores v, False)))
      else if ch = CHR ''p'' then conv_ptr siz v
      else if ch = CHR ''n'' then conv_n v
      else if ch = CHR ''%'' then
        bindR (OUTCHAR siz ch (v_out v)) (\<lambda>o'. Inr (v_args v, o', v_stores v, False))
      else Inr (v_args v, v_out v, v_stores v, False))"

definition step_conv :: "'f fops \<Rightarrow> nat \<Rightarrow> 'f vst \<Rightarrow> 'f vst res" where
  "step_conv fo siz v =
     bindR (conversion fo siz (hd (v_fmt v)) v) (\<lambda>(args, o', stores, overflow).
       if overflow then Inr (v\<lparr>v_args := args, v_out := o', v_stores := stores, v_overflow := True\<rparr>)
       else Inr (advance (v\<lparr>v_args := args, v_out := o', v_stores := stores, v_state := S_DEFAULT, v_cflags := C_NONE,
              v_flags := no_flags, v_width := 0, v_precision := - 1\<rparr>)))"

fun vsn_step :: "'f fops \<Rightarrow> nat \<Rightarrow> 'f vst \<Rightarrow> 'f vst res" where
  "vsn_step fo siz v =
     (case v_state v of
        S_DEFAULT \<Rightarrow> step_default siz v
      | S_FLAGS \<Rightarrow> Inr (step_flags v)
      | S_WIDTH \<Rightarrow> step_width v
      | S_DOT \<Rightarrow> Inr (step_dot v)
      | S_PRECISION \<Rightarrow> step_precision v
      | S_MOD \<Rightarrow> Inr (step_mod v)
      | S_CONV \<Rightarrow> step_conv fo siz v)"

declare vsn_step.simps [simp del]

fun phase_rank :: "pstate \<Rightarrow> nat" where
  "phase_rank S_DEFAULT = 0"
| "phase_rank S_CONV = 1"
| "phase_rank S_MOD = 2"
| "phase_rank S_PRECISION = 3"
| "phase_rank S_DOT = 4"
| "phase_rank S_WIDTH = 5"
| "phase_rank S_FLAGS = 6"

text \<open>Every step reads a character, or goes on to a later state of the same conversion, or ends the loop.\<close>

definition vsn_measure :: "'f vst \<Rightarrow> nat" where
  "vsn_measure v = (if v_overflow v then 0 else 7 * length (v_fmt v) + phase_rank (v_state v))"

lemma advance_simps [simp]:
  "v_fmt (advance v) = tl (v_fmt v)" "v_state (advance v) = v_state v" "v_overflow (advance v) = v_overflow v"
  "v_out (advance v) = v_out v" "v_args (advance v) = v_args v" "v_stores (advance v) = v_stores v"
  by (simp_all add: advance_def)

lemma vsn_step_measure:
  assumes "vsn_step fo siz v = Inr v'" "v_fmt v \<noteq> []" "\<not> v_overflow v"
  shows "vsn_measure v' < vsn_measure v"
proof -
  obtain ch rest where fmt: "v_fmt v = ch # rest" using assms(2) by (cases "v_fmt v") auto
  show ?thesis
  proof (cases "v_state v")
    case S_DEFAULT
    with assms fmt show ?thesis by (auto simp: vsn_step.simps step_default_def vsn_measure_def bindR_Inr_iff split: if_splits)
  next
    case S_FLAGS
    with assms fmt show ?thesis by (auto simp: vsn_step.simps step_flags_def vsn_measure_def Let_def split: if_splits)
  next
    case S_WIDTH
    with assms fmt show ?thesis
      by (auto simp: vsn_step.simps step_width_def vsn_measure_def Let_def bindR_Inr_iff split: if_splits prod.splits)
  next
    case S_DOT
    with assms fmt show ?thesis by (auto simp: vsn_step.simps step_dot_def vsn_measure_def split: if_splits)
  next
    case S_PRECISION
    with assms fmt show ?thesis
      by (auto simp: vsn_step.simps step_precision_def vsn_measure_def Let_def bindR_Inr_iff split: if_splits prod.splits)
  next
    case S_MOD
    with assms fmt show ?thesis
      by (cases rest) (auto simp: vsn_step.simps step_mod_def vsn_measure_def Let_def split: if_splits)
  next
    case S_CONV
    with assms fmt show ?thesis
      by (auto simp: vsn_step.simps step_conv_def vsn_measure_def bindR_Inr_iff split: if_splits prod.splits)
  qed
qed

function vsn_loop :: "'f fops \<Rightarrow> nat \<Rightarrow> 'f vst \<Rightarrow> 'f vst res" where
  "vsn_loop fo siz v =
     (if v_fmt v = [] \<or> v_overflow v then Inr v else bindR (vsn_step fo siz v) (vsn_loop fo siz))"
  by pat_completeness auto
termination
  by (relation "measure (\<lambda>(fo, siz, v). vsn_measure v)") (auto dest: vsn_step_measure)

declare vsn_loop.simps [simp del]

definition EOVERFLOW :: int where "EOVERFLOW = 75"
definition ERANGE :: int where "ERANGE = 34"

text \<open>What a call leaves behind: return value, errno if it is set, buffer, and the stores through \<open>%n\<close>.\<close>

record vsn_result =
  r_ret :: int
  r_errno :: "int option"
  r_str :: "char list"
  r_stores :: "(64 word \<times> cmod \<times> nat) list"

definition vsn_start :: "char list \<Rightarrow> 'f arg list \<Rightarrow> outbuf \<Rightarrow> 'f vst" where
  "vsn_start format args o' =
     \<lparr>v_fmt = cstr format, v_args = args, v_out = o', v_overflow = False, v_cflags = C_NONE, v_flags = no_flags,
      v_width = 0, v_precision = - 1, v_state = S_DEFAULT, v_stores = []\<rparr>"

definition vsn_finish :: "nat \<Rightarrow> 'f vst \<Rightarrow> vsn_result res" where
  "vsn_finish siz v =
     (let len = o_len (v_out v); str = o_str (v_out v); end = (if len < siz then len else siz - 1) in
      if 0 < siz \<and> length str \<le> end then Inl OutOfBounds
      else Inr \<lparr>r_ret = (if v_overflow v \<or> INT_MAX \<le> int len then - 1 else int len),
                r_errno = (if v_overflow v then Some EOVERFLOW else if INT_MAX \<le> int len then Some ERANGE else None),
                r_str = (if 0 < siz then str[end := NUL] else str), r_stores = v_stores v\<rparr>)"

definition rpl_vsnprintf :: "'f fops \<Rightarrow> char list option \<Rightarrow> nat \<Rightarrow> char list \<Rightarrow> 'f arg list \<Rightarrow> vsn_result res" where
  "rpl_vsnprintf fo str siz format args =
     (let siz = (if str = None then 0 else siz);
          o' = \<lparr>o_str = (case str of None \<Rightarrow> [] | Some s \<Rightarrow> s), o_len = 0\<rparr>
      in bindR (vsn_loop fo siz (vsn_start format args o')) (vsn_finish siz))"

text \<open>
  \<open>rpl_vasprintf\<close>: the result and the new buffer. Which function the name \<open>vsnprintf\<close> stands for depends on the configuration (the one of
  the C library in \<open>src/src/xopt.c\<close>, \<open>rpl_vsnprintf\<close> in the test), so it is an argument. \<open>fresh n\<close> is
  what \<open>malloc\<close> returns for \<open>n\<close> bytes, \<open>None\<close> being NULL.
\<close>

type_synonym 'f vsnprintf_fn = "char list option \<Rightarrow> nat \<Rightarrow> char list \<Rightarrow> 'f arg list \<Rightarrow> vsn_result res"

definition rpl_vasprintf :: "'f vsnprintf_fn \<Rightarrow> (nat \<Rightarrow> char list option) \<Rightarrow> char list \<Rightarrow> 'f arg list \<Rightarrow> (int \<times> char list option) res" where
  "rpl_vasprintf vsnprintf fresh format args =
     bindR (vsnprintf None 0 format args) (\<lambda>r.
       if r_ret r < 0 then Inr (- 1, None)
       else case fresh (nat (r_ret r + 1)) of
              None \<Rightarrow> Inr (- 1, None)
            | Some mem \<Rightarrow> bindR (vsnprintf (Some mem) (nat (r_ret r + 1)) format args) (\<lambda>r2. Inr (r_ret r2, Some (r_str r2))))"

definition rpl_snprintf :: "'f vsnprintf_fn \<Rightarrow> char list option \<Rightarrow> nat \<Rightarrow> char list \<Rightarrow> 'f arg list \<Rightarrow> (int \<times> char list) res" where
  "rpl_snprintf vsnprintf str siz format args = bindR (vsnprintf str siz format args) (\<lambda>r. Inr (r_ret r, r_str r))"

definition rpl_asprintf :: "'f vsnprintf_fn \<Rightarrow> (nat \<Rightarrow> char list option) \<Rightarrow> char list \<Rightarrow> 'f arg list \<Rightarrow> (int \<times> char list option) res" where
  "rpl_asprintf vsnprintf fresh format args = rpl_vasprintf vsnprintf fresh format args"

text \<open>Arithmetic for formats that convert no floating-point number.\<close>

definition no_float :: "unit fops" where
  "no_float = \<lparr>f_zero = (), f_half = (), f_one = (), f_ten = (), f_lt = (\<lambda>_ _. False), f_le = (\<lambda>_ _. True), f_eq = (\<lambda>_ _. True),
     f_neg = id, f_add = (\<lambda>_ _. ()), f_sub = (\<lambda>_ _. ()), f_mul = (\<lambda>_ _. ()), f_div = (\<lambda>_ _. ()),
     f_of_u64 = (\<lambda>_. ()), f_to_u64 = (\<lambda>_. 0)\<rparr>"

end
