(* ===== verification/Xopt.thy ===== *)
theory Xopt
  imports Snprintf
begin

text \<open>
  The option parser of the command line tool, \<open>src/src/xopt.c\<close>. An argument vector is a list of strings. The caller's data structure
  is a store from offsets to values. \<open>longjmp\<close> out of the parser with a message in \<open>err\<close> is the left
  side of a sum, with the caller's data as they are then; the message is formatted by the replacement of \<open>vsnprintf\<close>. A callback of an option is any function
  of the value and the data. Memory allocation succeeds here; theory \<open>Xopt_Alloc\<close> has the parser with its allocations. \<open>strtod\<close> is a parameter, of which only the
  number of characters it consumes matters. The warning about an option of several types, on the error stream, is left out.
\<close>

section \<open>Options\<close>

datatype xval = VBool bool | VStr string | VInt int | VLong int | VReal string

type_synonym xstore = "nat \<Rightarrow> xval option"
datatype xerr = XErr string xstore | XFault fault

type_synonym 'a xres = "xerr + 'a"

text \<open>The type bits of an option; \<open>XOPT_TYPE_MIXED\<close> stands for none or several of them, the flag says whether that of \<open>bool\<close> is among them.\<close>

datatype xtype = XOPT_TYPE_STRING | XOPT_TYPE_INT | XOPT_TYPE_LONG | XOPT_TYPE_FLOAT | XOPT_TYPE_DOUBLE | XOPT_TYPE_BOOL | XOPT_TYPE_MIXED bool

fun bool_bit :: "xtype \<Rightarrow> bool" where
  "bool_bit XOPT_TYPE_BOOL = True"
| "bool_bit (XOPT_TYPE_MIXED b) = b"
| "bool_bit _ = False"

text \<open>A callback gets the value, whether the option is in its long form, and the data; it may report an error.\<close>

type_synonym xcallback = "string option \<Rightarrow> bool \<Rightarrow> xstore \<Rightarrow> xstore xres"

record xopt_option =
  longArg :: "string option"
  shortArg :: char
  x_offset :: nat
  x_callback :: "xcallback option"
  x_type :: xtype
  x_optional :: bool
  x_required :: bool
  argDescrip :: "string option"
  descrip :: "string option"

record xopt_flags =
  KEEPFIRST :: bool
  POSIXMEHARDER :: bool
  NOCONDENSE :: bool
  SLOPPYSHORTS :: bool
  STRICT :: bool

definition bindX :: "'a xres \<Rightarrow> ('a \<Rightarrow> 'b xres) \<Rightarrow> 'b xres" where
  "bindX m f = (case m of Inl e \<Rightarrow> Inl e | Inr x \<Rightarrow> f x)"

lemma bindX_simps [simp]: "bindX (Inl e) f = Inl e" "bindX (Inr x) f = f x"
  by (simp_all add: bindX_def)

lemma bindX_Inr_iff: "bindX m f = Inr y \<longleftrightarrow> (\<exists>x. m = Inr x \<and> f x = Inr y)"
  by (cases m) simp_all

lemma bindX_cong [fundef_cong]:
  assumes "m = m'" and "\<And>x. m' = Inr x \<Longrightarrow> f x = f' x"
  shows "bindX m f = bindX m' f'"
  using assms by (cases m') simp_all

section \<open>Error messages\<close>

definition ERRBUF_SIZE :: nat where
  "ERRBUF_SIZE = 1024 * 4"

text \<open>
  The message is formatted into the static buffer, of which the caller gets the address. None of the formats converts a floating-point number.
\<close>

definition xopt_set_err :: "xstore \<Rightarrow> string \<Rightarrow> unit arg list \<Rightarrow> xerr" where
  "xopt_set_err data fmt args =
     (case rpl_vsnprintf no_float (Some (replicate ERRBUF_SIZE NUL)) ERRBUF_SIZE fmt args of
        Inl f \<Rightarrow> XFault f
      | Inr r \<Rightarrow> XErr (cstr (r_str r)) data)"

text \<open>Arguments: a string, a string that may be NULL, a \<open>char\<close> promoted to \<open>int\<close>.\<close>

definition a_str :: "string \<Rightarrow> unit arg" where
  "a_str s = AStr (Some (s @ [NUL]))"

definition a_opt :: "string option \<Rightarrow> unit arg" where
  "a_opt p = AStr (map_option (\<lambda>s. s @ [NUL]) p)"

definition a_chr :: "char \<Rightarrow> unit arg" where
  "a_chr c = AInt (scast (of_char c :: 8 word))"

section \<open>Setting values\<close>

text \<open>\<open>strtol\<close> with base 0: as \<open>strtoll\<close>, both being 64 bits wide.\<close>

text \<open>The value is stored before it is known whether the whole argument is a number.\<close>

definition xopt_default_callback :: "(string \<Rightarrow> nat) \<Rightarrow> string option \<Rightarrow> xopt_option \<Rightarrow> bool \<Rightarrow> xstore \<Rightarrow> xstore xres" where
  "xopt_default_callback strtod val opt isLong data =
     (if (val = None \<or> val = Some []) \<and> \<not> bool_bit (x_type opt) then Inr data
      else
        let v = (case val of None \<Rightarrow> [] | Some v \<Rightarrow> v);
            number = (\<lambda>x parsed. let data = data(x_offset opt \<mapsto> x) in
              if parsed < length v
              then Inl (if isLong then xopt_set_err data ''value isn't a valid number: --%s=%s'' [a_opt (longArg opt), a_str v]
                        else xopt_set_err data ''value isn't a valid number: -%c %s'' [a_chr (shortArg opt), a_str v])
              else Inr data)
        in case x_type opt of
             XOPT_TYPE_BOOL \<Rightarrow> Inr (data(x_offset opt \<mapsto> VBool True))
           | XOPT_TYPE_STRING \<Rightarrow> Inr (data(x_offset opt \<mapsto> VStr v))
           | XOPT_TYPE_INT \<Rightarrow> number (VInt (to_int32 (strto_value (strtoll v)))) (strto_end (strtoll v))
           | XOPT_TYPE_LONG \<Rightarrow> number (VLong (strto_value (strtoll v))) (strto_end (strtoll v))
           | XOPT_TYPE_FLOAT \<Rightarrow> number (VReal v) (strtod v)
           | XOPT_TYPE_DOUBLE \<Rightarrow> number (VReal v) (strtod v)
           | XOPT_TYPE_MIXED _ \<Rightarrow> Inr data)"

definition xopt_set :: "(string \<Rightarrow> nat) \<Rightarrow> xstore \<Rightarrow> xopt_option \<Rightarrow> string option \<Rightarrow> bool \<Rightarrow> xstore xres" where
  "xopt_set strtod data opt val isLong =
     (case x_callback opt of Some callback \<Rightarrow> callback val isLong data | None \<Rightarrow> xopt_default_callback strtod val opt isLong data)"

section \<open>Finding options\<close>

definition xopt_get_size :: "string \<Rightarrow> nat" where
  "xopt_get_size arg = length (takeWhile (\<lambda>c. c = CHR ''-'') (take 2 arg))"

definition xopt_matches :: "string \<Rightarrow> nat \<Rightarrow> nat \<Rightarrow> xopt_option \<Rightarrow> bool" where
  "xopt_matches arg len siz opt \<longleftrightarrow>
     (siz = 1 \<and> shortArg opt = (case arg of [] \<Rightarrow> NUL | c # _ \<Rightarrow> c))
     \<or> (case longArg opt of None \<Rightarrow> False | Some l \<Rightarrow> length l = len \<and> l = take len arg)"

fun xopt_find :: "(xopt_option \<Rightarrow> bool) \<Rightarrow> nat \<Rightarrow> xopt_option list \<Rightarrow> (nat \<times> xopt_option) option" where
  "xopt_find P i [] = None"
| "xopt_find P i (opt # opts) = (if P opt then Some (i, opt) else xopt_find P (Suc i) opts)"

definition xopt_get_arg :: "xopt_option list \<Rightarrow> string \<Rightarrow> nat \<Rightarrow> nat \<Rightarrow> nat \<times> (nat \<times> xopt_option) option" where
  "xopt_get_arg options arg len siz =
     (case xopt_find (xopt_matches arg len siz) 0 options of
        None \<Rightarrow> (0, None)
      | Some (i, opt) \<Rightarrow>
          (if bool_bit (x_type opt) then 0 else if x_optional opt then 1 else 2, Some (i, opt)))"

section \<open>One argument\<close>

record xctx =
  xc_options :: "xopt_option list"
  xc_flags :: xopt_flags
  xc_name :: string

record xstate =
  xs_doubledash :: bool
  xs_required :: "bool list"
  xs_data :: xstore

text \<open>
  The loop over condensed short options: \<open>arg\<close> is what is left of the argument and \<open>argi\<close> the current index (an option may
  take the next argument as its value). The result has the new index and the index of the last option found.
\<close>

function xopt_shorts :: "(string \<Rightarrow> nat) \<Rightarrow> xctx \<Rightarrow> string list \<Rightarrow> string \<Rightarrow> nat \<Rightarrow> nat option \<Rightarrow> xstore \<Rightarrow> (nat \<times> nat option \<times> xstore) xres" where
  "xopt_shorts strtod ctx argv [] argi seen data = Inr (argi, seen, data)"
| "xopt_shorts strtod ctx argv (c # arg) argi seen data =
     (let (argRequirement, found) = xopt_get_arg (xc_options ctx) (c # arg) 1 1; len = length arg in
      case found of
        None \<Rightarrow>
          if STRICT (xc_flags ctx) then Inl (xopt_set_err data ''invalid option: -%c'' [a_chr c]) else Inr (argi, None, data)
      | Some (i, opt) \<Rightarrow>
          if 0 < argRequirement \<and> 0 < len \<and> \<not> SLOPPYSHORTS (xc_flags ctx)
          then Inl (xopt_set_err data ''short option parameters must be separated, not condensed: %s'' [a_str (argv ! argi)])
          else if argRequirement = 0 then
            (if 0 < len \<and> NOCONDENSE (xc_flags ctx)
             then Inl (xopt_set_err data ''short options cannot be combined: %s'' [a_str (argv ! argi)])
             else bindX (xopt_set strtod data opt None False) (\<lambda>data. xopt_shorts strtod ctx argv arg argi (Some i) data))
          else if argRequirement = 1 then
            (if argi + 1 < length argv \<and> xopt_get_size (argv ! (argi + 1)) = 0
             then bindX (xopt_set strtod data opt (Some (argv ! (argi + 1))) False) (\<lambda>data.
                    xopt_shorts strtod ctx argv arg (argi + 1) (Some i) data)
             else bindX (xopt_set strtod data opt None False) (\<lambda>data. xopt_shorts strtod ctx argv arg argi (Some i) data))
          else if len = 0 then
            (if argi + 1 < length argv
             then (if xopt_get_size (argv ! (argi + 1)) \<noteq> 0
                   then Inl (xopt_set_err data ''missing option value: -%c'' [a_chr (shortArg opt)])
                   else bindX (xopt_set strtod data opt (Some (argv ! (argi + 1))) False) (\<lambda>data.
                          Inr (argi + 1, Some i, data)))
             else Inl (xopt_set_err data ''missing option value: -%c'' [a_chr (shortArg opt)]))
          else bindX (xopt_set strtod data opt (Some arg) False) (\<lambda>data. Inr (argi, Some i, data)))"
  by pat_completeness auto
termination
  by (relation "measure (\<lambda>(_, _, _, arg, _, _, _). length arg)") auto

declare xopt_shorts.simps [simp del]

text \<open>A long option: a flag is set twice, as the \<open>switch\<close> and the line behind it both do.\<close>

definition xopt_long :: "(string \<Rightarrow> nat) \<Rightarrow> xctx \<Rightarrow> string \<Rightarrow> xstore \<Rightarrow> (nat \<times> xstore) xres" where
  "xopt_long strtod ctx arg data =
     (let key = takeWhile (\<lambda>c. c \<noteq> CHR ''='') arg; rest = dropWhile (\<lambda>c. c \<noteq> CHR ''='') arg;
          val = (case rest of [] \<Rightarrow> None | _ # [] \<Rightarrow> None | _ # v \<Rightarrow> Some v);
          (argRequirement, found) = xopt_get_arg (xc_options ctx) arg (length key) 2
      in case found of
           None \<Rightarrow> Inl (xopt_set_err data ''invalid option: --%.*s'' [AInt (of_nat (length key)), a_str arg])
         | Some (i, opt) \<Rightarrow>
             if argRequirement = 0 \<and> val \<noteq> None then Inl (xopt_set_err data ''option doesn't take a value: --%s'' [a_str arg])
             else if argRequirement = 2 \<and> val = None then Inl (xopt_set_err data ''missing option value: --%s'' [a_str arg])
             else bindX (if argRequirement = 0 then xopt_set strtod data opt val True else Inr data) (\<lambda>data.
                  bindX (xopt_set strtod data opt val True) (\<lambda>data. Inr (i, data))))"

text \<open>Result: 0 option, 1 extra, 2 double dash; the new index; the new state.\<close>

definition xopt_parse_arg :: "(string \<Rightarrow> nat) \<Rightarrow> xctx \<Rightarrow> string list \<Rightarrow> nat \<Rightarrow> xstate \<Rightarrow> (nat \<times> nat \<times> xstate) xres" where
  "xopt_parse_arg strtod ctx argv argi s =
     (if xs_doubledash s then Inr (1, argi, s)
      else
        let siz = xopt_get_size (argv ! argi); arg = drop siz (argv ! argi) in
        if siz = 1 \<and> arg = [] then Inr (1, argi, s)
        else if siz = 2 \<and> arg = [] then Inr (2, argi, s\<lparr>xs_doubledash := True\<rparr>)
        else if siz = 1 then
          bindX (xopt_shorts strtod ctx argv arg argi None (xs_data s)) (\<lambda>(argi, seen, data).
            Inr (0, argi, s\<lparr>xs_data := data,
              xs_required := (case seen of None \<Rightarrow> xs_required s | Some i \<Rightarrow> (xs_required s)[i := False])\<rparr>))
        else if siz = 2 then
          bindX (xopt_long strtod ctx arg (xs_data s)) (\<lambda>(i, data).
            Inr (0, argi, s\<lparr>xs_data := data, xs_required := (xs_required s)[i := False]\<rparr>))
        else Inr (1, argi, s))"

section \<open>All arguments\<close>

lemma xopt_shorts_mono:
  "xopt_shorts strtod ctx argv arg argi seen data = Inr (j, seen', data') \<Longrightarrow> argi \<le> j"
proof (induction arg arbitrary: argi seen data)
  case (Cons c arg)
  have IH: "argi \<le> j" if "xopt_shorts strtod ctx argv arg k seen1 data1 = Inr (j, seen', data')" "argi \<le> k" for k seen1 data1
    using Cons.IH [OF that(1)] that(2) by simp
  from Cons.prems show ?case
    by (auto simp: xopt_shorts.simps(2) Let_def bindX_Inr_iff split: prod.splits option.splits if_splits intro: IH)
qed (simp add: xopt_shorts.simps)

lemma xopt_parse_arg_mono: "xopt_parse_arg strtod ctx argv argi s = Inr (r, j, s') \<Longrightarrow> argi \<le> j"
  by (auto simp: xopt_parse_arg_def Let_def bindX_Inr_iff split: if_splits dest: xopt_shorts_mono)

text \<open>The loop over the arguments ends because the index grows with every round.\<close>

function xopt_loop :: "(string \<Rightarrow> nat) \<Rightarrow> xctx \<Rightarrow> string list \<Rightarrow> nat \<Rightarrow> string list \<Rightarrow> xstate \<Rightarrow> (string list \<times> xstate) xres" where
  "xopt_loop strtod ctx argv argi extras s =
     (if argi < length argv then
        bindX (xopt_parse_arg strtod ctx argv argi s) (\<lambda>(r, j, s).
          if r = 0 \<and> POSIXMEHARDER (xc_flags ctx) \<and> extras \<noteq> []
          then Inl (xopt_set_err (xs_data s) ''options cannot be specified after arguments: %s'' [a_str (argv ! j)])
          else xopt_loop strtod ctx argv (Suc j) (if r = 1 then extras @ [argv ! j] else extras) s)
      else Inr (extras, s))"
  by pat_completeness auto
termination
  by (relation "measure (\<lambda>(_, _, argv, argi, _, _). length argv - argi)") (auto dest!: xopt_parse_arg_mono)

declare xopt_loop.simps [simp del]

fun xopt_missing :: "xstore \<Rightarrow> xopt_option list \<Rightarrow> bool list \<Rightarrow> xerr option" where
  "xopt_missing data (opt # opts) (r # rs) =
     (if r then Some (case longArg opt of Some l \<Rightarrow> xopt_set_err data ''missing required option: --%s'' [a_str l]
                      | None \<Rightarrow> xopt_set_err data ''missing required option: -%c'' [a_chr (shortArg opt)])
      else xopt_missing data opts rs)"
| "xopt_missing _ _ _ = None"

definition xopt_context :: "string \<Rightarrow> xopt_option list \<Rightarrow> xopt_flags \<Rightarrow> xctx" where
  "xopt_context name options flags =
     \<lparr>xc_options = takeWhile (\<lambda>opt. longArg opt \<noteq> None \<or> shortArg opt \<noteq> NUL) options, xc_flags = flags, xc_name = name\<rparr>"

text \<open>\<open>xopt_parse\<close>: the extra arguments and the caller's data.\<close>

definition xopt_parse :: "(string \<Rightarrow> nat) \<Rightarrow> xctx \<Rightarrow> string list \<Rightarrow> xstore \<Rightarrow> (string list \<times> xstore) xres" where
  "xopt_parse strtod ctx argv data =
     bindX (xopt_loop strtod ctx argv (if KEEPFIRST (xc_flags ctx) then 0 else 1) []
              \<lparr>xs_doubledash = False, xs_required = map x_required (xc_options ctx), xs_data = data\<rparr>) (\<lambda>(extras, s).
       case xopt_missing (xs_data s) (xc_options ctx) (xs_required s) of
         Some e \<Rightarrow> Inl e
       | None \<Rightarrow> Inr (extras, xs_data s))"

section \<open>Help\<close>

definition xopt_width :: "xopt_option \<Rightarrow> nat" where
  "xopt_width opt =
     (case longArg opt of None \<Rightarrow> 0 | Some l \<Rightarrow> 2 + length l + (case argDescrip opt of None \<Rightarrow> 0 | Some d \<Rightarrow> 1 + length d))
     + (if shortArg opt \<noteq> NUL then 2 else 0)
     + (if shortArg opt \<noteq> NUL \<and> longArg opt \<noteq> None then 2 else 0)"

definition xopt_label :: "xopt_option \<Rightarrow> string" where
  "xopt_label opt =
     (if shortArg opt \<noteq> NUL then ''-'' @ [shortArg opt] else [])
     @ (if shortArg opt \<noteq> NUL \<and> longArg opt \<noteq> None then '', '' else [])
     @ (case longArg opt of None \<Rightarrow> [] | Some l \<Rightarrow> ''--'' @ l @ (case argDescrip opt of None \<Rightarrow> [] | Some d \<Rightarrow> ''='' @ d))"

definition xopt_line :: "nat \<Rightarrow> xopt_option \<Rightarrow> string" where
  "xopt_line col opt =
     xopt_label opt @ (case descrip opt of None \<Rightarrow> []
       | Some d \<Rightarrow> replicate (col - length (xopt_label opt)) (CHR '' '')
           @ (if x_required opt then ''(Required) '' @ d else d) @ [CHR 0x0A])"

record autohelp_options =
  ah_usage :: "string option"
  ah_prefix :: "string option"
  ah_suffix :: "string option"
  ah_spacer :: nat

definition xopt_autohelp :: "xctx \<Rightarrow> autohelp_options option \<Rightarrow> string" where
  "xopt_autohelp ctx options =
     (let spacer = (case options of None \<Rightarrow> 2 | Some ah \<Rightarrow> ah_spacer ah);
          usage = Option.bind options ah_usage; prefix = Option.bind options ah_prefix;
          suffix = Option.bind options ah_suffix;
          width = fold (\<lambda>opt w. max w (xopt_width opt)) (xc_options ctx) 0;
          nl0 = []; nl1 = (if usage = None then nl0 else [CHR 0x0A]); nl2 = (if prefix = None then nl1 else [CHR 0x0A])
      in (case usage of None \<Rightarrow> [] | Some u \<Rightarrow> nl0 @ ''usage: '' @ xc_name ctx @ '' '' @ u @ [CHR 0x0A])
         @ (case prefix of None \<Rightarrow> [] | Some p \<Rightarrow> nl1 @ p @ [CHR 0x0A, CHR 0x0A])
         @ concat (map (xopt_line (width + spacer)) (xc_options ctx))
         @ (case suffix of None \<Rightarrow> [] | Some x \<Rightarrow> nl2 @ x @ [CHR 0x0A]))"

end
