(* ===== verification/Cli.thy ===== *)
theory Cli
  imports Xopt Comm
begin

text \<open>
  The command line tool, \<open>src/src/cli.c\<close>. Two automatic variables are read uninitialised there, and
  are parameters of the model: \<open>config.help\<close> when no option sets it, and \<open>opts.suffix\<close>.
\<close>

definition OFF_TQ :: nat where "OFF_TQ = 0"
definition OFF_ANTI_THRASH :: nat where "OFF_ANTI_THRASH = 8"
definition OFF_HELP :: nat where "OFF_HELP = 16"

definition cli_options :: "xopt_option list" where
  "cli_options =
     [\<lparr>longArg = Some ''set-tq'', shortArg = CHR ''T'', x_offset = OFF_TQ, x_callback = None, x_type = XOPT_TYPE_INT, x_optional = False,
        x_required = False, argDescrip = Some ''n'',
        descrip = Some ''Set the time quantum of the scheduler to TQ seconds. Only accepts positive integers.''\<rparr>,
      \<lparr>longArg = Some ''anti-thrash'', shortArg = CHR ''S'', x_offset = OFF_ANTI_THRASH, x_callback = None, x_type = XOPT_TYPE_STRING,
        x_optional = False, x_required = False, argDescrip = Some ''s'',
        descrip = Some ''Set the desired status of the scheduler. Only accepts values \"on\" or \"off\".''\<rparr>,
      \<lparr>longArg = Some ''help'', shortArg = CHR ''h'', x_offset = OFF_HELP, x_callback = None, x_type = XOPT_TYPE_BOOL, x_optional = False,
        x_required = False, argDescrip = None, descrip = Some ''Shows this help message''\<rparr>,
      \<lparr>longArg = None, shortArg = NUL, x_offset = 0, x_callback = None, x_type = XOPT_TYPE_STRING, x_optional = False,
        x_required = False, argDescrip = None, descrip = None\<rparr>]"

text \<open>
  The connection, one message, and \<open>close\<close>, which both requests share: 0, or -1 if the message could not be written.
\<close>

definition request :: "char list \<Rightarrow> message \<Rightarrow> kernel \<Rightarrow> (int \<times> kernel) res" where
  "request path msg k =
     bindR (nvshare_connect path k) (\<lambda>(r, rsock, _, k).
       if r \<noteq> 0 then Inl Exit
       else bindR (write_whole rsock (encode_message msg) k) (\<lambda>(n, k).
         let result = (if n \<noteq> int sizeof_message then - 1 else 0) in
         bindR (sys (Sys_close rsock) k) (\<lambda>(a, k). if ret a \<noteq> 0 then Inl Exit else Inr (result, k))))"

definition tq_msg :: "int \<Rightarrow> message" where
  "tq_msg newtq =
     (let m = zero_message\<lparr>m_id := 0xBEEF, m_type := message_type_code SET_TQ\<rparr>
      in m\<lparr>m_data := fst (snprintf (m_data m) MSG_DATA_LEN (show_int newtq))\<rparr>)"

definition change_tq :: "char list \<Rightarrow> int \<Rightarrow> kernel \<Rightarrow> (int \<times> kernel) res" where
  "change_tq path newtq k =
     (if snd (snprintf (m_data zero_message) MSG_DATA_LEN (show_int newtq)) \<le> 0 then Inl Exit
      else request path (tq_msg newtq) k)"

definition status_request :: "int \<Rightarrow> message" where
  "status_request status =
     (if status = 1 then zero_message\<lparr>m_type := message_type_code SCHED_ON\<rparr>
      else zero_message\<lparr>m_type := message_type_code SCHED_OFF\<rparr>)\<lparr>m_id := 0xBEEF\<rparr>"

definition change_status :: "char list \<Rightarrow> int \<Rightarrow> kernel \<Rightarrow> (int \<times> kernel) res" where
  "change_status path status k = request path (status_request status) k"

record config =
  cmdline_scheduler_tq :: int
  cmdline_anti_thrash :: "string option"
  cfg_help :: bool

text \<open>What \<open>xopt_parse\<close> has left in the structure; \<open>help0\<close> is the uninitialised value.\<close>

definition read_config :: "bool \<Rightarrow> xstore \<Rightarrow> config" where
  "read_config help0 data =
     \<lparr>cmdline_scheduler_tq = (case data OFF_TQ of Some (VInt i) \<Rightarrow> i | _ \<Rightarrow> 0),
      cmdline_anti_thrash = (case data OFF_ANTI_THRASH of Some (VStr v) \<Rightarrow> Some v | _ \<Rightarrow> None),
      cfg_help = (case data OFF_HELP of Some (VBool b) \<Rightarrow> b | _ \<Rightarrow> help0)\<rparr>"

definition cli_flags :: xopt_flags where
  "cli_flags = \<lparr>KEEPFIRST = False, POSIXMEHARDER = True, NOCONDENSE = False, SLOPPYSHORTS = False, STRICT = True\<rparr>"

definition cli_ctx :: xctx where
  "cli_ctx = xopt_context ''nvsharectl'' cli_options cli_flags"

definition anti_thrash_action :: "char list \<Rightarrow> config \<Rightarrow> kernel \<Rightarrow> (nat \<times> kernel) res" where
  "anti_thrash_action path c k =
     (case cmdline_anti_thrash c of
        None \<Rightarrow> Inr (0, k)
      | Some v \<Rightarrow>
          if v = ''on'' then bindR (change_status path 1 k) (\<lambda>(_, k). Inr (1, k))
          else if v = ''off'' then bindR (change_status path 0 k) (\<lambda>(_, k). Inr (1, k))
          else Inl Exit)"

definition set_tq_action :: "char list \<Rightarrow> config \<Rightarrow> kernel \<Rightarrow> (nat \<times> kernel) res" where
  "set_tq_action path c k =
     (if cmdline_scheduler_tq c \<noteq> 0
      then (if cmdline_scheduler_tq c \<le> 0 then Inl Exit
            else bindR (change_tq path (cmdline_scheduler_tq c) k) (\<lambda>(_, k). Inr (1, k)))
      else Inr (0, k))"

text \<open>\<open>main\<close>: the help text printed, if any, and the kernel.\<close>

definition cli_main :: "(string \<Rightarrow> nat) \<Rightarrow> bool \<Rightarrow> string option \<Rightarrow> char list \<Rightarrow> string list \<Rightarrow> kernel \<Rightarrow> (string option \<times> kernel) res" where
  "cli_main strtod help0 suffix0 sock_path argv k =
     (case xopt_parse strtod cli_ctx argv Map.empty of
        Inl _ \<Rightarrow> Inl Exit
      | Inr (extras, data) \<Rightarrow>
          let c = read_config help0 data in
          bindR (nvshare_get_scheduler_path sock_path) (\<lambda>(r, path).
            if r \<noteq> 0 then Inl Exit
            else
              bindR (anti_thrash_action path c k) (\<lambda>(d1, k).
              bindR (set_tq_action path c k) (\<lambda>(d2, k).
                if cfg_help c \<or> d1 + d2 = 0
                then Inr (Some (xopt_autohelp cli_ctx (Some \<lparr>ah_usage = Some ''[options]'',
                       ah_prefix = Some ''A command line utility to configure the nvshare scheduler.'',
                       ah_suffix = suffix0, ah_spacer = 10\<rparr>)), k)
                else Inr (None, k)))))"

end
