(* ===== verification/Snprintf_Props.thy ===== *)
theory Snprintf_Props
  imports Snprintf
begin

text \<open>
  What the formatting functions put out does not depend on the room in the buffer: for every conversion there is a text, and the
  buffer receives as much of that text as fits (\<open>emits\<close>). From this follows the contract of \<open>vsnprintf\<close>: truncation, termination
  of the buffer, and the length that the caller is told. The last part computes the texts of the conversions that nvshare uses.
\<close>

section \<open>What a buffer receives\<close>

definition put1 :: "nat \<Rightarrow> char \<Rightarrow> outbuf \<Rightarrow> outbuf" where
  "put1 siz c o' = (if o_len o' + 1 < siz then o'\<lparr>o_str := (o_str o')[o_len o' := c], o_len := o_len o' + 1\<rparr> else o'\<lparr>o_len := o_len o' + 1\<rparr>)"

definition put :: "nat \<Rightarrow> char list \<Rightarrow> outbuf \<Rightarrow> outbuf" where
  "put siz t o' = fold (put1 siz) t o'"

lemma put_Nil [simp]: "put siz [] o' = o'"
  by (simp add: put_def)

lemma put_Cons [simp]: "put siz (c # t) o' = put siz t (put1 siz c o')"
  by (simp add: put_def)

lemma put_append [simp]: "put siz (s @ t) o' = put siz t (put siz s o')"
  by (simp add: put_def)

lemma put1_sel [simp]: "o_len (put1 siz c o') = Suc (o_len o')" "length (o_str (put1 siz c o')) = length (o_str o')"
  by (simp_all add: put1_def)

lemma put_sel [simp]: "o_len (put siz t o') = o_len o' + length t" "length (o_str (put siz t o')) = length (o_str o')"
  by (induction t arbitrary: o') simp_all

lemma OUTCHAR_put: "siz \<le> length (o_str o') \<Longrightarrow> OUTCHAR siz c o' = Inr (put1 siz c o')"
  by (simp add: OUTCHAR_def put1_def)

lemma OUTCHARS_put: "siz \<le> length (o_str o') \<Longrightarrow> OUTCHARS siz t o' = Inr (put siz t o')"
  by (induction t arbitrary: o') (simp_all add: OUTCHAR_put)

lemma put_str:
  assumes "siz \<le> length (o_str o')"
  shows "o_str (put siz t o') =
    (let n = min (length t) (siz - 1 - o_len o') in take (o_len o') (o_str o') @ take n t @ drop (o_len o' + n) (o_str o'))"
  using assms
proof (induction t arbitrary: o')
  case (Cons c t)
  show ?case
  proof (cases "o_len o' + 1 < siz")
    case True
    with Cons.prems have lt: "o_len o' < length (o_str o')" by simp
    have len: "siz - 1 - o_len o' = Suc (siz - 1 - Suc (o_len o'))" using True by simp
    have "o_str (put siz (c # t) o') = o_str (put siz t (put1 siz c o'))" by simp
    also have "\<dots> = (let n = min (length t) (siz - 1 - Suc (o_len o')) in
        take (Suc (o_len o')) ((o_str o')[o_len o' := c]) @ take n t @ drop (Suc (o_len o') + n) ((o_str o')[o_len o' := c]))"
      using Cons.IH [of "put1 siz c o'"] Cons.prems True by (simp add: put1_def)
    also have "\<dots> = (let n = min (length (c # t)) (siz - 1 - o_len o') in take (o_len o') (o_str o') @ take n (c # t) @ drop (o_len o' + n) (o_str o'))"
      using lt by (simp only: len list.size min_Suc_Suc take_Suc_Cons) (simp add: Let_def take_Suc_conv_app_nth)
    finally show ?thesis .
  next
    case False
    then have "siz - 1 - o_len o' = 0" "siz - 1 - Suc (o_len o') = 0" by auto
    with False Cons show ?thesis by (simp add: put1_def)
  qed
qed simp

text \<open>An operation that emits: a text (or a fault) that depends neither on the size nor on the contents of the buffer.\<close>

definition emits :: "(nat \<Rightarrow> outbuf \<Rightarrow> outbuf res) \<Rightarrow> bool" where
  "emits op \<longleftrightarrow> (\<exists>r. \<forall>siz o'. siz \<le> length (o_str o') \<longrightarrow> op siz o' = bindR r (\<lambda>t. Inr (put siz t o')))"

named_theorems emits \<open>operations whose text does not depend on the buffer\<close>

lemma emitsI: "(\<And>siz o'. siz \<le> length (o_str o') \<Longrightarrow> op siz o' = bindR r (\<lambda>t. Inr (put siz t o'))) \<Longrightarrow> emits op"
  unfolding emits_def by blast

lemma emits_OUTCHAR [emits]: "emits (\<lambda>siz o'. OUTCHAR siz c o')"
  by (rule emitsI [of _ "Inr [c]"]) (simp add: OUTCHAR_put)

lemma emits_OUTCHARS [emits]: "emits (\<lambda>siz o'. OUTCHARS siz t o')"
  by (rule emitsI [of _ "Inr t"]) (simp add: OUTCHARS_put)

lemma emits_Inr [emits]: "emits (\<lambda>siz o'. Inr o')"
  by (rule emitsI [of _ "Inr []"]) simp

lemma emits_Inl [emits]: "emits (\<lambda>siz o'. Inl f)"
  by (rule emitsI [of _ "Inl f"]) simp

lemma emits_bind [emits]:
  assumes "emits p" "emits q"
  shows "emits (\<lambda>siz o'. bindR (p siz o') (\<lambda>o'. q siz o'))"
proof -
  obtain r where r: "\<And>siz o'. siz \<le> length (o_str o') \<Longrightarrow> p siz o' = bindR r (\<lambda>t. Inr (put siz t o'))"
    using assms(1) unfolding emits_def by blast
  obtain r' where r': "\<And>siz o'. siz \<le> length (o_str o') \<Longrightarrow> q siz o' = bindR r' (\<lambda>t. Inr (put siz t o'))"
    using assms(2) unfolding emits_def by blast
  show ?thesis
    by (rule emitsI [of _ "bindR r (\<lambda>s. bindR r' (\<lambda>t. Inr (s @ t)))"]) (cases r; cases r'; simp add: r r')
qed

lemma emits_if [emits]:
  "(b \<Longrightarrow> emits p) \<Longrightarrow> (\<not> b \<Longrightarrow> emits q) \<Longrightarrow> emits (\<lambda>siz o'. if b then p siz o' else q siz o')"
  by (cases b) simp_all

lemma emits_pure [emits]: "(\<And>x. emits (\<lambda>siz o'. f x siz o')) \<Longrightarrow> emits (\<lambda>siz o'. bindR m (\<lambda>x. f x siz o'))"
  by (cases m) (simp_all add: emits_Inl)

lemma emits_copy_loop [emits]: "emits (\<lambda>siz o'. copy_loop siz mem noprecision precision o')"
proof (induction mem arbitrary: precision)
  case (Cons c mem)
  have "emits (\<lambda>siz o'. if c \<noteq> NUL \<and> (noprecision \<or> 0 < precision)
    then bindR (OUTCHAR siz c o') (\<lambda>o'. copy_loop siz mem noprecision (precision - 1) o') else Inr o')"
    by (intro emits Cons.IH)
  then show ?case by (simp only: copy_loop.simps)
qed (rule emitsI [of _ "Inl OutOfBounds"], simp)

lemma emits_digits_loop [emits]: "emits (\<lambda>siz o'. digits_loop siz seps buf pos o')"
  by (induction pos) (auto intro!: emits simp: printsep_def)

lemma emits_fmtstr [emits]: "emits (\<lambda>siz o'. fmtstr siz val width precision flags o')"
  unfolding fmtstr_def Let_def by (intro emits)

lemma emits_fmtint [emits]: "emits (\<lambda>siz o'. fmtint siz val base width precision flags o')"
  unfolding fmtint_def Let_def by (intro emits)

lemma emits_fmtflt_emit [emits]: "emits (\<lambda>siz o'. fmtflt_emit siz p sign width flags o')"
  unfolding fmtflt_emit_def Let_def by (intro emits)

text \<open>
  The same for the operations that return more than a buffer: \<open>mk\<close> puts the buffer back into the result. \<open>n\<close> is the number of
  characters before the operation, which \<open>%n\<close> reads.
\<close>

definition yields :: "('x \<Rightarrow> outbuf \<Rightarrow> 'y) \<Rightarrow> nat \<Rightarrow> (nat \<Rightarrow> outbuf \<Rightarrow> 'y res) \<Rightarrow> bool" where
  "yields mk n op \<longleftrightarrow>
     (\<exists>r. \<forall>siz o'. siz \<le> length (o_str o') \<and> o_len o' = n \<longrightarrow> op siz o' = bindR r (\<lambda>(t, x). Inr (mk x (put siz t o'))))"

named_theorems yields \<open>conversions whose text does not depend on the buffer\<close>

lemma yieldsI:
  "(\<And>siz o'. siz \<le> length (o_str o') \<Longrightarrow> o_len o' = n \<Longrightarrow> op siz o' = bindR r (\<lambda>(t, x). Inr (mk x (put siz t o')))) \<Longrightarrow> yields mk n op"
  unfolding yields_def by blast

lemma yields_Inl [yields]: "yields mk n (\<lambda>siz o'. Inl f)"
  by (rule yieldsI [of _ _ "Inl f"]) simp

lemma yields_if [yields]:
  "(b \<Longrightarrow> yields mk n p) \<Longrightarrow> (\<not> b \<Longrightarrow> yields mk n q) \<Longrightarrow> yields mk n (\<lambda>siz o'. if b then p siz o' else q siz o')"
  by (cases b) simp_all

lemma yields_pure: "(\<And>x. yields mk n (\<lambda>siz o'. f x siz o')) \<Longrightarrow> yields mk n (\<lambda>siz o'. bindR m (\<lambda>x. f x siz o'))"
  by (cases m) (simp_all add: yields_Inl)

lemma yields_Inr: "yields mk n (\<lambda>siz o'. Inr (mk x o'))"
  by (rule yieldsI [of _ _ "Inr ([], x)"]) simp

lemma yields_emit:
  assumes "emits p"
  shows "yields mk n (\<lambda>siz o'. bindR (p siz o') (\<lambda>o'. Inr (mk x o')))"
proof -
  obtain r where r: "\<And>siz o'. siz \<le> length (o_str o') \<Longrightarrow> p siz o' = bindR r (\<lambda>t. Inr (put siz t o'))"
    using assms unfolding emits_def by blast
  show ?thesis
    by (rule yieldsI [of _ _ "bindR r (\<lambda>t. Inr (t, x))"]) (cases r; simp add: r)
qed

lemma yields_bind:
  assumes "yields mk n p" "\<And>t x. yields mk' (n + t) (\<lambda>siz o'. q siz (mk x o'))"
  shows "yields mk' n (\<lambda>siz o'. bindR (p siz o') (\<lambda>y. q siz y))"
proof -
  obtain r where r: "\<And>siz o'. siz \<le> length (o_str o') \<Longrightarrow> o_len o' = n \<Longrightarrow> p siz o' = bindR r (\<lambda>(t, x). Inr (mk x (put siz t o')))"
    using assms(1) unfolding yields_def by blast
  show ?thesis
  proof (cases r)
    case (Inl f)
    then show ?thesis by (intro yieldsI [of _ _ "Inl f"]) (simp add: r)
  next
    case (Inr tx)
    obtain t x where tx: "tx = (t, x)" by fastforce
    obtain r' where "\<And>siz o'. siz \<le> length (o_str o') \<Longrightarrow> o_len o' = n + length t \<Longrightarrow>
        q siz (mk x o') = bindR r' (\<lambda>(t, x). Inr (mk' x (put siz t o')))"
      using assms(2) [of "length t" x] unfolding yields_def by blast
    then show ?thesis
      by (intro yieldsI [of _ _ "bindR r' (\<lambda>(t', x). Inr (t @ t', x))"]) (cases r'; auto simp: r Inr tx)
  qed
qed

subsection \<open>Conversions\<close>

definition mk_conv :: "('f arg list \<times> (64 word \<times> cmod \<times> nat) list \<times> bool) \<Rightarrow> outbuf \<Rightarrow> 'f arg list \<times> outbuf \<times> (64 word \<times> cmod \<times> nat) list \<times> bool" where
  "mk_conv x o' = (case x of (args, stores, overflow) \<Rightarrow> (args, o', stores, overflow))"

lemma yields_conv [yields]: "yields mk_conv n (\<lambda>siz o'. Inr (args, o', stores, overflow))"
  using yields_Inr [of mk_conv n "(args, stores, overflow)"] by (simp add: mk_conv_def)

lemma yields_conv_emit [yields]: "emits p \<Longrightarrow> yields mk_conv n (\<lambda>siz o'. bindR (p siz o') (\<lambda>o'. Inr (args, o', stores, overflow)))"
  using yields_emit [of p mk_conv n "(args, stores, overflow)"] by (simp add: mk_conv_def)

lemma yields_conv_args [yields]:
  "(\<And>x args. yields mk_conv n (\<lambda>siz o'. f x args siz o')) \<Longrightarrow> yields mk_conv n (\<lambda>siz o'. bindR m (\<lambda>(x, args). f x args siz o'))"
  by (rule yields_pure) (case_tac x, simp)

lemma yields_conv_len [yields]: "yields mk_conv n (\<lambda>siz o'. Inr (args, o', stores @ [(w, c, o_len o')], overflow))"
  by (rule yieldsI [of _ _ "Inr ([], (args, stores @ [(w, c, n)], overflow))"]) (simp add: mk_conv_def)

lemma bindR_if: "bindR (if b then m else m') f = (if b then bindR m f else bindR m' f)"
  by simp

lemma bindR_case_option: "bindR (case z of None \<Rightarrow> m | Some p \<Rightarrow> g p) f = (case z of None \<Rightarrow> bindR m f | Some p \<Rightarrow> bindR (g p) f)"
  by (simp split: option.split)

lemma fmtflt_then:
  "bindR (fmtflt fo siz x width precision flags o') (\<lambda>(overflow, o'). Inr (args, o', stores, overflow)) =
     (let sign = (if f_lt fo x (f_zero fo) then ''-'' else if F_PLUS flags then ''+'' else if F_SPACE flags then '' '' else []);
          infnan = (if ISNAN fo x then (if F_UP flags then ''NAN'' else ''nan'')
                    else if ISINF fo x then (if F_UP flags then ''INF'' else ''inf'') else [])
      in if infnan \<noteq> []
         then bindR (fmtstr siz (Some (sign @ infnan @ [NUL])) width (int (length (sign @ infnan))) flags o') (\<lambda>o'. Inr (args, o', stores, False))
         else case fmtflt_parts fo x (if precision = - 1 then 6 else precision) flags of
             None \<Rightarrow> Inr (args, o', stores, True)
           | Some p \<Rightarrow> bindR (fmtflt_emit siz p sign width flags o') (\<lambda>o'. Inr (args, o', stores, False)))"
  unfolding fmtflt_def Let_def by (simp only: bindR_if bindR_case_option bindR_assoc bindR_simps prod.case)

lemma yields_conv_flt [yields]:
  "yields mk_conv n (\<lambda>siz o'. bindR (fmtflt fo siz x width precision flags o') (\<lambda>(overflow, o'). Inr (args, o', stores, overflow)))"
  unfolding fmtflt_then Let_def
  by (cases "fmtflt_parts fo x (if precision = - 1 then 6 else precision) flags") (simp_all only: option.case, (intro yields emits)+)

lemma yields_conversion: "yields mk_conv n (\<lambda>siz o'. conversion fo siz ch (v\<lparr>v_out := o'\<rparr>))"
  unfolding conversion_def conv_int_def conv_flt_def conv_ptr_def conv_n_def Let_def
  by (cases v) (simp only: vst.simps, intro yields emits)

subsection \<open>Steps and the loop\<close>

definition mk_vst :: "'f vst \<Rightarrow> outbuf \<Rightarrow> 'f vst" where
  "mk_vst v o' = v\<lparr>v_out := o'\<rparr>"

lemma yields_step: "yields mk_vst n (\<lambda>siz o'. vsn_step fo siz (mk_vst v o'))"
proof (cases "v_state v")
  case S_DEFAULT
  then have eq: "vsn_step fo siz (mk_vst v o') =
      (if hd (v_fmt v) = CHR ''%'' then Inr (mk_vst (advance (v\<lparr>v_state := S_FLAGS\<rparr>)) o')
       else bindR (OUTCHAR siz (hd (v_fmt v)) o') (\<lambda>o'. Inr (mk_vst (advance v) o')))" for siz o'
    by (cases v) (simp add: vsn_step.simps step_default_def mk_vst_def advance_def)
  show ?thesis unfolding eq by (intro yields_if yields_Inr yields_emit emits)
next
  case S_FLAGS
  then have "vsn_step fo siz (mk_vst v o') = Inr (mk_vst (step_flags v) o')" for siz o'
    by (cases v) (simp add: vsn_step.simps step_flags_def mk_vst_def advance_def Let_def)
  then show ?thesis by (simp add: yields_Inr)
next
  case S_WIDTH
  then have "vsn_step fo siz (mk_vst v o') = bindR (step_width v) (\<lambda>v. Inr (mk_vst v o'))" for siz o'
    by (cases v; cases "va_int (v_args v)") (auto simp: vsn_step.simps step_width_def mk_vst_def advance_def Let_def)
  then show ?thesis by (simp add: yields_Inr yields_pure)
next
  case S_DOT
  then have "vsn_step fo siz (mk_vst v o') = Inr (mk_vst (step_dot v) o')" for siz o'
    by (cases v) (simp add: vsn_step.simps step_dot_def mk_vst_def advance_def)
  then show ?thesis by (simp add: yields_Inr)
next
  case S_PRECISION
  then have "vsn_step fo siz (mk_vst v o') = bindR (step_precision v) (\<lambda>v. Inr (mk_vst v o'))" for siz o'
    by (cases v; cases "va_int (v_args v)") (auto simp: vsn_step.simps step_precision_def mk_vst_def advance_def Let_def)
  then show ?thesis by (simp add: yields_Inr yields_pure)
next
  case S_MOD
  then have "vsn_step fo siz (mk_vst v o') = Inr (mk_vst (step_mod v) o')" for siz o'
    by (cases v) (simp add: vsn_step.simps step_mod_def mk_vst_def Let_def)
  then show ?thesis by (simp add: yields_Inr)
next
  case S_CONV
  then have "vsn_step fo siz (mk_vst v o') = bindR (conversion fo siz (hd (v_fmt v)) (v\<lparr>v_out := o'\<rparr>)) (\<lambda>(args, o', stores, overflow).
       if overflow then Inr (mk_vst (v\<lparr>v_args := args, v_stores := stores, v_overflow := True\<rparr>) o')
       else Inr (mk_vst (advance (v\<lparr>v_args := args, v_stores := stores, v_state := S_DEFAULT, v_cflags := C_NONE,
              v_flags := no_flags, v_width := 0, v_precision := - 1\<rparr>)) o'))" for siz o'
    by (cases "conversion fo siz (hd (v_fmt v)) (v\<lparr>v_out := o'\<rparr>)"; cases v) (auto simp: vsn_step.simps step_conv_def mk_vst_def advance_def)
  moreover have "yields mk_vst n (\<lambda>siz o'. bindR (conversion fo siz (hd (v_fmt v)) (v\<lparr>v_out := o'\<rparr>)) (\<lambda>(args, o', stores, overflow).
       if overflow then Inr (mk_vst (v\<lparr>v_args := args, v_stores := stores, v_overflow := True\<rparr>) o')
       else Inr (mk_vst (advance (v\<lparr>v_args := args, v_stores := stores, v_state := S_DEFAULT, v_cflags := C_NONE,
              v_flags := no_flags, v_width := 0, v_precision := - 1\<rparr>)) o')))"
    by (rule yields_bind [OF yields_conversion]) (auto simp: mk_conv_def split: prod.split intro!: yields_if yields_Inr)
  ultimately show ?thesis by simp
qed

lemma mk_vst_simps [simp]:
  "v_fmt (mk_vst v o') = v_fmt v" "v_overflow (mk_vst v o') = v_overflow v" "v_out (mk_vst v o') = o'" "v_stores (mk_vst v o') = v_stores v"
  "vsn_measure (mk_vst v o') = vsn_measure v"
  by (simp_all add: mk_vst_def vsn_measure_def)

lemma yields_loop: "yields mk_vst n (\<lambda>siz o'. vsn_loop fo siz (mk_vst v o'))"
proof (induction "vsn_measure v" arbitrary: n v rule: less_induct)
  case less
  show ?case
  proof (cases "v_fmt v = [] \<or> v_overflow v")
    case True
    then show ?thesis by (simp add: vsn_loop.simps yields_Inr)
  next
    case False
    obtain r where r: "\<And>siz o'. siz \<le> length (o_str o') \<Longrightarrow> o_len o' = n \<Longrightarrow>
        vsn_step fo siz (mk_vst v o') = bindR r (\<lambda>(t, x). Inr (mk_vst x (put siz t o')))"
      using yields_step [of n fo v] unfolding yields_def by blast
    have "yields mk_vst n (\<lambda>siz o'. bindR (vsn_step fo siz (mk_vst v o')) (vsn_loop fo siz))"
    proof (cases r)
      case (Inl f)
      then show ?thesis by (intro yieldsI [of _ _ "Inl f"]) (simp add: r)
    next
      case (Inr tx)
      obtain t v' where tx: "tx = (t, v')" by fastforce
      have "vsn_step fo 0 (mk_vst v \<lparr>o_str = [], o_len = n\<rparr>) = Inr (mk_vst v' (put 0 t \<lparr>o_str = [], o_len = n\<rparr>))"
        using r [of 0] Inr tx by simp
      from vsn_step_measure [OF this] False have "vsn_measure v' < vsn_measure v" by simp
      from less [OF this] obtain r' where "\<And>siz o'. siz \<le> length (o_str o') \<Longrightarrow> o_len o' = n + length t \<Longrightarrow>
          vsn_loop fo siz (mk_vst v' o') = bindR r' (\<lambda>(t, x). Inr (mk_vst x (put siz t o')))"
        unfolding yields_def by blast
      then show ?thesis
        by (intro yieldsI [of _ _ "bindR r' (\<lambda>(t', x). Inr (t @ t', x))"]) (cases r'; auto simp: r Inr tx)
    qed
    then show ?thesis using False by (simp add: vsn_loop.simps [of fo _ "mk_vst v _"])
  qed
qed

section \<open>The contract of \<open>rpl_vsnprintf\<close>\<close>

definition no_room :: outbuf where
  "no_room = \<lparr>o_str = [], o_len = 0\<rparr>"

lemma vsn_start_out: "vsn_start format args o' = mk_vst (vsn_start format args no_room) o'"
  by (simp add: vsn_start_def mk_vst_def)

definition outcome :: "bool \<Rightarrow> (64 word \<times> cmod \<times> nat) list \<Rightarrow> char list \<Rightarrow> char list \<Rightarrow> vsn_result" where
  "outcome overflow stores full str =
     \<lparr>r_ret = (if overflow \<or> INT_MAX \<le> int (length full) then - 1 else int (length full)),
      r_errno = (if overflow then Some EOVERFLOW else if INT_MAX \<le> int (length full) then Some ERANGE else None),
      r_str = str, r_stores = stores\<rparr>"

lemma finish_put:
  assumes "siz \<le> length buf"
  shows "vsn_finish siz (mk_vst v (put siz full \<lparr>o_str = buf, o_len = 0\<rparr>)) =
    Inr (outcome (v_overflow v) (v_stores v) full (fst (snprintf buf siz full)))"
proof (cases "siz = 0")
  case True
  then show ?thesis using put_str [of 0 "\<lparr>o_str = buf, o_len = 0\<rparr>" full] by (simp add: vsn_finish_def outcome_def snprintf_def Let_def)
next
  case False
  let ?n = "min (length full) (siz - 1)"
  have pos: "(if length full < siz then length full else siz - 1) = ?n" using False by auto
  have str: "o_str (put siz full \<lparr>o_str = buf, o_len = 0\<rparr>) = take ?n full @ drop ?n buf"
    using put_str [of siz "\<lparr>o_str = buf, o_len = 0\<rparr>" full] assms by (simp add: Let_def)
  have lt: "?n < length buf" using False assms by auto
  have "(take ?n full @ drop ?n buf)[?n := NUL] = take ?n full @ (drop ?n buf)[0 := NUL]"
    by (simp add: list_update_append)
  also have "(drop ?n buf)[0 := NUL] = NUL # drop (Suc ?n) buf" using lt by (simp add: Cons_nth_drop_Suc [symmetric])
  finally have upd: "(take ?n full @ drop ?n buf)[?n := NUL] = take (siz - 1) full @ NUL # drop (Suc ?n) buf"
    by (simp add: min_def)
  have "snprintf buf siz full = (take (siz - 1) full @ NUL # drop (Suc ?n) buf, int (length full))"
    using False by (simp add: snprintf_def Let_def)
  moreover have "vsn_finish siz (mk_vst v (put siz full \<lparr>o_str = buf, o_len = 0\<rparr>)) =
      Inr (outcome (v_overflow v) (v_stores v) full ((take ?n full @ drop ?n buf)[?n := NUL]))"
    unfolding vsn_finish_def Let_def mk_vst_simps put_sel outbuf.simps add_0 pos str using False lt assms by (auto simp: outcome_def)
  ultimately show ?thesis using upd by simp
qed

lemma vsnprintf_text:
  "(\<exists>f. \<forall>str siz. siz \<le> length str \<longrightarrow> rpl_vsnprintf fo (Some str) siz format args = Inl f \<and> rpl_vsnprintf fo None siz format args = Inl f)
   \<or> (\<exists>overflow stores full. \<forall>str siz. siz \<le> length str \<longrightarrow>
        rpl_vsnprintf fo (Some str) siz format args = Inr (outcome overflow stores full (fst (snprintf str siz full)))
        \<and> rpl_vsnprintf fo None siz format args = Inr (outcome overflow stores full []))"
proof -
  obtain r where r: "\<And>siz o'. siz \<le> length (o_str o') \<Longrightarrow> o_len o' = 0 \<Longrightarrow>
      vsn_loop fo siz (vsn_start format args o') = bindR r (\<lambda>(t, x). Inr (mk_vst x (put siz t o')))"
    using yields_loop [of 0 fo "vsn_start format args no_room"] unfolding yields_def vsn_start_out [of format args, symmetric] by blast
  have snp: "snprintf [] 0 full = ([], int (length full))" for full by (simp add: snprintf_def)
  show ?thesis
  proof (cases r)
    case (Inl f)
    then show ?thesis by (auto simp: rpl_vsnprintf_def Let_def r)
  next
    case (Inr tx)
    obtain t v' where tx: "tx = (t, v')" by fastforce
    from finish_put [of 0 "[]" v' t] show ?thesis
      by (intro disjI2 exI [of _ "v_overflow v'"] exI [of _ "v_stores v'"] exI [of _ t])
         (simp add: rpl_vsnprintf_def Let_def r Inr tx finish_put snp)
  qed
qed

section \<open>The texts of some conversions\<close>

lemma hexdigit_eq: "d < 16 \<Longrightarrow> hexdigit False d = digit_char d"
proof -
  have "list_all (\<lambda>d. hexdigit False d = digit_char d) [0..<16]" by code_simp
  then show "d < 16 \<Longrightarrow> hexdigit False d = digit_char d" by (simp add: list_all_iff)
qed

lemma convert_show:
  "2 \<le> base \<Longrightarrow> base \<le> 16 \<Longrightarrow> 0 < siz \<Longrightarrow> n < base ^ siz \<Longrightarrow> rev (convert n siz base False) = show_nat base n"
proof (induction n siz base False rule: convert.induct)
  case (1 n siz base)
  have digit: "hexdigit False (n mod base) = digit_char (n mod base)"
    using "1.prems" by (intro hexdigit_eq) (meson less_le_trans mod_less_divisor zero_less_numeral less_le_trans)
  show ?case
  proof (cases "n < base")
    case True
    with digit show ?thesis using "1.prems" by (simp add: convert.simps [of n] show_nat.simps [of base n])
  next
    case False
    then have ne: "n div base \<noteq> 0" using "1.prems"(1) by (simp add: div_eq_0_iff)
    have "1 < siz" using False "1.prems" by (cases siz; cases "siz - 1") auto
    moreover then have "n div base < base ^ (siz - 1)" using "1.prems" by (cases siz) (auto simp: less_mult_imp_div_less mult.commute)
    ultimately show ?thesis
      using "1.hyps" [of ] "1.prems" ne False digit by (simp add: convert.simps [of n] show_nat.simps [of base n])
  qed
qed

lemma digits_loop_plain:
  "siz \<le> length (o_str o') \<Longrightarrow> pos \<le> length buf \<Longrightarrow> digits_loop siz False buf pos o' = Inr (put siz (rev (take pos buf)) o')"
  by (induction pos arbitrary: o') (simp_all add: OUTCHAR_put take_Suc_conv_app_nth)

lemma no_flags_simps [simp]:
  "\<not> F_MINUS no_flags" "\<not> F_PLUS no_flags" "\<not> F_SPACE no_flags" "\<not> F_NUM no_flags" "\<not> F_ZERO no_flags" "\<not> F_QUOTE no_flags"
  "\<not> F_UP no_flags" "\<not> F_UNSIGNED no_flags" "\<not> F_TYPE_G no_flags" "\<not> F_TYPE_E no_flags"
  by (simp_all add: no_flags_def)

lemma spaces_simps [simp]: "n \<le> 0 \<Longrightarrow> spaces n = []" "n \<le> 0 \<Longrightarrow> zeros n = []"
  by (simp_all add: spaces_def zeros_def)

lemma convert_ne [simp]: "convert n siz base caps \<noteq> []"
  by (simp add: convert.simps)

lemma length_convert: "length (convert n siz base caps) \<le> Suc siz"
proof (induction n siz base caps rule: convert.induct)
  case (1 n siz base caps)
  then show ?case by (simp add: convert.simps [of n])
qed

lemma convert_fits:
  "\<not> 2147483647 < length (convert n MAX_CONVERT_LENGTH base caps)" "\<not> 2147483648 < length (convert n MAX_CONVERT_LENGTH base caps)"
  using length_convert [of n MAX_CONVERT_LENGTH base caps] by (simp_all add: MAX_CONVERT_LENGTH_def)

lemma u64_convert:
  assumes "8 \<le> base" "base \<le> 16"
  shows "rev (convert (unat (w :: 64 word)) MAX_CONVERT_LENGTH base False) = show_nat base (unat w)"
proof -
  have "unat w < 2 ^ 64" using unsigned_less [where 'a = nat, of w] by simp
  also have "(2 :: nat) ^ 64 \<le> 8 ^ 43" by simp
  also have "(8 :: nat) ^ 43 \<le> base ^ 43" using assms(1) by (rule power_mono) simp
  finally show ?thesis using assms by (intro convert_show) (simp_all add: MAX_CONVERT_LENGTH_def)
qed

lemma unat_of_sint:
  assumes "0 \<le> k" "k < 2 ^ 64" "w = word_of_int k"
  shows "unat (w :: 64 word) = nat k"
  unfolding unat_eq_nat_uint assms(3) uint_word_of_int_eq using assms(1,2) by (simp add: take_bit_int_eq_self)

lemma sint_range: "- (2 ^ 63) \<le> sint (w :: 64 word)" "sint w < 2 ^ 63"
  using sint_greater_eq [of w] sint_less [of w] by simp_all

lemma unat_neg: "sint (w :: 64 word) < 0 \<Longrightarrow> unat (- w) = nat (- sint w)"
  using sint_range [of w] by (intro unat_of_sint) simp_all

lemma unat_pos: "0 \<le> sint (w :: 64 word) \<Longrightarrow> unat w = nat (sint w)"
  using sint_range [of w] by (intro unat_of_sint) simp_all

lemma fmtint_decimal:
  assumes "siz \<le> length (o_str o')" "sint val \<noteq> - (2 ^ 63)"
  shows "fmtint siz val 10 0 (- 1) no_flags o' = Inr (put siz (show_int (sint val)) o')"
proof (cases "sint val < 0")
  case True
  then have "rev (convert (unat (- val)) MAX_CONVERT_LENGTH 10 False) = show_nat 10 (nat (- sint val))"
    using u64_convert [of 10 "- val"] unat_neg [OF True] by simp
  with True assms show ?thesis
    by (simp add: fmtint_def Let_def OUTCHAR_put OUTCHARS_put digits_loop_plain show_int_def convert_fits)
next
  case False
  then have "rev (convert (unat val) MAX_CONVERT_LENGTH 10 False) = show_nat 10 (nat (sint val))"
    using u64_convert [of 10 val] unat_pos [of val] by simp
  with False assms show ?thesis
    by (simp add: fmtint_def Let_def OUTCHAR_put OUTCHARS_put digits_loop_plain show_int_def convert_fits)
qed

lemma fmtint_hex16:
  assumes "siz \<le> length (o_str o')"
  shows "fmtint siz val 16 16 (- 1) (no_flags\<lparr>F_ZERO := True, F_UNSIGNED := True\<rparr>) o' = Inr (put siz (show_016x val) o')"
proof -
  have c: "rev (convert (unat val) MAX_CONVERT_LENGTH 16 False) = show_nat 16 (unat val)"
    by (rule u64_convert) simp_all
  then have len: "length (convert (unat val) MAX_CONVERT_LENGTH 16 False) = length (show_nat 16 (unat val))"
    by (metis length_rev)
  have "length (show_nat 16 (unat val)) \<le> Suc 15"
    using unsigned_less [where 'a = nat, of val] by (intro length_show_nat) simp_all
  with c len assms show ?thesis
    by (simp add: fmtint_def Let_def OUTCHAR_put OUTCHARS_put digits_loop_plain show_016x_def zeros_def max_def nat_diff_distrib convert_fits)
qed

subsection \<open>Formats\<close>

lemmas vsn_steps = vsn_step.simps step_default_def step_flags_def step_width_def step_dot_def step_precision_def step_mod_def
  step_conv_def conversion_def conv_int_def conv_n_def advance_def ISDIGIT_def Let_def

text \<open>Between two conversions the state is the initial one; the text so far is in the buffer.\<close>

definition between :: "char list \<Rightarrow> 'f arg list \<Rightarrow> (64 word \<times> cmod \<times> nat) list \<Rightarrow> outbuf \<Rightarrow> 'f vst" where
  "between fmt args stores o' =
     \<lparr>v_fmt = fmt, v_args = args, v_out = o', v_overflow = False, v_cflags = C_NONE, v_flags = no_flags,
      v_width = 0, v_precision = - 1, v_state = S_DEFAULT, v_stores = stores\<rparr>"

lemma vsn_Nil: "vsn_loop fo siz (between [] args st o') = Inr (between [] args st o')"
  by (simp add: vsn_loop.simps between_def)

lemma vsn_more: "v_fmt v \<noteq> [] \<Longrightarrow> \<not> v_overflow v \<Longrightarrow> vsn_loop fo siz v = bindR (vsn_step fo siz v) (vsn_loop fo siz)"
  by (simp add: vsn_loop.simps [of fo siz v])

lemma vsn_lit:
  assumes "CHR ''%'' \<notin> set s" "siz \<le> length (o_str o')"
  shows "vsn_loop fo siz (between (s @ fmt) args st o') = vsn_loop fo siz (between fmt args st (put siz s o'))"
  using assms
proof (induction s arbitrary: o')
  case (Cons c s)
  have "vsn_loop fo siz (between ((c # s) @ fmt) args st o') = vsn_loop fo siz (between (s @ fmt) args st (put1 siz c o'))"
    using Cons.prems by (auto simp: vsn_more between_def vsn_steps OUTCHAR_put)
  with Cons show ?case by simp
qed simp

lemma vsn_lld:
  assumes "siz \<le> length (o_str o')" "sint w \<noteq> - (2 ^ 63)"
  shows "vsn_loop fo siz (between (''%lld'' @ fmt) (AInt w # args) st o') = vsn_loop fo siz (between fmt args st (put siz (show_int (sint w)) o'))"
  using fmtint_decimal [OF assms] by (simp add: vsn_more between_def vsn_steps)

lemma vsn_016lx:
  assumes "siz \<le> length (o_str o')"
  shows "vsn_loop fo siz (between (''%016lx'' @ fmt) (AInt w # args) st o') = vsn_loop fo siz (between fmt args st (put siz (show_016x w) o'))"
  using fmtint_hex16 [OF assms] by (simp add: vsn_more between_def vsn_steps INT_MAX_def CHARTOINT_def)

lemma vsn_c:
  assumes "siz \<le> length (o_str o')"
  shows "vsn_loop fo siz (between (''%c'' @ fmt) (AInt w # args) st o') = vsn_loop fo siz (between fmt args st (put siz [char_of (unat w mod 256)] o'))"
  using OUTCHAR_put [OF assms] by (simp add: vsn_more between_def vsn_steps)

lemma strln_string: "NUL \<notin> set s \<Longrightarrow> n + int (length s) \<le> INT_MAX \<Longrightarrow> strln_loop (s @ NUL # rest) True p n = Inr (n + int (length s))"
  by (induction s arbitrary: n) auto

lemma copy_string:
  "NUL \<notin> set s \<Longrightarrow> siz \<le> length (o_str o') \<Longrightarrow> copy_loop siz (s @ NUL # rest) True p o' = Inr (put siz s o')"
  by (induction s arbitrary: o' p) (auto simp: OUTCHAR_put)

lemma vsn_s:
  assumes "siz \<le> length (o_str o')" "NUL \<notin> set s" "int (length s) \<le> INT_MAX"
  shows "vsn_loop fo siz (between (''%s'' @ fmt) (AStr (Some (s @ NUL # rest)) # args) st o') = vsn_loop fo siz (between fmt args st (put siz s o'))"
  using assms strln_string [of s 0 rest "- 1"] copy_string [of s siz o' rest "- 1"]
  by (simp add: vsn_more between_def vsn_steps fmtstr_def)

lemma vsn_null:
  assumes "siz \<le> length (o_str o')"
  shows "vsn_loop fo siz (between (''%s'' @ fmt) (AStr None # args) st o') = vsn_loop fo siz (between fmt args st (put siz ''(null)'' o'))"
  using assms strln_string [of "''(null)''" 0 "[]" "- 1"] copy_string [of "''(null)''" siz o' "[]" "- 1"]
  by (simp add: vsn_more between_def vsn_steps fmtstr_def INT_MAX_def)

lemma strln_prefix:
  "NUL \<notin> set s \<Longrightarrow> mem \<noteq> [] \<Longrightarrow> p = n + int (length s) \<Longrightarrow> p \<le> INT_MAX \<Longrightarrow> strln_loop (s @ mem) False p n = Inr p"
  by (induction s arbitrary: n) (cases mem, auto)

lemma copy_prefix:
  "NUL \<notin> set s \<Longrightarrow> mem \<noteq> [] \<Longrightarrow> siz \<le> length (o_str o') \<Longrightarrow> copy_loop siz (s @ mem) False (int (length s)) o' = Inr (put siz s o')"
  by (induction s arbitrary: o') (cases mem, auto simp: OUTCHAR_put)

lemma vsn_prec_s:
  assumes "siz \<le> length (o_str o')" "NUL \<notin> set s" "mem \<noteq> []" "int (length s) \<le> INT_MAX" "int_of_slot w = int (length s)"
  shows "vsn_loop fo siz (between (''%.*s'' @ fmt) (AInt w # AStr (Some (s @ mem)) # args) st o') = vsn_loop fo siz (between fmt args st (put siz s o'))"
  using assms strln_prefix [of s mem "int (length s)" 0] copy_prefix [of s mem siz o']
  by (simp add: vsn_more between_def vsn_steps fmtstr_def)

text \<open>A run of the loop from the start that ends between two conversions gives the result of the call.\<close>

lemma rpl_vsnprintf_run:
  assumes "siz \<le> length str" "int (length full) < INT_MAX" "NUL \<notin> set format"
    and "vsn_loop fo siz (between format args [] \<lparr>o_str = str, o_len = 0\<rparr>) = Inr (between [] args' st (put siz full \<lparr>o_str = str, o_len = 0\<rparr>))"
  shows "rpl_vsnprintf fo (Some str) siz format args =
    Inr \<lparr>r_ret = int (length full), r_errno = None, r_str = fst (snprintf str siz full), r_stores = st\<rparr>"
proof -
  have start: "vsn_start format args o' = between format args [] o'" for o'
    using assms(3) by (auto simp: vsn_start_def between_def cstr_def takeWhile_eq_all_conv)
  from finish_put [OF assms(1), of "between [] args' st no_room" full] assms(2)
  have "vsn_finish siz (between [] args' st (put siz full \<lparr>o_str = str, o_len = 0\<rparr>)) =
      Inr \<lparr>r_ret = int (length full), r_errno = None, r_str = fst (snprintf str siz full), r_stores = st\<rparr>"
    by (simp add: mk_vst_def between_def outcome_def)
  with assms(4) show ?thesis by (simp add: rpl_vsnprintf_def start)
qed

section \<open>Properties\<close>

text \<open>
  C20: The C99 contract of \<open>vsnprintf\<close>. If a dry run without a buffer returns, then there is a text such that every call with a
  buffer of at least the stated size returns the same value, makes the same stores through \<open>%n\<close>, stays inside the buffer, and leaves there as
  much of the text as fits, terminated by NUL (\<open>snprintf\<close> of the reference). The value returned is the length of the
  text, or -1 together with an errno when a number is too large or the text too long.
\<close>

theorem vsnprintf_contract:
  assumes "rpl_vsnprintf fo None 0 format args = Inr r"
  shows "\<exists>full. r_ret r = (if r_errno r = None then int (length full) else - 1) \<and> (r_errno r = None \<longrightarrow> int (length full) < INT_MAX)
    \<and> (\<forall>str siz. siz \<le> length str \<longrightarrow> rpl_vsnprintf fo (Some str) siz format args = Inr (r\<lparr>r_str := fst (snprintf str siz full)\<rparr>))"
  using vsnprintf_text [of fo format args]
proof (elim disjE exE)
  fix f assume "\<forall>str siz. siz \<le> length str \<longrightarrow> rpl_vsnprintf fo (Some str) siz format args = Inl f \<and> rpl_vsnprintf fo None siz format args = Inl f"
  then have "rpl_vsnprintf fo None 0 format args = Inl f" by (metis le0)
  with assms show ?thesis by simp
next
  fix overflow stores full
  assume all: "\<forall>str siz. siz \<le> length str \<longrightarrow>
      rpl_vsnprintf fo (Some str) siz format args = Inr (outcome overflow stores full (fst (snprintf str siz full)))
      \<and> rpl_vsnprintf fo None siz format args = Inr (outcome overflow stores full [])"
  then have "rpl_vsnprintf fo None 0 format args = Inr (outcome overflow stores full [])" by (metis le0)
  with assms have "r = outcome overflow stores full []" by simp
  with all show ?thesis by (intro exI [of _ full]) (auto simp: outcome_def)
qed

theorem vsnprintf_contract_witness:
  "\<exists>full. rpl_vsnprintf no_float (Some ''......'') 3 ''%d%%'' [AInt 50] =
       Inr \<lparr>r_ret = 3, r_errno = None, r_str = fst (snprintf ''......'' 3 full), r_stores = []\<rparr> \<and> length full = 3"
proof -
  have "rpl_vsnprintf no_float None 0 ''%d%%'' [AInt 50] = Inr \<lparr>r_ret = 3, r_errno = None, r_str = [], r_stores = []\<rparr>" by code_simp
  from vsnprintf_contract [OF this] show ?thesis by fastforce
qed

lemma vsn_lld_overflow:
  assumes "sint w = - (2 ^ 63)"
  shows "rpl_vsnprintf fo str siz ''%lld'' [AInt w] = Inl SignedOverflow"
proof -
  have "vsn_loop fo n (between ''%lld'' [AInt w] [] o') = Inl SignedOverflow" for n o'
    using assms by (simp add: vsn_more between_def vsn_steps fmtint_def)
  then show ?thesis by (simp add: rpl_vsnprintf_def vsn_start_def between_def cstr_def split: option.split)
qed

text \<open>
  C29: The replacement formats as the reference does: \<open>%lld\<close> gives the decimal numeral of every \<open>long long\<close> but the smallest, for which
  the negation in \<open>fmtint\<close> overflows; \<open>%016lx\<close> gives the sixteen hexadecimal digits of every \<open>unsigned long\<close>. Buffer and return value are
  those of \<open>snprintf\<close> with this text, for a buffer at least as long as the size passed.
\<close>

theorem vsnprintf_equals_reference:
  assumes "siz \<le> length str"
  shows "rpl_vsnprintf fo (Some str) siz ''%lld'' [AInt w] =
      (if sint w = - (2 ^ 63) then Inl SignedOverflow
       else Inr \<lparr>r_ret = snd (snprintf str siz (show_int (sint w))), r_errno = None, r_str = fst (snprintf str siz (show_int (sint w))), r_stores = []\<rparr>)
    \<and> rpl_vsnprintf fo (Some str) siz ''%016lx'' [AInt w] =
      Inr \<lparr>r_ret = snd (snprintf str siz (show_016x w)), r_errno = None, r_str = fst (snprintf str siz (show_016x w)), r_stores = []\<rparr>"
proof -
  have ret: "snd (snprintf str siz full) = int (length full)" for full by (simp add: snprintf_def Let_def)
  have "int (length (show_016x w)) < INT_MAX" by (simp add: INT_MAX_def length_show_016x)
  then have hex: "rpl_vsnprintf fo (Some str) siz ''%016lx'' [AInt w] =
      Inr \<lparr>r_ret = snd (snprintf str siz (show_016x w)), r_errno = None, r_str = fst (snprintf str siz (show_016x w)), r_stores = []\<rparr>"
    using assms vsn_016lx [of siz "\<lparr>o_str = str, o_len = 0\<rparr>" fo "[]" w "[]" "[]"]
    unfolding ret by (intro rpl_vsnprintf_run) (simp_all add: vsn_Nil)
  show ?thesis
  proof (cases "sint w = - (2 ^ 63)")
    case True
    with hex vsn_lld_overflow [OF True, of fo "Some str" siz] show ?thesis by simp
  next
    case False
    have "length (show_int (sint w)) \<le> Suc (Suc 19)" by (rule length_show_int) (use sint_range [of w] in simp_all)
    then have "int (length (show_int (sint w))) < INT_MAX" by (simp add: INT_MAX_def)
    then have "rpl_vsnprintf fo (Some str) siz ''%lld'' [AInt w] =
        Inr \<lparr>r_ret = snd (snprintf str siz (show_int (sint w))), r_errno = None, r_str = fst (snprintf str siz (show_int (sint w))), r_stores = []\<rparr>"
      using assms False vsn_lld [of siz "\<lparr>o_str = str, o_len = 0\<rparr>" w fo "[]" "[]" "[]"]
      unfolding ret by (intro rpl_vsnprintf_run) (simp_all add: vsn_Nil)
    with hex False show ?thesis by simp
  qed
qed

theorem vsnprintf_equals_reference_witness:
  "rpl_vsnprintf no_float (Some (replicate 20 NUL)) 20 ''%lld'' [AInt 30] =
     Inr \<lparr>r_ret = 2, r_errno = None, r_str = ''30'' @ replicate 18 NUL, r_stores = []\<rparr>"
proof -
  have "snprintf (replicate 20 NUL) 20 (show_int 30) = (''30'' @ replicate 18 NUL, 2)" by code_simp
  with vsnprintf_equals_reference [of 20 "replicate 20 NUL" no_float 30] show ?thesis by simp
qed

text \<open>
  \<open>rpl_vasprintf\<close> on top of \<open>rpl_vsnprintf\<close>: a buffer it returns holds the whole text and its NUL, and nothing else.
\<close>

lemma vasprintf_exact:
  assumes "\<And>n mem. fresh n = Some mem \<Longrightarrow> length mem = n"
    and "rpl_vasprintf (rpl_vsnprintf fo) fresh format args = Inr (n, Some buf)"
  shows "\<exists>full. n = int (length full) \<and> buf = full @ [NUL]"
proof -
  obtain overflow stores full where full: "\<And>str siz. siz \<le> length str \<Longrightarrow>
        rpl_vsnprintf fo (Some str) siz format args = Inr (outcome overflow stores full (fst (snprintf str siz full)))"
      "rpl_vsnprintf fo None 0 format args = Inr (outcome overflow stores full [])"
  proof (cases "rpl_vsnprintf fo None 0 format args")
    case (Inl f)
    with assms(2) show ?thesis by (simp add: rpl_vasprintf_def)
  next
    case (Inr r)
    with vsnprintf_text [of fo format args] that show ?thesis by (metis le0 sum.distinct(1))
  qed
  obtain mem where mem: "0 \<le> r_ret (outcome overflow stores full [])" "fresh (nat (r_ret (outcome overflow stores full []) + 1)) = Some mem"
      "bindR (rpl_vsnprintf fo (Some mem) (nat (r_ret (outcome overflow stores full []) + 1)) format args) (\<lambda>r2. Inr (r_ret r2, Some (r_str r2)))
       = Inr (n, Some buf)"
    using assms(2) full(2) by (auto simp: rpl_vasprintf_def split: if_splits option.splits)
  then have ret: "r_ret (outcome overflow stores full s) = int (length full)" for s by (auto simp: outcome_def split: if_splits)
  have "length mem = Suc (length full)" using assms(1) [OF mem(2)] ret by (simp add: nat_add_distrib)
  with mem(3) full(1) ret show ?thesis by (auto simp: nat_add_distrib snprintf_def outcome_def)
qed

text \<open>
  A string argument of \<open>%.*s\<close> need not be terminated within the precision, but the byte behind the precision is read
  all the same.
\<close>

lemma precision_reads_past:
  "rpl_vsnprintf no_float (Some ''......'') 6 ''%.3s'' [AStr (Some ''abc'')] = Inl OutOfBounds"
  by code_simp

end
