(* ===== verification/Cli_Props.thy ===== *)
theory Cli_Props
  imports Cli Scheduler_Props Snprintf_Props
begin

text \<open>
  The properties of the option parser and of the command line tool, and the way of a time
  quantum from the command line to the scheduler.
\<close>

section \<open>Parsing\<close>

lemma cli_ctx_simps [simp]:
  "xc_options cli_ctx = take 3 cli_options" "xc_flags cli_ctx = cli_flags"
  by (simp_all add: cli_ctx_def xopt_context_def cli_options_def)

lemma cli_flags_simps [simp]:
  "\<not> KEEPFIRST cli_flags" "POSIXMEHARDER cli_flags" "\<not> NOCONDENSE cli_flags" "\<not> SLOPPYSHORTS cli_flags" "STRICT cli_flags"
  by (simp_all add: cli_flags_def)

definition plain :: "string \<Rightarrow> bool" where
  "plain v \<longleftrightarrow> (case v of [] \<Rightarrow> True | c # _ \<Rightarrow> c \<noteq> CHR ''-'')"

lemma plain_size [simp]: "plain v \<Longrightarrow> xopt_get_size v = 0"
  by (cases v) (auto simp: plain_def xopt_get_size_def)

lemma xopt_missing_none [simp]: "\<not> True \<in> set rs \<Longrightarrow> xopt_missing data opts rs = None"
  by (induction data opts rs rule: xopt_missing.induct) auto

lemma cli_required [simp]: "map x_required (take 3 cli_options) = [False, False, False]"
  by (simp add: cli_options_def)

lemma parse_short_T:
  assumes "plain v" "v \<noteq> []" "strto_end (strtoll v) = length v"
  shows "xopt_parse strtod cli_ctx [prog, ''-T'', v] Map.empty = Inr ([], Map.empty(OFF_TQ \<mapsto> VInt (to_int32 (strto_value (strtoll v)))))"
  using assms plain_size [OF assms(1), unfolded xopt_get_size_def]
  by (simp add: xopt_parse_def xopt_loop.simps xopt_parse_arg_def xopt_get_size_def xopt_shorts.simps xopt_get_arg_def cli_options_def
      xopt_matches_def xopt_set_def xopt_default_callback_def Let_def)

lemma parse_long_T:
  assumes "v \<noteq> []" "strto_end (strtoll v) = length v"
  shows "xopt_parse strtod cli_ctx [prog, ''--set-tq='' @ v] Map.empty = Inr ([], Map.empty(OFF_TQ \<mapsto> VInt (to_int32 (strto_value (strtoll v)))))"
  using assms
  by (cases v) (simp_all add: xopt_parse_def xopt_loop.simps xopt_parse_arg_def xopt_get_size_def xopt_long_def xopt_get_arg_def cli_options_def
      xopt_matches_def xopt_set_def xopt_default_callback_def Let_def)

lemma show_int_plain: "0 \<le> n \<Longrightarrow> plain (show_int n)"
  using hd_show_nat_digit [of 10 "nat n"] not_digit_chars [of 10 "hd (show_nat 10 (nat n))"] show_nat_ne [of 10 "nat n"]
  by (cases "show_nat 10 (nat n)") (auto simp: plain_def show_int_def)

lemma show_int_ne [simp]: "show_int n \<noteq> []"
  by (simp add: show_int_def)

lemma strtoll_int32:
  assumes "- (2 ^ 31) \<le> n" "n < 2 ^ 31"
  shows "strtoll (show_int n) = \<lparr>strto_value = n, strto_end = length (show_int n), strto_erange = False\<rparr>"
  using assms by (intro strtoll_show_int) (simp_all add: LLONG_MIN_def LLONG_MAX_def)

lemma parse_long_T_int:
  assumes "- (2 ^ 31) \<le> n" "n < 2 ^ 31"
  shows "xopt_parse strtod cli_ctx [prog, ''--set-tq='' @ show_int n] Map.empty = Inr ([], Map.empty(OFF_TQ \<mapsto> VInt n))"
  using assms by (subst parse_long_T) (simp_all add: strtoll_int32 to_int32_id)

lemma tq_data:
  assumes "- (2 ^ 31) \<le> n" "n < 2 ^ 31"
  shows "cstr (m_data (tq_msg n)) = show_int n" "NUL \<in> set (m_data (tq_msg n))" "length (m_data (tq_msg n)) = MSG_DATA_LEN"
proof -
  have "length (show_int n) \<le> Suc (Suc 9)" by (rule length_show_int) (use assms in simp_all)
  moreover have "cstr (show_int n @ NUL # xs) = show_int n" for xs using show_int_no_NUL [of n] by simp
  ultimately show "cstr (m_data (tq_msg n)) = show_int n" "NUL \<in> set (m_data (tq_msg n))" "length (m_data (tq_msg n)) = MSG_DATA_LEN"
    by (simp_all add: tq_msg_def snprintf_def Let_def zero_message_def msg_sizes)
qed

section \<open>What a request puts on the wire\<close>

lemma nvshare_unix_connect_sent:
  "post (nvshare_unix_connect p k) (\<lambda>(r, sock, e, k'). sent_to fd k' = sent_to fd k)"
  by (auto simp: nvshare_unix_connect_def post sent_to_def sent_by_def split: prod.splits)

lemma nvshare_connect_sent:
  "nvshare_connect p k = Inr (r, sock, e, k') \<Longrightarrow> sent_to fd k' = sent_to fd k"
proof (induction p k rule: nvshare_connect.induct)
  case (1 p k)
  then obtain r1 s1 e1 k1 where c: "nvshare_unix_connect p k = Inr (r1, s1, e1, k1)"
    by (subst (asm) (2) nvshare_connect.simps) (auto simp: bindR_Inr_iff)
  with "1.prems" "1.IH" [OF c refl refl refl] post_D [OF nvshare_unix_connect_sent c, of fd] show ?case
    by (auto simp: nvshare_connect.simps [of p k] split: if_splits)
qed

lemma request_sent:
  assumes "request path msg k = Inr (r, k')" "message_ok msg"
  shows "r = 0 \<and> (\<exists>fd. sent_to fd k' = sent_to fd k @ encode_message msg)
    \<or> r = - 1 \<and> (\<exists>fd j. sent_to fd k' = sent_to fd k @ take j (encode_message msg))"
proof -
  obtain fd e k1 n k2 a where c: "nvshare_connect path k = Inr (0, fd, e, k1)"
      and w: "write_whole fd (encode_message msg) k1 = Inr (n, k2)"
      and cl: "sys (Sys_close fd) k2 = Inr (a, k')"
      and r: "r = (if n \<noteq> int sizeof_message then - 1 else 0)"
    using assms(1) by (auto simp: request_def bindR_Inr_iff Let_def split: if_splits)
  have "sent_to fd k' = sent_to fd k2" using cl by (auto simp: sys_Inr_iff sent_to_snoc)
  with nvshare_connect_sent [OF c, of fd] write_whole_transmits [OF w] assms(2) show ?thesis
    unfolding r by (auto, blast)
qed

section \<open>Properties of the option parser\<close>

lemma xopt_loop_doubledash:
  "xs_doubledash s \<Longrightarrow> argi \<le> length argv \<Longrightarrow> xopt_loop strtod ctx argv argi extras s = Inr (extras @ drop argi argv, s)"
proof (induction "length argv - argi" arbitrary: argi extras)
  case 0
  then show ?case by (simp add: xopt_loop.simps [of strtod ctx argv argi])
next
  case (Suc n)
  then have lt: "argi < length argv" by simp
  with Suc show ?case
    by (simp add: xopt_loop.simps [of strtod ctx argv argi] xopt_parse_arg_def Cons_nth_drop_Suc [OF lt, symmetric])
qed

text \<open>
  An argument \<open>--\<close> in the first place ends the options: whatever follows it, and whether or not it
  looks like an option, \<open>xopt_parse\<close> returns it as an extra argument in the order given and leaves
  the caller's data untouched. (No option of the context is required.)
\<close>

theorem double_dash_ends_options:
  assumes "\<not> KEEPFIRST (xc_flags ctx)" "\<forall>opt \<in> set (xc_options ctx). \<not> x_required opt"
  shows "xopt_parse strtod ctx (prog # ''--'' # args) data = Inr (args, data)"
proof -
  have "xopt_missing data (xc_options ctx) (map x_required (xc_options ctx)) = None"
    using assms(2) by (intro xopt_missing_none) auto
  with assms(1) show ?thesis
    by (simp add: xopt_parse_def xopt_loop.simps [of strtod ctx _ "Suc 0"] xopt_parse_arg_def xopt_get_size_def xopt_loop_doubledash)
qed

theorem double_dash_ends_options_witness:
  "xopt_parse length cli_ctx [''nvsharectl'', ''--'', ''-T'', ''--set-tq=5''] Map.empty = Inr ([''-T'', ''--set-tq=5''], Map.empty)"
  by (rule double_dash_ends_options) (simp_all add: cli_options_def)

subsection \<open>Messages\<close>

lemma cstr_snprintf: "NUL \<notin> set full \<Longrightarrow> siz \<noteq> 0 \<Longrightarrow> cstr (fst (snprintf buf siz full)) = take (siz - 1) full"
  by (auto simp: snprintf_def Let_def intro!: cstr_terminated dest: in_set_takeD)

lemma set_err_run:
  assumes "NUL \<notin> set fmt" "NUL \<notin> set full" "int (length full) < INT_MAX"
    and "\<And>o'. ERRBUF_SIZE \<le> length (o_str o') \<Longrightarrow>
      vsn_loop no_float ERRBUF_SIZE (between fmt args [] o') = Inr (between [] [] [] (put ERRBUF_SIZE full o'))"
  shows "xopt_set_err data fmt args = XErr (take 4095 full) data"
proof -
  have "rpl_vsnprintf no_float (Some (replicate ERRBUF_SIZE NUL)) ERRBUF_SIZE fmt args = Inr \<lparr>r_ret = int (length full), r_errno = None,
      r_str = fst (snprintf (replicate ERRBUF_SIZE NUL) ERRBUF_SIZE full), r_stores = []\<rparr>"
    using assms by (intro rpl_vsnprintf_run) auto
  with cstr_snprintf [OF assms(2), of ERRBUF_SIZE] show ?thesis by (simp add: xopt_set_err_def ERRBUF_SIZE_def)
qed

lemma set_err_s:
  assumes "NUL \<notin> set lit" "CHR ''%'' \<notin> set lit" "NUL \<notin> set s" "int (length (lit @ s)) < INT_MAX"
  shows "xopt_set_err data (lit @ ''%s'') [a_str s] = XErr (take 4095 (lit @ s)) data"
  using assms vsn_s [of ERRBUF_SIZE _ s no_float "[]" "[]" "[]" "[]"]
  by (intro set_err_run) (auto simp: vsn_lit vsn_Nil a_str_def)

lemma set_err_prec:
  assumes "NUL \<notin> set lit" "CHR ''%'' \<notin> set lit" "NUL \<notin> set s" "int (length (lit @ s)) < INT_MAX"
  shows "xopt_set_err data (lit @ ''%.*s'') [AInt (of_nat (length s)), a_str (s @ rest)] = XErr (take 4095 (lit @ s)) data"
proof -
  have "int_of_slot (of_nat (length s)) = int (length s)"
    using assms(4) unfolding int_of_slot_def
    by (simp add: INT_MAX_def unsigned_of_nat take_bit_nat_eq_self signed_of_nat signed_take_bit_int_eq_self)
  with assms vsn_prec_s [of ERRBUF_SIZE _ s "rest @ [NUL]" "of_nat (length s)" no_float "[]" "[]" "[]"] show ?thesis
    by (intro set_err_run) (auto simp: vsn_lit vsn_Nil a_str_def)
qed

text \<open>Of the arguments behind them, the earlier ones see at most whether the next begins with a dash; here it does.\<close>

lemma xopt_shorts_bound:
  "xopt_shorts strtod ctx argv arg argi seen data = Inr (j, seen', data') \<Longrightarrow> argi < length argv \<Longrightarrow> j < length argv"
proof (induction arg arbitrary: argi seen data)
  case (Cons c arg)
  then show ?case
    by (auto simp: xopt_shorts.simps(2) Let_def bindX_Inr_iff split: prod.splits option.splits if_splits)
qed (simp add: xopt_shorts.simps)

lemma xopt_shorts_before:
  assumes "xopt_get_size bad \<noteq> 0" "argi < length pre"
  shows "xopt_shorts strtod ctx (pre @ bad # later) arg argi seen data = xopt_shorts strtod ctx pre arg argi seen data"
  using assms(2)
proof (induction arg arbitrary: argi seen data)
  case (Cons c arg)
  have IH: "xopt_shorts strtod ctx (pre @ bad # later) arg k seen = xopt_shorts strtod ctx pre arg k seen" if "k < length pre" for k seen
    using Cons.IH [OF that] by blast
  have nil: "xopt_shorts strtod ctx argv [] k seen = (\<lambda>data. Inr (k, seen, data))" for argv k seen
    by (rule ext) (simp add: xopt_shorts.simps)
  obtain req found where g: "xopt_get_arg (xc_options ctx) (c # arg) 1 1 = (req, found)" by (cases "xopt_get_arg (xc_options ctx) (c # arg) 1 1")
  show ?case
  proof (cases "argi + 1 < length pre")
    case True
    with Cons.prems IH nil g show ?thesis
      by (cases found) (simp_all add: xopt_shorts.simps(2) nth_append Let_def split: prod.split)
  next
    case False
    with Cons.prems have "argi + 1 = length pre" by simp
    with Cons.prems assms(1) IH nil g show ?thesis
      by (cases found) (auto simp: xopt_shorts.simps(2) nth_append Let_def split: prod.split)
  qed
qed (simp add: xopt_shorts.simps)

lemma xopt_parse_arg_before:
  assumes "xopt_get_size bad \<noteq> 0" "argi < length pre"
  shows "xopt_parse_arg strtod ctx (pre @ bad # later) argi s = xopt_parse_arg strtod ctx pre argi s"
  using assms by (simp add: xopt_parse_arg_def nth_append xopt_shorts_before Let_def)

lemma xopt_parse_arg_bound:
  "xopt_parse_arg strtod ctx argv argi s = Inr (r, j, s') \<Longrightarrow> argi < length argv \<Longrightarrow> j < length argv"
  by (auto simp: xopt_parse_arg_def Let_def bindX_Inr_iff split: if_splits dest: xopt_shorts_bound)

lemma xopt_loop_before:
  assumes "xopt_get_size bad \<noteq> 0" "argi \<le> length pre"
  shows "xopt_loop strtod ctx (pre @ bad # later) argi extras s =
    bindX (xopt_loop strtod ctx pre argi extras s) (\<lambda>(extras, s). xopt_loop strtod ctx (pre @ bad # later) (length pre) extras s)"
  using assms(2)
proof (induction "length pre - argi" arbitrary: argi extras s rule: less_induct)
  case less
  show ?case
  proof (cases "argi < length pre")
    case False
    with less.prems have "argi = length pre" by simp
    then show ?thesis by (simp add: xopt_loop.simps [of strtod ctx pre "length pre"])
  next
    case True
    show ?thesis
    proof (cases "xopt_parse_arg strtod ctx pre argi s")
      case (Inl e)
      with True show ?thesis
        by (simp add: xopt_loop.simps [of strtod ctx _ argi] xopt_parse_arg_before [OF assms(1)])
    next
      case (Inr x)
      obtain r j s' where x: "x = (r, j, s')" by (cases x)
      with Inr have p: "xopt_parse_arg strtod ctx pre argi s = Inr (r, j, s')" by simp
      have j: "argi \<le> j" "j < length pre" using xopt_parse_arg_mono [OF p] xopt_parse_arg_bound [OF p True] .
      have IH: "xopt_loop strtod ctx (pre @ bad # later) (Suc j) ex s' =
          bindX (xopt_loop strtod ctx pre (Suc j) ex s') (\<lambda>(ex, s). xopt_loop strtod ctx (pre @ bad # later) (length pre) ex s)" for ex
        using j True by (intro less.hyps) simp_all
      with True p j show ?thesis
        by (simp add: xopt_loop.simps [of strtod ctx _ argi] xopt_parse_arg_before [OF assms(1)] nth_append)
    qed
  qed
qed

lemma xopt_long_unknown:
  assumes "\<forall>opt \<in> set (xc_options ctx). longArg opt \<noteq> Some key"
    and "CHR ''='' \<notin> set key" "NUL \<notin> set key" "int (length (''invalid option: --'' @ key)) < INT_MAX" "rest = [] \<or> (\<exists>v. rest = CHR ''='' # v)"
  shows "xopt_long strtod ctx (key @ rest) data = Inl (XErr (take 4095 (''invalid option: --'' @ key)) data)"
proof -
  have find: "xopt_find (xopt_matches (key @ rest) (length key) 2) i opts = None" if "\<forall>opt \<in> set opts. longArg opt \<noteq> Some key" for i opts
    using that by (induction opts arbitrary: i) (auto simp: xopt_matches_def split: option.splits)
  have key: "takeWhile (\<lambda>c. c \<noteq> CHR ''='') (key @ rest) = key"
    using assms(2,5) takeWhile_append2 [of key "\<lambda>c. c \<noteq> CHR ''=''" rest] by fastforce
  have "xopt_set_err data ''invalid option: --%.*s'' [AInt (of_nat (length key)), a_str (key @ rest)] = XErr (take 4095 (''invalid option: --'' @ key)) data"
    using set_err_prec [of "''invalid option: --''" key data rest] assms(3,4) by simp
  with find [OF assms(1)] show ?thesis by (simp add: xopt_long_def key xopt_get_arg_def Let_def)
qed

text \<open>
  C34: An unknown long option is reported by its name, wherever it stands. Let no option of the context have the name \<open>key\<close>, and
  let \<open>--key\<close>, with or without a value, stand behind the arguments \<open>pre\<close> and before any others. If parsing \<open>pre\<close> is an error,
  that error is the result; if \<open>pre\<close> holds the double dash that ends the options, the argument is an extra argument like all that follow it;
  otherwise \<open>xopt_parse\<close> ends with the message \<open>invalid option: --key\<close>, cut off to the 4095 characters that fit into the buffer, and
  the caller's data are what \<open>pre\<close> has made of them. No argument of \<open>pre\<close> takes the option for its value, and with either
  setting of \<open>KEEPFIRST\<close> and of the other flags the answer is the same. The message has to be shorter than \<open>INT_MAX\<close>, as the
  precision of \<open>%.*s\<close> and the length that \<open>vsnprintf\<close> returns are \<open>int\<close>s.
\<close>

theorem invalid_option_reported:
  assumes "\<forall>opt \<in> set (xc_options ctx). longArg opt \<noteq> Some key"
    and "CHR ''='' \<notin> set key" "NUL \<notin> set key" "int (length (''invalid option: --'' @ key)) < INT_MAX"
    and "rest = [] \<and> key \<noteq> [] \<or> (\<exists>v. rest = CHR ''='' # v)"
    and "pre = [] \<longrightarrow> KEEPFIRST (xc_flags ctx)"
  shows "xopt_parse strtod ctx (pre @ (''--'' @ key @ rest) # later) data =
    bindX (xopt_loop strtod ctx pre (if KEEPFIRST (xc_flags ctx) then 0 else 1) []
             \<lparr>xs_doubledash = False, xs_required = map x_required (xc_options ctx), xs_data = data\<rparr>) (\<lambda>(extras, s).
      if \<not> xs_doubledash s then Inl (XErr (take 4095 (''invalid option: --'' @ key)) (xs_data s))
      else (case xopt_missing (xs_data s) (xc_options ctx) (xs_required s) of
              Some e \<Rightarrow> Inl e | None \<Rightarrow> Inr (extras @ (''--'' @ key @ rest) # later, xs_data s)))"
proof -
  define bad where "bad = ''--'' @ key @ rest"
  define start :: nat where "start = (if KEEPFIRST (xc_flags ctx) then 0 else 1)"
  define e where "e = (\<lambda>d. XErr (take 4095 (''invalid option: --'' @ key)) d)"
  have "xopt_long strtod ctx (key @ rest) d = Inl (e d)" for d
    unfolding e_def using assms by (intro xopt_long_unknown) auto
  moreover have "xopt_get_size bad = 2" "drop 2 bad = key @ rest" "key @ rest \<noteq> []"
    using assms(5) by (auto simp: bad_def xopt_get_size_def)
  ultimately have "xopt_loop strtod ctx (pre @ bad # later) (length pre) extras s =
      (if \<not> xs_doubledash s then Inl (e (xs_data s)) else Inr (extras @ bad # later, s))" for extras s
    by (auto simp: xopt_loop_doubledash xopt_loop.simps [of strtod ctx _ "length pre"] xopt_parse_arg_def nth_append Let_def)
  moreover have "start \<le> length pre" using assms(6) by (cases pre) (auto simp: start_def)
  ultimately show ?thesis
    unfolding xopt_parse_def start_def [symmetric] bad_def [symmetric] e_def [symmetric]
    using xopt_loop_before [of bad start pre strtod ctx later "[]"] \<open>xopt_get_size bad = 2\<close>
    by (cases "xopt_loop strtod ctx pre start [] \<lparr>xs_doubledash = False, xs_required = map x_required (xc_options ctx), xs_data = data\<rparr>") auto
qed

theorem invalid_option_reported_witness:
  "xopt_parse length cli_ctx [''nvsharectl'', ''-h'', ''--quantum=3'', ''-T''] Map.empty
   = Inl (XErr ''invalid option: --quantum'' (Map.empty(OFF_HELP \<mapsto> VBool True)))"
  using invalid_option_reported [of cli_ctx "''quantum''" "''=3''" "[''nvsharectl'', ''-h'']" length "[''-T'']" Map.empty]
  by (simp add: cli_options_def INT_MAX_def xopt_loop.simps xopt_parse_arg_def xopt_get_size_def xopt_shorts.simps xopt_get_arg_def
      xopt_matches_def xopt_set_def xopt_default_callback_def Let_def)

section \<open>Properties of the tool\<close>

lemma cli_main_T:
  assumes "0 < n" "n < 2 ^ 31" "length buf = NVSHARE_SOCK_PATH_MAX"
  shows "cli_main strtod False suffix buf [prog, ''-T'', show_int n] k =
    bindR (change_tq (scheduler_path @ NUL # drop (Suc (length scheduler_path)) buf) n k) (\<lambda>(_, k). Inr (None, k))"
  using assms
  by (simp add: cli_main_def parse_short_T show_int_plain strtoll_int32 to_int32_id read_config_def OFF_TQ_def OFF_ANTI_THRASH_def
      OFF_HELP_def nvshare_get_scheduler_path_eq anti_thrash_action_def set_tq_action_def bindR_assoc case_prod_unfold)

lemma change_tq_eq: "change_tq path n k = request path (tq_msg n) k"
  by (simp add: change_tq_def snprintf_def MSG_DATA_LEN_def Let_def)

lemma tq_msg_ok:
  assumes "- (2 ^ 31) \<le> n" "n < 2 ^ 31"
  shows "message_ok (tq_msg n)"
  using tq_data(3) [OF assms] by (simp add: message_ok_def tq_msg_def Let_def zero_message_def)

lemma process_tq_msg:
  assumes "- (2 ^ 31) \<le> n" "n < 2 ^ 31"
  shows "process_msg p (tq_msg n) s = Inr (s\<lparr>tq := n, must_reset_timer := True, timer_signals := timer_signals s + 1\<rparr>)"
proof -
  have "message_type_of (m_type (tq_msg n)) = Some SET_TQ"
    by (simp add: tq_msg_def Let_def del: message_type_code.simps)
  then show ?thesis
    using tq_data(1,2) [OF assms] strtoll_int32 [OF assms] to_int32_id [OF assms]
    by (simp add: process_msg_def process_set_tq_def)
qed

text \<open>
  C28: What becomes of a time quantum given on the command line. For every positive \<open>n\<close> that \<open>strtol\<close> can return, both spellings of
  the option give the parser the low 32 bits of \<open>n\<close> read as an \<open>int\<close>: the number \<open>n\<close> itself exactly when \<open>n\<close> fits an \<open>int\<close>, another one, without
  any message, when it does not. If the number is positive, the bytes that \<open>change_tq\<close> builds from it, decoded and handled by the scheduler,
  set the quantum to that number and restart the timer.
\<close>

theorem set_tq_roundtrip:
  assumes "0 < n" "n < 2 ^ 63"
  shows "xopt_parse strtod cli_ctx [prog, ''-T'', show_int n] Map.empty = Inr ([], Map.empty(OFF_TQ \<mapsto> VInt (to_int32 n)))
    \<and> xopt_parse strtod cli_ctx [prog, ''--set-tq='' @ show_int n] Map.empty = Inr ([], Map.empty(OFF_TQ \<mapsto> VInt (to_int32 n)))
    \<and> (to_int32 n = n \<longleftrightarrow> n < 2 ^ 31)
    \<and> (0 < to_int32 n \<longrightarrow> process_msg p (decode_message (encode_message (tq_msg (to_int32 n)))) s
         = Inr (s\<lparr>tq := to_int32 n, must_reset_timer := True, timer_signals := timer_signals s + 1\<rparr>))"
proof -
  have "strtoll (show_int n) = \<lparr>strto_value = n, strto_end = length (show_int n), strto_erange = False\<rparr>"
    using assms by (intro strtoll_show_int) (simp_all add: LLONG_MIN_def LLONG_MAX_def)
  moreover have "to_int32 n = n \<longleftrightarrow> n < 2 ^ 31"
    using to_int32_bounds [of n] to_int32_id [of n] assms(1) by auto
  ultimately show ?thesis
    using assms to_int32_bounds [of n] parse_long_T [of "show_int n" strtod prog]
    by (simp add: parse_short_T show_int_plain decode_encode_message tq_msg_ok process_tq_msg)
qed

theorem set_tq_roundtrip_witness:
  "xopt_parse length cli_ctx [''nvsharectl'', ''-T'', ''30''] Map.empty = Inr ([], Map.empty(OFF_TQ \<mapsto> VInt 30))
   \<and> (\<forall>p s. process_msg p (decode_message (encode_message (tq_msg 30))) s = Inr (s\<lparr>tq := 30, must_reset_timer := True, timer_signals := timer_signals s + 1\<rparr>))
   \<and> xopt_parse length cli_ctx [''nvsharectl'', ''-T'', ''4294967297''] Map.empty = Inr ([], Map.empty(OFF_TQ \<mapsto> VInt 1))"
proof -
  have n: "show_int 30 = ''30''" "to_int32 4294967297 = 1" "to_int32 30 = 30" by code_simp+
  have "map digit_char [4, 2, 9, 6, 7] = ''42967''" by code_simp
  then have m: "show_int 4294967297 = ''4294967297''" by (simp add: show_int_def show_nat.simps)
  have "0 < (30::int)" "30 < (2 ^ 63 :: int)" "0 < (4294967297::int)" "4294967297 < (2 ^ 63 :: int)" by simp_all
  then show ?thesis
    using set_tq_roundtrip [of 30 length "''nvsharectl''"] set_tq_roundtrip [of 4294967297 length "''nvsharectl''"]
    unfolding n m by blast
qed

text \<open>
  What \<open>nvsharectl -T n\<close> does with a valid \<open>n\<close>: it prints no help, and whenever it comes to an end it has
  put the request on one connection; \<open>change_tq\<close> answers 0 exactly when all of its bytes
  are written there, and -1 when only a part of them is.
\<close>

theorem cli_set_tq_sends_request:
  assumes "0 < n" "n < 2 ^ 31" "length buf = NVSHARE_SOCK_PATH_MAX"
    and "cli_main strtod False suffix buf [prog, ''-T'', show_int n] k = Inr (out, k')"
  shows "out = None
    \<and> (\<exists>path r. change_tq path n k = Inr (r, k') \<and> cstr path = scheduler_path
        \<and> (r = 0 \<and> (\<exists>fd. sent_to fd k' = sent_to fd k @ encode_message (tq_msg n))
           \<or> r = - 1 \<and> (\<exists>fd j. sent_to fd k' = sent_to fd k @ take j (encode_message (tq_msg n)))))"
proof -
  let ?path = "scheduler_path @ NUL # drop (Suc (length scheduler_path)) buf"
  obtain r where "change_tq ?path n k = Inr (r, k')" "out = None"
    using assms(4) unfolding cli_main_T [OF assms(1-3)] by (auto simp: bindR_Inr_iff)
  moreover have "cstr ?path = scheduler_path" by (rule cstr_terminated) (simp add: scheduler_path_def)
  ultimately show ?thesis
    using request_sent [of ?path "tq_msg n" k r k'] tq_msg_ok [of n] assms(1,2) by (fastforce simp: change_tq_eq)
qed

definition cli_session :: kernel where
  "cli_session = \<lparr>answers = [\<lparr>ret = 3, err = 0, bytes = []\<rparr>, \<lparr>ret = 0, err = 0, bytes = []\<rparr>,
     \<lparr>ret = 537, err = 0, bytes = []\<rparr>, \<lparr>ret = 0, err = 0, bytes = []\<rparr>], calls = []\<rparr>"

lemma cli_session_runs:
  assumes "message_ok msg" "NUL \<in> set path"
  shows "\<exists>k'. request path msg cli_session = Inr (0, k')"
proof -
  obtain d n where "strlcpy (replicate NVSHARE_SOCK_PATH_MAX NUL) path NVSHARE_SOCK_PATH_MAX = Inr (d, n)"
    using strlcpy_string [of path "NVSHARE_SOCK_PATH_MAX" "replicate NVSHARE_SOCK_PATH_MAX NUL"] assms(2)
    by (auto simp: Let_def NVSHARE_SOCK_PATH_MAX_def)
  moreover have "encode_message msg \<noteq> []"
    using length_encode_message [OF assms(1)] by (auto simp del: length_encode_message)
  ultimately show ?thesis
    using assms(1) by (simp add: request_def nvshare_connect.simps nvshare_unix_connect_def sys_def cli_session_def write_whole_def write_loop.simps
        interrupted_def Let_def)
qed

theorem cli_set_tq_sends_request_witness:
  "\<exists>k'. cli_main length False None (replicate 108 NUL) [''nvsharectl'', ''-T'', show_int 30] cli_session = Inr (None, k')
     \<and> (\<exists>path r. change_tq path 30 cli_session = Inr (r, k') \<and> cstr path = scheduler_path)"
proof -
  let ?path = "scheduler_path @ NUL # drop (Suc (length scheduler_path)) (replicate 108 NUL)"
  obtain k' where "change_tq ?path 30 cli_session = Inr (0, k')"
    using cli_session_runs [OF tq_msg_ok [of 30], of ?path] by (auto simp: change_tq_eq)
  then have "cli_main length False None (replicate 108 NUL) [''nvsharectl'', ''-T'', show_int 30] cli_session = Inr (None, k')"
    by (subst cli_main_T) (simp_all add: NVSHARE_SOCK_PATH_MAX_def)
  with cli_set_tq_sends_request [OF _ _ _ this] show ?thesis by (auto simp: NVSHARE_SOCK_PATH_MAX_def)
qed

text \<open>
  The quanta that \<open>nvsharectl\<close> does not accept. A negative one ends the tool, as a value of the long
  option and, taken for an option itself, as a value of the short one; nothing is sent. Zero counts as no
  option at all: the help text is printed and the tool ends successfully without having contacted the scheduler.
\<close>

theorem set_tq_not_positive:
  assumes "- (2 ^ 31) \<le> n" "n < 0" "length buf = NVSHARE_SOCK_PATH_MAX"
  shows "cli_main strtod help0 suffix buf [prog, ''--set-tq='' @ show_int n] k = Inl Exit
    \<and> cli_main strtod help0 suffix buf [prog, ''-T'', show_int n] k = Inl Exit
    \<and> (\<exists>txt. cli_main strtod help0 suffix buf [prog, ''-T'', ''0''] k = Inr (Some txt, k))"
proof (intro conjI)
  show "cli_main strtod help0 suffix buf [prog, ''--set-tq='' @ show_int n] k = Inl Exit"
    using assms parse_long_T_int [of n strtod prog]
    by (simp add: cli_main_def read_config_def OFF_TQ_def OFF_ANTI_THRASH_def
        OFF_HELP_def nvshare_get_scheduler_path_eq anti_thrash_action_def set_tq_action_def)
  show "cli_main strtod help0 suffix buf [prog, ''-T'', show_int n] k = Inl Exit"
    using assms(2)
    by (simp add: cli_main_def xopt_parse_def xopt_loop.simps xopt_parse_arg_def xopt_get_size_def xopt_shorts.simps xopt_get_arg_def
        cli_options_def xopt_matches_def Let_def show_int_def)
  have "strtoll ''0'' = \<lparr>strto_value = 0, strto_end = 1, strto_erange = False\<rparr>" by code_simp
  then show "\<exists>txt. cli_main strtod help0 suffix buf [prog, ''-T'', ''0''] k = Inr (Some txt, k)"
    using assms(3)
    by (simp add: cli_main_def parse_short_T plain_def read_config_def OFF_TQ_def OFF_ANTI_THRASH_def
        OFF_HELP_def nvshare_get_scheduler_path_eq anti_thrash_action_def set_tq_action_def Let_def)
qed

theorem set_tq_not_positive_witness:
  "cli_main length True None (replicate 108 NUL) [''nvsharectl'', ''-T'', show_int (- 5)] cli_session = Inl Exit
   \<and> (\<exists>txt. cli_main length True None (replicate 108 NUL) [''nvsharectl'', ''-T'', ''0''] cli_session = Inr (Some txt, cli_session))"
  using set_tq_not_positive [of "- 5" "replicate 108 NUL" length True None "''nvsharectl''" cli_session]
  by (simp add: NVSHARE_SOCK_PATH_MAX_def)

end
