(* ===== verification/Toggle_Props.thy ===== *)
theory Toggle_Props
  imports Toggle_Run
begin

text \<open>
  What the system guarantees when the scheduler may be switched off and on, and what it does not.
\<close>

lemma asked_request: "asked b U \<Longrightarrow> b \<or> Some REQ_LOCK \<in> set U"
  by (induction U arbitrary: b) (auto split: if_splits)

lemma full_reach_phase:
  assumes "full_reach w" "w_app w p = Some a"
  shows "full_phase (w_sched w) p (kinds (w_up w p)) (kinds (w_down w p)) (a_scheduler_on a) (a_own_lock a) (a_need_lock a)"
  using full_inv_conn [of w p] full_reach_inv [OF assms(1)] assms(2) by (auto simp: full_conn_def split: option.splits)

text \<open>Scripts: the first application asks for the lock; the scheduler is switched off; exclusion is lost.\<close>

definition ask_script :: "act list" where
  "ask_script = [Want 1, Serve 1, Want 2, Serve 2]"

definition off_script :: "act list" where
  "off_script = [Want 1, Switch, Recv 1]"

text \<open>
  The first request of application 1 is still under way when the scheduler is switched off and on. It asks again, is granted
  the lock for its first request, and the scheduler is switched off and on once more. Before it reads about that, it takes and releases the lock of
  the first grant. The scheduler now takes its second request, which grants it the lock again, and then the release of the first grant, which takes the lock
  away. Application 2 gets the lock, and application 1 reads the second grant.
\<close>

definition race_script :: "act list" where
  "race_script = [Want 1, Switch, Switch, Recv 1, Recv 1, Want 1, Serve 1, Switch, Switch, Recv 1, Early 1, Serve 1,
     Recv 2, Recv 2, Recv 2, Recv 2, Want 2, Serve 2, Serve 1, Recv 2, Recv 1, Recv 1, Recv 1]"

lemmas play_simps = bench0_def idle_seat_def seat_of_def put_def moved_def lc_want_def lc_recv_def lc_early_def noted_def Let_def

lemma race_script_plays:
  "\<exists>as. plays race_script bench0 = Some (\<lparr>b_on = True, b_queue = [2],
     b_one = \<lparr>st_lc = \<lparr>lc_on = True, lc_own = True, lc_need = False\<rparr>, st_up = [], st_down = []\<rparr>,
     b_two = \<lparr>st_lc = \<lparr>lc_on = True, lc_own = True, lc_need = False\<rparr>, st_up = [], st_down = []\<rparr>\<rparr>, as)"
  by (simp add: race_script_def play_simps)

lemma ask_script_plays:
  "\<exists>as. plays ask_script bench0 = Some (\<lparr>b_on = True, b_queue = [1, 2],
     b_one = \<lparr>st_lc = \<lparr>lc_on = True, lc_own = False, lc_need = True\<rparr>, st_up = [], st_down = [LOCK_OK]\<rparr>,
     b_two = \<lparr>st_lc = \<lparr>lc_on = True, lc_own = False, lc_need = True\<rparr>, st_up = [], st_down = []\<rparr>\<rparr>, as)"
  by (simp add: ask_script_def play_simps)

lemma off_script_plays:
  "\<exists>as. plays off_script bench0 = Some (\<lparr>b_on = False, b_queue = [],
     b_one = \<lparr>st_lc = \<lparr>lc_on = False, lc_own = True, lc_need = False\<rparr>, st_up = [REQ_LOCK], st_down = []\<rparr>,
     b_two = \<lparr>st_lc = \<lparr>lc_on = True, lc_own = False, lc_need = False\<rparr>, st_up = [], st_down = [SCHED_OFF]\<rparr>\<rparr>, as)"
  by (simp add: off_script_def play_simps)

section \<open>Properties\<close>

text \<open>
  C4: no request is forgotten when the scheduler is switched off and on, at any moment and any number of times. An application that waits
  for the lock will be told that the scheduler is off or that it has the lock, or its request is under way, or it is in the
  queue. In the last case some connected application \<open>q\<close> is the holder, and it will release the lock: a LOCK_OK is under way to it, or it
  owns the lock, or its LOCK_RELEASED is under way.
\<close>

theorem switching_forgets_nobody:
  assumes "full_reach w" "w_app w p = Some a" "a_need_lock a"
  shows "Some SCHED_OFF \<in> set (kinds (w_down w p)) \<or> Some LOCK_OK \<in> set (kinds (w_down w p)) \<or> Some REQ_LOCK \<in> set (kinds (w_up w p))
    \<or> (p \<in> set (requests (w_sched w)) \<and> (\<exists>q b. holder (w_sched w) = Some q \<and> w_app w q = Some b
        \<and> (Some LOCK_OK \<in> set (kinds (w_down w q)) \<or> a_own_lock b \<or> Some LOCK_RELEASED \<in> set (kinds (w_up w q)))))"
proof (cases "p \<in> set (requests (w_sched w))")
  case False
  then show ?thesis using full_reach_phase [OF assms(1,2)] assms(3) asked_request [of False "kinds (w_up w p)"]
    by (auto simp: full_phase_def)
next
  case True
  have inv: "full_inv w" "no_idle (w_sched w)" using full_reach_inv [OF assms(1)] by auto
  then have s: "sched_inv (w_sched w)" by (simp add: full_inv_def)
  then have "lock_held (w_sched w)" using True inv(2) by (auto simp: no_idle_def sched_inv_def)
  then obtain q where q: "holder (w_sched w) = Some q" using True by (cases "requests (w_sched w)") (auto simp: holder_def)
  then obtain c where c: "heap (w_sched w) q = Some c" "has_registered c" "q \<in> set (requests (w_sched w))"
    using holder_registered [OF s] by blast
  obtain b where b: "w_app w q = Some b" using full_inv_conn [OF inv(1), of q] c by (cases "w_app w q") (auto simp: full_conn_def)
  have "regrant (kinds (w_down w q)) \<or> a_own_lock b \<or> Some LOCK_RELEASED \<in> set (kinds (w_up w q))"
    using full_reach_phase [OF assms(1) b] q by (auto simp: full_phase_def)
  with True q b regrant_sent show ?thesis by blast
qed

theorem switching_forgets_nobody_witness:
  "\<exists>w a. full_reach w \<and> w_app w 2 = Some a \<and> a_need_lock a \<and> 2 \<in> set (requests (w_sched w)) \<and> holder (w_sched w) = Some 1"
proof -
  obtain w as where r: "bench_rig True w (fst (the (plays ask_script bench0))) 0 []" and p: "plays ask_script bench0 = Some as"
    using script_runs [of ask_script _ _ True] ask_script_plays by (fastforce simp: ask_script_def)
  then have r: "rig True w True [1, 2] 0 [] (seat_of (fst (the (plays ask_script bench0))))" using ask_script_plays by auto
  then have s: "requests (w_sched w) = [1, 2]" "lock_held (w_sched w)" by (simp_all add: rig_def desk_def)
  have down: "kinds (w_down w 2) = []" "w_up w 2 = []" and reach: "full_reach w"
    using r ask_script_plays by (auto simp: rig_def reached_def seated_def seat_of_def)
  obtain a where a: "w_app w 2 = Some a" "a_need_lock a"
    using r ask_script_plays by (auto simp: rig_def reached_def seated_def seat_of_def lc_abs_def)
  from switching_forgets_nobody [OF reach a] down s a reach show ?thesis by (auto simp: holder_def)
qed

text \<open>
  C5: the status spreads, and nobody is blocked by a scheduler that is off. An application has the status of the scheduler once it has read the
  messages that are under way to it, and as long as it believes the scheduler off, it may use the GPU and has no request open.
\<close>

theorem status_spreads:
  assumes "full_reach w" "w_app w p = Some a"
  shows "told (a_scheduler_on a) (kinds (w_down w p)) = scheduler_on (w_sched w) \<and> (\<not> a_scheduler_on a \<longrightarrow> a_own_lock a \<and> \<not> a_need_lock a)"
  using full_reach_phase [OF assms] by (simp add: full_phase_def)

theorem status_spreads_witness:
  "\<exists>w a. full_reach w \<and> w_app w 1 = Some a \<and> \<not> scheduler_on (w_sched w) \<and> w_down w 1 = [] \<and> \<not> a_scheduler_on a \<and> a_own_lock a"
proof -
  obtain w as where r: "bench_rig True w (fst (the (plays off_script bench0))) 0 []" and p: "plays off_script bench0 = Some as"
    using script_runs [of off_script _ _ True] off_script_plays by (fastforce simp: off_script_def)
  then have r: "rig True w False [] 0 [] (seat_of (fst (the (plays off_script bench0))))" using off_script_plays by auto
  then obtain a where a: "full_reach w" "w_app w 1 = Some a" "w_down w 1 = []" "\<not> scheduler_on (w_sched w)"
    using off_script_plays by (auto simp: rig_def reached_def seated_def seat_of_def desk_def)
  with status_spreads [OF a(1,2)] show ?thesis by auto
qed

text \<open>
  C35: switching can break mutual exclusion for good. There is a run in which the scheduler is on again, both applications know that, no
  message is under way, and both own the lock: the scheduler lets a LOCK_RELEASED for an earlier grant end the current grant of the same client.
\<close>

theorem switching_breaks_exclusion:
  "\<exists>w a b. full_reach w \<and> scheduler_on (w_sched w) \<and> holder (w_sched w) = Some 2
     \<and> w_app w 1 = Some a \<and> a_scheduler_on a \<and> a_own_lock a \<and> w_up w 1 = [] \<and> w_down w 1 = []
     \<and> w_app w 2 = Some b \<and> a_scheduler_on b \<and> a_own_lock b \<and> w_up w 2 = [] \<and> w_down w 2 = []"
proof -
  obtain w as where r: "bench_rig True w (fst (the (plays race_script bench0))) 0 []" and p: "plays race_script bench0 = Some as"
    using script_runs [of race_script _ _ True] race_script_plays by (fastforce simp: race_script_def)
  then have r: "rig True w True [2] 0 [] (seat_of (fst (the (plays race_script bench0))))" using race_script_plays by auto
  then have s: "full_reach w" "scheduler_on (w_sched w)" "holder (w_sched w) = Some 2" by (simp_all add: rig_def reached_def desk_def holder_def)
  have "seated w 1 0 (seat_of (fst (the (plays race_script bench0))) 1)" "seated w 2 0 (seat_of (fst (the (plays race_script bench0))) 2)"
    using r by (simp_all add: rig_def reached_def)
  then obtain a b where "w_app w 1 = Some a" "a_scheduler_on a" "a_own_lock a" "w_up w 1 = []" "w_down w 1 = []"
     "w_app w 2 = Some b" "a_scheduler_on b" "a_own_lock b" "w_up w 2 = []" "w_down w 2 = []"
    using race_script_plays by (auto simp: seated_def seat_of_def lc_abs_def)
  with s show ?thesis by blast
qed

end
