(* ===== verification/Float_Props.thy ===== *)
theory Float_Props
  imports Snprintf_Props Complex_Main
begin

text \<open>
  The conversion of numbers with a fractional part, \<open>fmtflt\<close>, in exact arithmetic: what its method (split off the integer part,
  scale the rest by a power of ten, round, carry) computes when the operations of \<open>double\<close> do not round.
\<close>

definition rat_ops :: "rat fops" where
  "rat_ops = \<lparr>f_zero = 0, f_half = 1 / 2, f_one = 1, f_ten = 10, f_lt = (<), f_le = (\<le>), f_eq = (=),
     f_neg = uminus, f_add = (+), f_sub = (-), f_mul = (*), f_div = (/),
     f_of_u64 = (\<lambda>w. of_nat (unat w)), f_to_u64 = (\<lambda>x. word_of_int \<lfloor>x\<rfloor>)\<rparr>"

lemma rat_ops_simps [simp]:
  "f_zero rat_ops = 0" "f_half rat_ops = 1 / 2" "f_one rat_ops = 1" "f_ten rat_ops = 10" "f_lt rat_ops = (<)" "f_le rat_ops = (\<le>)"
  "f_eq rat_ops = (=)" "f_neg rat_ops = uminus" "f_add rat_ops = (+)" "f_sub rat_ops = (-)" "f_mul rat_ops = (*)" "f_div rat_ops = (/)"
  "f_of_u64 rat_ops w = of_nat (unat w)" "f_to_u64 rat_ops x = word_of_int \<lfloor>x\<rfloor>"
  by (simp_all add: rat_ops_def)

lemma unat_word_of_int: "0 \<le> k \<Longrightarrow> k < 2 ^ 64 \<Longrightarrow> unat (word_of_int k :: 64 word) = nat k"
  using unat_of_sint [of k] by blast

lemma u64_rat: "0 \<le> k \<Longrightarrow> k < 2 ^ 64 \<Longrightarrow> (unsigned (word_of_int k :: 64 word) :: rat) = of_int k"
  using unat_word_of_int [of k] by (metis of_nat_nat of_nat_unat)

lemma unat_max: "unat UINTMAX_MAX = 2 ^ 64 - 1"
  by (simp add: UINTMAX_MAX_def unsigned_minus_1_eq_mask mask_eq_exp_minus_1)

lemma u64_less_max: "0 \<le> k \<Longrightarrow> k < 2 ^ 64 - 1 \<Longrightarrow> unat (word_of_int k :: 64 word) < unat UINTMAX_MAX"
  unfolding unat_max by (simp add: unat_word_of_int nat_less_iff)

lemma castu_exact:
  assumes "0 \<le> x" "x < 2 ^ 64 - 1"
  shows "castu rat_ops x = word_of_int \<lfloor>x\<rfloor>" "unat (castu rat_ops x) = nat \<lfloor>x\<rfloor>" "castu rat_ops x \<noteq> UINTMAX_MAX"
proof -
  have fl: "0 \<le> \<lfloor>x\<rfloor>" "\<lfloor>x\<rfloor> < 2 ^ 64 - 1" using assms by (simp_all add: floor_less_iff)
  then have u: "unat (word_of_int \<lfloor>x\<rfloor> :: 64 word) = nat \<lfloor>x\<rfloor>" by (intro unat_word_of_int) simp_all
  then have lt: "unat (word_of_int \<lfloor>x\<rfloor> :: 64 word) < unat UINTMAX_MAX" using u64_less_max [OF fl] by simp
  then have nle: "\<not> UINTMAX_MAX \<le> (word_of_int \<lfloor>x\<rfloor> :: 64 word)" by (simp add: word_le_nat_alt)
  then show "castu rat_ops x = word_of_int \<lfloor>x\<rfloor>" using assms fl u64_rat [of "\<lfloor>x\<rfloor>"] by (simp add: castu_def)
  with u nle show "unat (castu rat_ops x) = nat \<lfloor>x\<rfloor>" "castu rat_ops x \<noteq> UINTMAX_MAX" by auto
qed

lemma mypow10_exact: "mypow10 rat_ops (int p) = 10 ^ p"
  by (induction p) (simp_all add: mypow10_def nat_add_distrib)

lemma round_floor:
  fixes y :: rat
  shows "\<lfloor>y + 1 / 2\<rfloor> = (if y - of_int \<lfloor>y\<rfloor> < 1 / 2 then \<lfloor>y\<rfloor> else \<lfloor>y\<rfloor> + 1)"
  by (auto intro!: floor_unique; linarith)

lemma myround_exact:
  assumes "0 \<le> y" "y < 2 ^ 64 - 1"
  shows "unat (myround rat_ops y) = nat \<lfloor>y + 1 / 2\<rfloor>"
proof -
  have fl: "0 \<le> \<lfloor>y\<rfloor>" "\<lfloor>y\<rfloor> + 1 < 2 ^ 64" using assms by (simp_all add: floor_less_iff)
  have c: "castu rat_ops y = word_of_int \<lfloor>y\<rfloor>" "unat (word_of_int \<lfloor>y\<rfloor> :: 64 word) = nat \<lfloor>y\<rfloor>"
    using castu_exact [OF assms] by auto
  have "unat (word_of_int \<lfloor>y\<rfloor> + 1 :: 64 word) = nat (\<lfloor>y\<rfloor> + 1)"
    using fl unat_word_of_int [of "\<lfloor>y\<rfloor> + 1"] by simp
  with c fl u64_rat [of "\<lfloor>y\<rfloor>"] show ?thesis by (simp add: myround_def Let_def round_floor)
qed

text \<open>The number that is printed, as an integer: the value scaled by \<open>10\<^sup>p\<close> and rounded, halves upwards.\<close>

definition scaled :: "rat \<Rightarrow> nat \<Rightarrow> nat" where
  "scaled x p = nat \<lfloor>x * 10 ^ p + 1 / 2\<rfloor>"

lemma scaled_split:
  fixes x :: rat and p :: nat
  assumes "0 \<le> x"
  defines "y \<equiv> 10 ^ p * (x - of_int \<lfloor>x\<rfloor>)"
  shows "scaled x p = nat \<lfloor>x\<rfloor> * 10 ^ p + nat \<lfloor>y + 1 / 2\<rfloor>" "0 \<le> y" "y < 10 ^ p" "nat \<lfloor>y + 1 / 2\<rfloor> \<le> 10 ^ p"
proof -
  show y: "0 \<le> y" unfolding y_def by simp
  have "x - of_int \<lfloor>x\<rfloor> < 1" by linarith
  then have "10 ^ p * (x - of_int \<lfloor>x\<rfloor>) < 10 ^ p * 1" by (intro mult_strict_left_mono) simp_all
  then show lt: "y < 10 ^ p" unfolding y_def by simp
  have "\<lfloor>y + 1 / 2\<rfloor> \<le> \<lfloor>of_int (10 ^ p) + 1 / 2 :: rat\<rfloor>" using lt by (intro floor_mono) simp
  also have "\<dots> = 10 ^ p" by (rule floor_unique) simp_all
  finally show "nat \<lfloor>y + 1 / 2\<rfloor> \<le> 10 ^ p" by (simp add: nat_le_iff)
  have "x * 10 ^ p + 1 / 2 = (y + 1 / 2) + of_int (\<lfloor>x\<rfloor> * 10 ^ p)" unfolding y_def by (simp add: algebra_simps)
  then have "\<lfloor>x * 10 ^ p + 1 / 2\<rfloor> = \<lfloor>y + 1 / 2\<rfloor> + \<lfloor>x\<rfloor> * 10 ^ p" by (simp only: floor_add_int)
  moreover have "0 \<le> \<lfloor>y + 1 / 2\<rfloor>" using y by simp
  ultimately show "scaled x p = nat \<lfloor>x\<rfloor> * 10 ^ p + nat \<lfloor>y + 1 / 2\<rfloor>"
    using assms(1) by (simp add: scaled_def nat_add_distrib nat_mult_distrib nat_power_eq)
qed

lemma split_exact:
  assumes "0 \<le> x" "x < 2 ^ 64 - 1" "p \<le> 19"
  shows "\<exists>q. fmtflt_split rat_ops x False e (int p) = Some q \<and> unat (p_intpart q) = scaled x p div 10 ^ p
    \<and> unat (p_fracpart q) = scaled x p mod 10 ^ p \<and> p_precision q = int p \<and> \<not> p_estyle q"
proof -
  let ?y = "10 ^ p * (x - of_int \<lfloor>x\<rfloor>)"
  note s = scaled_split [OF assms(1), of p]
  have p19: "(10 :: rat) ^ p \<le> 10 ^ 19" "(10 :: int) ^ p \<le> 10 ^ 19" by (rule power_increasing [OF assms(3)], simp)+
  have fl: "0 \<le> \<lfloor>x\<rfloor>" "\<lfloor>x\<rfloor> + 1 < 2 ^ 64" using assms by (simp_all add: floor_less_iff)
  note i = castu_exact [OF assms(1,2)]
  have mask: "unat (word_of_int (10 ^ p) :: 64 word) = 10 ^ p" "(unsigned (word_of_int (10 ^ p) :: 64 word) :: rat) = 10 ^ p"
    using p19 unat_word_of_int [of "10 ^ p"] u64_rat [of "10 ^ p"] by (simp_all add: nat_power_eq)
  have "?y < 10 ^ 19" using s(3) p19(1) by (rule less_le_trans)
  also have "(10 :: rat) ^ 19 < 2 ^ 64 - 1" by simp
  finally have r: "unat (myround rat_ops ?y) = nat \<lfloor>?y + 1 / 2\<rfloor>" using s(2) by (intro myround_exact)
  have abs: "fabs rat_ops x = x" using assms(1) by (simp add: fabs_def)
  have m: "mypow10 rat_ops (int p) = 10 ^ p" by (rule mypow10_exact)
  have fl10: "\<lfloor>10 ^ p :: rat\<rfloor> = 10 ^ p" using floor_of_int [of "10 ^ p", where 'a = rat] by simp
  have ui: "(unsigned (word_of_int \<lfloor>x\<rfloor> :: 64 word) :: rat) = of_int \<lfloor>x\<rfloor>" using fl by (intro u64_rat) simp_all
  have inc: "unat (word_of_int \<lfloor>x\<rfloor> + 1 :: 64 word) = nat \<lfloor>x\<rfloor> + 1"
    using fl unat_word_of_int [of "\<lfloor>x\<rfloor> + 1"] by (simp add: nat_add_distrib)
  have le: "(word_of_int (10 ^ p) \<le> myround rat_ops ?y) = (10 ^ p \<le> nat \<lfloor>?y + 1 / 2\<rfloor>)"
    unfolding word_le_nat_alt mask(1) r ..
  have ni: "rat_of_nat (nat \<lfloor>x\<rfloor>) = of_int \<lfloor>x\<rfloor>" using fl by simp
  show ?thesis
  proof (cases "10 ^ p \<le> nat \<lfloor>?y + 1 / 2\<rfloor>")
    case True
    with s(4) have "nat \<lfloor>?y + 1 / 2\<rfloor> = 10 ^ p" by simp
    then have "scaled x p = (nat \<lfloor>x\<rfloor> + 1) * 10 ^ p" using s(1) by simp
    with True i le inc mask(2) ui assms(3) show ?thesis by (simp add: fmtflt_split_def Let_def abs m fl10 ni)
  next
    case False
    then have "scaled x p div 10 ^ p = nat \<lfloor>x\<rfloor>" "scaled x p mod 10 ^ p = nat \<lfloor>?y + 1 / 2\<rfloor>" using s(1) by simp_all
    with False i le r mask(2) ui assms(3) show ?thesis by (simp add: fmtflt_split_def Let_def abs m fl10 ni)
  qed
qed

definition fixed_text :: "nat \<Rightarrow> nat \<Rightarrow> char list" where
  "fixed_text n p =
     (let ds = show_nat 10 (n mod 10 ^ p) in
      show_nat 10 (n div 10 ^ p) @ (if p = 0 then [] else ''.'' @ replicate (p - length ds) (CHR ''0'') @ ds))"

text \<open>What is printed for the parts of \<open>n\<close>, without a sign and without padding.\<close>

lemma emit_exact:
  assumes "unat (p_intpart q) = n div 10 ^ p" "unat (p_fracpart q) = n mod 10 ^ p" "p_precision q = int p" "siz \<le> length (o_str o')"
    and "\<not> F_TYPE_G fl" "\<not> F_NUM fl" "\<not> F_QUOTE fl" "\<not> F_MINUS fl" "\<not> F_ZERO fl"
  shows "fmtflt_emit siz q [] 0 fl o' = Inr (put siz (fixed_text n p @ rev (fmtflt_exponent q fl)) o')"
proof -
  let ?ds = "show_nat 10 (n mod 10 ^ p)"
  have ci: "rev (convert (unat (p_intpart q)) MAX_CONVERT_LENGTH 10 False) = show_nat 10 (n div 10 ^ p)"
    using u64_convert [of 10 "p_intpart q"] assms(1) by simp
  have cf: "rev (convert (unat (p_fracpart q)) MAX_CONVERT_LENGTH 10 False) = ?ds"
    using u64_convert [of 10 "p_fracpart q"] assms(2) by simp
  have lenf: "length (convert (unat (p_fracpart q)) MAX_CONVERT_LENGTH 10 False) = length ?ds" using cf by (metis length_rev)
  have frac0: "p_fracpart q = 0 \<longleftrightarrow> n mod 10 ^ p = 0" using assms(2) by (metis unat_eq_0)
  define fc where "fc = (if p_fracpart q \<noteq> 0 then convert (unat (p_fracpart q)) MAX_CONVERT_LENGTH 10 False else [])"
  have frac: "zeros (int p - int (length fc)) @ rev fc = (if p = 0 then [] else replicate (p - length ?ds) (CHR ''0'') @ ?ds)"
  proof (cases "n mod 10 ^ p = 0")
    case True
    then show ?thesis using fc_def frac0 by (cases p) (simp_all add: zeros_def show_nat.simps nat_add_distrib replicate_append_same)
  next
    case False
    then have "p \<noteq> 0" by (intro notI) simp
    with False fc_def frac0 cf lenf show ?thesis by (simp add: zeros_def nat_diff_distrib)
  qed
  have tail: "zeros (int p - int (length fc)) @ rev fc @ ex = (if p = 0 then [] else replicate (p - length ?ds) (CHR ''0'') @ ?ds) @ ex" for ex
    using arg_cong [OF frac, of "\<lambda>z. z @ ex"] by simp
  have "fmtflt_emit siz q [] 0 fl o' =
      Inr (put siz (show_nat 10 (n div 10 ^ p) @ (if p = 0 then [] else ''.'') @ zeros (int p - int (length fc)) @ rev fc @ rev (fmtflt_exponent q fl)) o')"
    using assms(3-) ci by (simp add: fmtflt_emit_def Let_def OUTCHARS_put digits_loop_plain fc_def)
  then show ?thesis unfolding tail by (simp add: fixed_text_def Let_def)
qed

lemma fmtflt_fixed:
  assumes "0 \<le> x" "x < 2 ^ 64 - 1" "p \<le> 19" "siz \<le> length (o_str o')"
  shows "fmtflt rat_ops siz x 0 (int p) no_flags o' = Inr (False, put siz (fixed_text (scaled x p) p) o')"
proof -
  obtain q where q: "fmtflt_split rat_ops x False 0 (int p) = Some q" "unat (p_intpart q) = scaled x p div 10 ^ p"
      "unat (p_fracpart q) = scaled x p mod 10 ^ p" "p_precision q = int p" "\<not> p_estyle q"
    using split_exact [OF assms(1-3)] by blast
  have "fmtflt_parts rat_ops x (int p) no_flags = Some q" using q(1) by (simp add: fmtflt_parts_def)
  with emit_exact [OF q(2-4) assms(4), of no_flags] q(5) assms(1) show ?thesis
    by (simp add: fmtflt_def ISNAN_def ISINF_def fmtflt_exponent_def)
qed

lemma fixed_text_short:
  assumes "0 \<le> x" "x < 2 ^ 64 - 1" "p \<le> 19"
  shows "int (length (fixed_text (scaled x p) p)) < INT_MAX"
proof -
  obtain w :: "64 word" where "unat w = scaled x p div 10 ^ p" using split_exact [OF assms] by blast
  then have "scaled x p div 10 ^ p < 2 ^ 64" using unsigned_less [where 'a = nat, of w] by simp
  then have "length (show_nat 10 (scaled x p div 10 ^ p)) \<le> Suc 19" by (intro length_show_nat) simp_all
  moreover have "scaled x p mod 10 ^ p < 10 ^ 19"
    by (rule less_le_trans [OF _ power_increasing [OF assms(3)]]) simp_all
  then have "length (show_nat 10 (scaled x p mod 10 ^ p)) \<le> Suc 19" by (intro length_show_nat) simp_all
  ultimately have "length (fixed_text (scaled x p) p) \<le> 60" using assms(3) by (cases "p = 0") (auto simp: fixed_text_def Let_def)
  then show ?thesis by (simp add: INT_MAX_def)
qed

lemma vsn_prec_f:
  assumes "0 \<le> x" "x < 2 ^ 64 - 1" "p \<le> 19" "siz \<le> length (o_str o')"
  shows "vsn_loop rat_ops siz (between (''%.*f'' @ fmt) (AInt (of_nat p) # AFlt x # args) st o') =
    vsn_loop rat_ops siz (between fmt args st (put siz (fixed_text (scaled x p) p) o'))"
proof -
  have "int_of_slot (of_nat p) = int p"
    using assms(3) unfolding int_of_slot_def by (simp add: unsigned_of_nat take_bit_nat_eq_self signed_of_nat signed_take_bit_int_eq_self)
  with fmtflt_fixed [OF assms] show ?thesis by (simp add: vsn_more between_def vsn_steps conv_flt_def)
qed

text \<open>
  C30: In exact arithmetic, \<open>%.*f\<close> prints correctly rounded decimals: for every number from 0 up to the largest \<open>unsigned long\<close> and every precision up to the 19
  digits that the method supports, the text is the decimal numeral of the number scaled by the power of ten and rounded (halves
  upwards), with the point in its place and zeros where they belong.
\<close>

theorem fixed_point_correct:
  assumes "0 \<le> x" "x < 2 ^ 64 - 1" "p \<le> 19" "siz \<le> length str"
  shows "rpl_vsnprintf rat_ops (Some str) siz ''%.*f'' [AInt (of_nat p), AFlt x] =
    Inr \<lparr>r_ret = int (length (fixed_text (scaled x p) p)), r_errno = None, r_str = fst (snprintf str siz (fixed_text (scaled x p) p)), r_stores = []\<rparr>"
  using assms vsn_prec_f [of x p siz "\<lparr>o_str = str, o_len = 0\<rparr>" "[]" "[]" "[]"]
  by (intro rpl_vsnprintf_run fixed_text_short) (simp_all add: vsn_Nil)

theorem fixed_point_correct_witness:
  "rpl_vsnprintf rat_ops (Some (replicate 8 NUL)) 8 ''%.*f'' [AInt 2, AFlt (2999 / 1000)] =
     Inr \<lparr>r_ret = 4, r_errno = None, r_str = ''3.00'' @ replicate 4 NUL, r_stores = []\<rparr>"
proof -
  have "\<lfloor>(1502 / 5) :: rat\<rfloor> = 300" by (rule floor_unique) simp_all
  then have "scaled (2999 / 1000) 2 = 300" by (simp add: scaled_def)
  moreover have "fixed_text 300 2 = ''3.00''" by code_simp
  moreover have "snprintf (replicate 8 NUL) 8 ''3.00'' = (''3.00'' @ replicate 4 NUL, 4)" by code_simp
  ultimately show ?thesis using fixed_point_correct [of "2999 / 1000" 2 8 "replicate 8 NUL"] by simp
qed

end
