(* ===== verification/Sci_Props.thy ===== *)
theory Sci_Props
  imports Float_Props
begin

text \<open>
  The conversion \<open>%e\<close> in exact arithmetic: the exponent that \<open>getexponent\<close> finds, the digits of the mantissa, and the carry from the mantissa into the
  exponent.
\<close>

section \<open>The exponent\<close>

lemma mypow10_powi: "mypow10 rat_ops e = 10 powi e"
proof (cases "0 \<le> e")
  case True
  then show ?thesis using mypow10_exact [of "nat e"] by (simp add: power_int_def)
next
  case False
  have "((\<lambda>r. r / 10) ^^ n) r = r / 10 ^ n" for n and r :: rat by (induction n) simp_all
  with False show ?thesis by (simp add: mypow10_def power_int_def power_inverse field_simps)
qed

lemma exponent_up_exact:
  assumes "10 ^ k \<le> tmp" "tmp < 10 ^ Suc k" "k \<le> Suc fuel"
  shows "exponent_up fuel rat_ops tmp ex = ex + int k"
  using assms
proof (induction fuel arbitrary: k tmp ex)
  case 0
  then consider "k = 0" | "k = 1" by linarith
  then show ?case using 0 by cases (auto simp: exponent_up.simps)
next
  case (Suc fuel)
  show ?case
  proof (cases k)
    case 0
    with Suc.prems show ?thesis by (simp add: exponent_up.simps)
  next
    case (Suc m)
    have "(10::rat) ^ 1 \<le> 10 ^ k" using Suc by (intro power_increasing) auto
    then have "10 \<le> tmp" using Suc.prems(1) by simp
    moreover have "exponent_up fuel rat_ops (tmp / 10) (ex + 1) = ex + 1 + int m"
      using Suc Suc.prems by (intro Suc.IH) (auto simp: field_simps)
    ultimately show ?thesis using Suc by (subst exponent_up.simps) simp
  qed
qed

lemma exponent_down_exact:
  assumes "1 \<le> tmp * 10 ^ Suc k" "tmp * 10 ^ k < 1" "k \<le> fuel"
  shows "\<exists>t. exponent_down fuel rat_ops tmp ex = (ex - int (Suc k), t) \<and> t < 10"
  using assms
proof (induction fuel arbitrary: k tmp ex)
  case 0
  then have "0 < tmp" "tmp < 1" by auto
  with 0 show ?case by (simp add: exponent_down.simps)
next
  case (Suc fuel)
  have pos: "0 < tmp" using Suc.prems(1) by (metis less_le_trans mult_le_0_iff not_le zero_le_numeral zero_le_power zero_less_one)
  have "tmp * 1 \<le> tmp * 10 ^ k" using pos by (intro mult_left_mono) simp_all
  then have lt: "tmp < 1" using Suc.prems(2) by simp
  show ?case
  proof (cases k)
    case 0
    with Suc.prems have "\<not> tmp * 10 < 1" "tmp * 10 < 10" using lt by simp_all
    with pos lt 0 show ?thesis by (simp add: exponent_down.simps [of "Suc fuel"] exponent_down.simps [of fuel])
  next
    case (Suc m)
    have "\<exists>t. exponent_down fuel rat_ops (tmp * 10) (ex - 1) = (ex - 1 - int (Suc m), t) \<and> t < 10"
      using Suc Suc.prems by (intro Suc.IH) (simp_all add: mult_ac)
    with pos lt Suc show ?thesis by (subst exponent_down.simps) auto
  qed
qed

lemma getexponent_exact:
  assumes "10 powi e \<le> x" "x < 10 powi (e + 1)" "- 99 \<le> e" "e \<le> 99"
  shows "getexponent rat_ops x = e"
proof -
  have "0 < x" by (rule less_le_trans [OF _ assms(1)]) simp
  then have abs: "fabs rat_ops x = x" by (simp add: fabs_def)
  show ?thesis
  proof (cases "0 \<le> e")
    case True
    have pe: "(10 :: rat) ^ nat e \<le> x" "x < 10 ^ Suc (nat e)" using assms(1,2) True by (simp_all add: power_int_def nat_add_distrib)
    have "1 \<le> x" using pe(1) by (rule order_trans [rotated]) simp
    moreover have "exponent_up 98 rat_ops x 0 = int (nat e)" using exponent_up_exact [OF pe, of 98 0] assms(4) by simp
    ultimately show ?thesis using True by (simp add: getexponent_def abs exponent_down.simps [of _ _ x])
  next
    case False
    define k where "k = nat (- e) - 1"
    have k: "nat (- e) = Suc k" "e = - int (Suc k)" using False by (auto simp: k_def)
    have "(10 :: rat) powi e = inverse (10 ^ Suc k)" "(10 :: rat) powi (e + 1) = inverse (10 ^ k)"
      using k(2) power_int_minus [of "10 :: rat" "int (Suc k)"] power_int_minus [of "10 :: rat" "int k"] by (simp_all only: power_int_of_nat) simp
    then have "inverse (10 ^ Suc k) \<le> x" "x < inverse (10 ^ k)" using assms(1,2) by (simp_all only:)
    then have "1 \<le> x * 10 ^ Suc k" "x * 10 ^ k < 1" by (simp_all add: field_simps)
    then obtain t where "exponent_down 98 rat_ops x 0 = (e, t)" "t < 10" using exponent_down_exact [of x k 98 0] assms(3) k by auto
    then show ?thesis by (simp add: getexponent_def abs exponent_up.simps [of _ _ t])
  qed
qed

section \<open>The mantissa\<close>

lemma split_estyle:
  assumes "fmtflt_split fo y False e prec = Some q" "f_div fo (fabs fo x) (mypow10 fo e) = fabs fo y" "castu fo (fabs fo y) \<noteq> 10"
  shows "fmtflt_split fo x True e prec =
    Some (if p_intpart q = 10 then q\<lparr>p_intpart := 1, p_exponent := e + 1, p_estyle := True\<rparr> else q\<lparr>p_estyle := True\<rparr>)" "p_exponent q = e"
  using assms by (auto simp: fmtflt_split_def Let_def split: if_splits)

lemma scaled_le:
  assumes "1 \<le> y" "y < 10"
  shows "scaled y p \<le> 10 ^ Suc p" "10 ^ p \<le> scaled y p"
proof -
  have "\<lfloor>y * 10 ^ p + 1 / 2\<rfloor> \<le> \<lfloor>of_int (10 ^ Suc p) + 1 / 2 :: rat\<rfloor>" using assms by (intro floor_mono) simp
  also have "\<dots> = 10 ^ Suc p" by (rule floor_unique) simp_all
  finally show "scaled y p \<le> 10 ^ Suc p" by (simp add: scaled_def nat_le_iff)
  have "1 * 10 ^ p \<le> y * 10 ^ p" using assms by (intro mult_right_mono) simp_all
  then have "10 ^ p \<le> y * 10 ^ p + 1 / 2" by linarith
  then have "10 ^ p \<le> \<lfloor>y * 10 ^ p + 1 / 2\<rfloor>" by (subst le_floor_iff) simp
  then show "10 ^ p \<le> scaled y p" by (simp add: scaled_def le_nat_iff)
qed

text \<open>The digits and the exponent that are printed: a mantissa that is rounded up to ten becomes one.\<close>

definition sci_parts :: "rat \<Rightarrow> int \<Rightarrow> nat \<Rightarrow> nat \<times> int" where
  "sci_parts x e p = (let n = scaled (x / 10 powi e) p in if n = 10 ^ Suc p then (10 ^ p, e + 1) else (n, e))"

lemma mantissa_range:
  fixes x :: rat
  assumes "10 powi e \<le> x" "x < 10 powi (e + 1)"
  shows "1 \<le> x / 10 powi e" "x / 10 powi e < 10" "0 < x"
proof -
  have pos: "0 < (10 :: rat) powi e" by simp
  then show "1 \<le> x / 10 powi e" "x / 10 powi e < 10" "0 < x"
    using assms by (auto simp: field_simps power_int_add intro: less_le_trans [OF pos])
qed

lemma split_scientific:
  assumes "10 powi e \<le> x" "x < 10 powi (e + 1)" "p \<le> 19" "sci_parts x e p = (n, e')"
  shows "\<exists>q. fmtflt_split rat_ops x True e (int p) = Some q \<and> unat (p_intpart q) = n div 10 ^ p \<and> unat (p_fracpart q) = n mod 10 ^ p
    \<and> p_precision q = int p \<and> p_estyle q \<and> p_exponent q = e'"
proof -
  let ?y = "x / 10 powi e"
  note y = mantissa_range [OF assms(1,2)]
  have y0: "0 \<le> ?y" using y(1) by linarith
  have y1: "?y < 2 ^ 64 - 1" by (rule less_trans [OF y(2)]) simp
  obtain q where q: "fmtflt_split rat_ops ?y False e (int p) = Some q" "unat (p_intpart q) = scaled ?y p div 10 ^ p"
      "unat (p_fracpart q) = scaled ?y p mod 10 ^ p" "p_precision q = int p"
    using split_exact [OF y0 y1 assms(3)] by blast
  have abs: "fabs rat_ops x = x" "fabs rat_ops ?y = ?y" using y(3) y0 by (simp_all add: fabs_def)
  have "nat \<lfloor>?y\<rfloor> \<noteq> 10" using y(2) by (simp add: floor_less_iff nat_eq_iff) linarith
  then have "castu rat_ops ?y \<noteq> 10" using castu_exact(2) [OF y0 y1] by auto
  note s = split_estyle [OF q(1), of x, unfolded abs rat_ops_simps mypow10_powi, OF refl this]
  have "p_intpart q = 10 \<longleftrightarrow> scaled ?y p div 10 ^ p = 10" unfolding q(2) [symmetric] by (simp add: word_unat_eq_iff)
  also have "\<dots> \<longleftrightarrow> scaled ?y p = 10 ^ Suc p" using scaled_le(1) [OF y(1,2), of p]
    by (metis div_le_dividend div_mult_self1_is_m div_times_less_eq_dividend le_antisym mult.commute power_Suc zero_less_numeral zero_less_power)
  finally show ?thesis using s q assms(4) by (auto simp: sci_parts_def Let_def split: if_splits)
qed

section \<open>The text\<close>

definition exp_text :: "int \<Rightarrow> string" where
  "exp_text e = ''e'' @ (if e < 0 then ''-'' else ''+'') @ (if \<bar>e\<bar> < 10 then ''0'' else []) @ show_nat 10 (nat \<bar>e\<bar>)"

lemma fmtflt_exponent_exact:
  assumes "p_estyle q" "\<bar>p_exponent q\<bar> \<le> 99" "\<not> F_UP fl"
  shows "rev (fmtflt_exponent q fl) = exp_text (p_exponent q)"
proof -
  let ?k = "nat \<bar>p_exponent q\<bar>"
  have c: "rev (convert ?k 2 10 False) = show_nat 10 ?k" using assms(2) by (intro convert_show) auto
  then have "length (convert ?k 2 10 False) = length (show_nat 10 ?k)" by (metis length_rev)
  moreover have "length (show_nat 10 ?k) = 1 \<longleftrightarrow> ?k < 10"
    by (simp add: show_nat.simps [of 10 ?k] show_nat_ne)
  ultimately show ?thesis using assms c by (auto simp: fmtflt_exponent_def exp_text_def Let_def)
qed

definition sci_text :: "rat \<Rightarrow> int \<Rightarrow> nat \<Rightarrow> string" where
  "sci_text x e p = (let (n, e') = sci_parts x e p in fixed_text n p @ exp_text e')"

abbreviation e_flags :: pflags where
  "e_flags \<equiv> no_flags\<lparr>F_TYPE_E := True\<rparr>"

lemma fmtflt_sci_parts:
  assumes "10 powi e \<le> x" "x < 10 powi (e + 1)" "- 99 \<le> e" "e \<le> 99" "p \<le> 19" "siz \<le> length (o_str o')" "sci_parts x e p = (n, e')"
  shows "\<exists>q. p_estyle q \<and> p_exponent q = e'
    \<and> fmtflt rat_ops siz x 0 (int p) e_flags o' = Inr (False, put siz (fixed_text n p @ rev (fmtflt_exponent q e_flags)) o')"
proof -
  obtain q where q: "fmtflt_split rat_ops x True e (int p) = Some q" "unat (p_intpart q) = n div 10 ^ p" "unat (p_fracpart q) = n mod 10 ^ p"
      "p_precision q = int p" "p_estyle q" "p_exponent q = e'"
    using split_scientific [OF assms(1,2,5,7)] by blast
  have "fmtflt_parts rat_ops x (int p) e_flags = Some q" using q(1) getexponent_exact [OF assms(1-4)] by (simp add: fmtflt_parts_def)
  with emit_exact [OF q(2-4) assms(6), of e_flags] q(5,6) mantissa_range(3) [OF assms(1,2)] show ?thesis
    by (intro exI [of _ q]) (simp add: fmtflt_def ISNAN_def ISINF_def)
qed

lemma fmtflt_scientific:
  assumes "10 powi e \<le> x" "x < 10 powi (e + 1)" "- 99 \<le> e" "e \<le> 99" "p \<le> 19" "snd (sci_parts x e p) \<le> 99" "siz \<le> length (o_str o')"
  shows "fmtflt rat_ops siz x 0 (int p) e_flags o' = Inr (False, put siz (sci_text x e p) o')"
proof -
  obtain n e' where s: "sci_parts x e p = (n, e')" by (cases "sci_parts x e p")
  from fmtflt_sci_parts [OF assms(1-5,7) s] obtain q where q: "p_estyle q" "p_exponent q = e'"
    "fmtflt rat_ops siz x 0 (int p) e_flags o' = Inr (False, put siz (fixed_text n p @ rev (fmtflt_exponent q e_flags)) o')" by blast
  have "\<bar>e'\<bar> \<le> 99" using s assms(3,6) by (auto simp: sci_parts_def Let_def split: if_splits)
  with q fmtflt_exponent_exact [OF q(1), of e_flags] show ?thesis by (simp add: sci_text_def s)
qed

lemma sci_text_short:
  assumes "10 powi e \<le> x" "x < 10 powi (e + 1)" "- 99 \<le> e" "p \<le> 19" "snd (sci_parts x e p) \<le> 99"
  shows "int (length (sci_text x e p)) < INT_MAX"
proof -
  obtain n e' where s: "sci_parts x e p = (n, e')" by (cases "sci_parts x e p")
  note y = mantissa_range [OF assms(1,2)]
  have "n \<le> 10 ^ Suc p" using s scaled_le [OF y(1,2), of p] by (auto simp: sci_parts_def Let_def split: if_splits)
  then have "n div 10 ^ p \<le> 10" by (metis div_le_mono div_mult_self_is_m power_Suc zero_less_numeral zero_less_power)
  then have "length (show_nat 10 (n div 10 ^ p)) \<le> Suc 1" by (intro length_show_nat) simp_all
  moreover have "n mod 10 ^ p < 10 ^ 19"
    by (rule less_le_trans [OF _ power_increasing [OF assms(4)]]) simp_all
  then have "length (show_nat 10 (n mod 10 ^ p)) \<le> Suc 19" by (intro length_show_nat) simp_all
  ultimately have f: "length (fixed_text n p) \<le> 60" using assms(4) by (cases "p = 0") (auto simp: fixed_text_def Let_def)
  have "\<bar>e'\<bar> \<le> 99" using s assms(3,5) by (auto simp: sci_parts_def Let_def split: if_splits)
  then have "length (show_nat 10 (nat \<bar>e'\<bar>)) \<le> Suc 1" by (intro length_show_nat) auto
  then have "length (exp_text e') \<le> 6" by (auto simp: exp_text_def abs_if split: if_splits)
  with f show ?thesis by (simp add: sci_text_def s INT_MAX_def)
qed

section \<open>The format\<close>

lemma vsn_prec_e:
  assumes "fmtflt rat_ops siz x 0 (int p) e_flags o' = Inr (False, put siz t o')" "p \<le> 19"
  shows "vsn_loop rat_ops siz (between (''%.*e'' @ fmt) (AInt (of_nat p) # AFlt x # args) st o') = vsn_loop rat_ops siz (between fmt args st (put siz t o'))"
proof -
  have "int_of_slot (of_nat p) = int p"
    using assms(2) unfolding int_of_slot_def by (simp add: unsigned_of_nat take_bit_nat_eq_self signed_of_nat signed_take_bit_int_eq_self)
  with assms(1) show ?thesis by (simp add: vsn_more between_def vsn_steps conv_flt_def)
qed

lemma prec_e_run:
  assumes "\<And>o'. siz \<le> length (o_str o') \<Longrightarrow> fmtflt rat_ops siz x 0 (int p) e_flags o' = Inr (False, put siz t o')"
    and "p \<le> 19" "int (length t) < INT_MAX" "siz \<le> length str"
  shows "rpl_vsnprintf rat_ops (Some str) siz ''%.*e'' [AInt (of_nat p), AFlt x] =
    Inr \<lparr>r_ret = int (length t), r_errno = None, r_str = fst (snprintf str siz t), r_stores = []\<rparr>"
  using assms vsn_prec_e [of siz x p "\<lparr>o_str = str, o_len = 0\<rparr>" t "[]" "[]" "[]"]
  by (intro rpl_vsnprintf_run) (simp_all add: vsn_Nil)

text \<open>
  The exponent has two digits at most, which \<open>getexponent\<close> ensures, but the carry does not: a number just below \<open>10\<^sup>1\<^sup>0\<^sup>0\<close> whose mantissa is
  rounded up to ten is printed as one.
\<close>

lemma exponent_digit_lost:
  assumes "10 powi 99 \<le> x" "x < 10 powi 100" "p \<le> 19" "scaled (x / 10 powi 99) p = 10 ^ Suc p" "siz \<le> length str"
  shows "rpl_vsnprintf rat_ops (Some str) siz ''%.*e'' [AInt (of_nat p), AFlt x] =
    Inr \<lparr>r_ret = int (length (fixed_text (10 ^ p) p @ ''e+00'')), r_errno = None, r_str = fst (snprintf str siz (fixed_text (10 ^ p) p @ ''e+00'')), r_stores = []\<rparr>"
proof (rule prec_e_run [OF _ assms(3) _ assms(5)])
  have s: "sci_parts x 99 p = (10 ^ p, 100)" using assms(4) by (simp add: sci_parts_def)
  show "fmtflt rat_ops siz x 0 (int p) e_flags o' = Inr (False, put siz (fixed_text (10 ^ p) p @ ''e+00'') o')" if len: "siz \<le> length (o_str o')" for o'
  proof -
    obtain q where q: "p_estyle q" "p_exponent q = 100"
      "fmtflt rat_ops siz x 0 (int p) e_flags o' = Inr (False, put siz (fixed_text (10 ^ p) p @ rev (fmtflt_exponent q e_flags)) o')"
      using fmtflt_sci_parts [of 99 x p siz o', OF assms(1) _ _ _ assms(3) len s] assms(2) by auto
    moreover have "convert 100 2 10 False = ''00''" by code_simp
    ultimately show ?thesis by (simp add: fmtflt_exponent_def)
  qed
  have "10 ^ p mod 10 ^ p = (0 :: nat)" "10 ^ p div 10 ^ p = (1 :: nat)" by simp_all
  then show "int (length (fixed_text (10 ^ p) p @ ''e+00'')) < INT_MAX" using assms(3)
    by (simp add: fixed_text_def Let_def INT_MAX_def show_nat.simps)
qed

text \<open>
  C31: In exact arithmetic, what \<open>%.*e\<close> prints for every positive number whose decimal exponent lies between -99 and 99, with any precision up to
  the 19 digits that the method supports: the mantissa, scaled by the power of ten and rounded (halves upwards), and the exponent with its sign and at least two digits;
  a mantissa that is rounded up to ten is printed as one, with the next exponent. The exponent that is printed is right whenever it
  still has two digits after this carry. When it has become 100, which only numbers just below \<open>10\<^sup>1\<^sup>0\<^sup>0\<close> do, \<open>e+00\<close> is printed in its place, as if the number were 1.
\<close>

definition sci_printed :: "rat \<Rightarrow> int \<Rightarrow> nat \<Rightarrow> string" where
  "sci_printed x e p = (let (n, e') = sci_parts x e p in fixed_text n p @ exp_text (if e' = 100 then 0 else e'))"

theorem scientific_correct:
  assumes "10 powi e \<le> x" "x < 10 powi (e + 1)" "- 99 \<le> e" "e \<le> 99" "p \<le> 19" "siz \<le> length str"
  shows "rpl_vsnprintf rat_ops (Some str) siz ''%.*e'' [AInt (of_nat p), AFlt x] =
    Inr \<lparr>r_ret = int (length (sci_printed x e p)), r_errno = None, r_str = fst (snprintf str siz (sci_printed x e p)), r_stores = []\<rparr>"
proof (cases "snd (sci_parts x e p) \<le> 99")
  case True
  then have "sci_printed x e p = sci_text x e p" by (auto simp: sci_printed_def sci_text_def split: prod.split)
  with True assms show ?thesis
    using prec_e_run [OF fmtflt_scientific [OF assms(1-5) True] assms(5) sci_text_short [OF assms(1-3,5) True] assms(6)] by simp
next
  case False
  then have e: "e = 99" "scaled (x / 10 powi e) p = 10 ^ Suc p"
    using assms(4) by (auto simp: sci_parts_def Let_def split: if_splits)
  then have "sci_parts x e p = (10 ^ p, 100)" by (simp add: sci_parts_def)
  moreover have "exp_text 0 = ''e+00''" by code_simp
  ultimately have "sci_printed x e p = fixed_text (10 ^ p) p @ ''e+00''" by (simp add: sci_printed_def)
  with exponent_digit_lost [of x p siz str] assms e show ?thesis by (simp del: power_int_numeral)
qed

theorem scientific_correct_witness:
  "rpl_vsnprintf rat_ops (Some (replicate 16 NUL)) 16 ''%.*e'' [AInt 2, AFlt (9999 / 10)] =
     Inr \<lparr>r_ret = 8, r_errno = None, r_str = ''1.00e+03'' @ replicate 8 NUL, r_stores = []\<rparr>"
proof -
  have "\<lfloor>(5002 / 5) :: rat\<rfloor> = 1000" by (rule floor_unique) simp_all
  then have s: "sci_parts (9999 / 10) 2 2 = (100, 3)" by (simp add: sci_parts_def scaled_def power_int_def Let_def)
  have "fixed_text 100 2 @ exp_text 3 = ''1.00e+03''" by code_simp
  then have t: "sci_printed (9999 / 10) 2 2 = ''1.00e+03''" by (simp add: sci_printed_def s)
  have "snprintf (replicate 16 NUL) 16 ''1.00e+03'' = (''1.00e+03'' @ replicate 8 NUL, 8)" by code_simp
  with scientific_correct [of 2 "9999 / 10" 2 16 "replicate 16 NUL"] show ?thesis by (simp add: s t power_int_def)
qed

lemma exponent_digit_lost_example:
  "rpl_vsnprintf rat_ops (Some (replicate 16 NUL)) 16 ''%.*e'' [AInt 2, AFlt (9999 * 10 ^ 96)] =
     Inr \<lparr>r_ret = 8, r_errno = None, r_str = ''1.00e+00'' @ replicate 8 NUL, r_stores = []\<rparr>"
proof -
  have "\<lfloor>(5002 / 5) :: rat\<rfloor> = 1000" by (rule floor_unique) simp_all
  then have s: "scaled (9999 * 10 ^ 96 / 10 powi 99) 2 = 10 ^ Suc 2" by (simp add: scaled_def power_int_def)
  have t: "fixed_text (10 ^ 2) 2 @ ''e+00'' = ''1.00e+00''" by code_simp
  have "snprintf (replicate 16 NUL) 16 ''1.00e+00'' = (''1.00e+00'' @ replicate 8 NUL, 8)" by code_simp
  with exponent_digit_lost [OF _ _ _ s, of 16 "replicate 16 NUL", unfolded t] show ?thesis by (simp add: power_int_def)
qed

end
