(* ===== verification/Gen_Props.thy ===== *)
theory Gen_Props
  imports Sci_Props
begin

text \<open>
  The conversion \<open>%g\<close> in exact arithmetic: the same significant digits in both styles, the choice of the style by the exponent that rounding
  leaves, and the zeros at the end of the fraction, which are dropped.
\<close>

section \<open>One number for both styles\<close>

text \<open>The jump back to \<open>again\<close> converts the number once more with another precision; the digits stay the same.\<close>

lemma scaled_again:
  assumes "10 powi e \<le> x" "x < 10 powi (e + 1)" "sci_parts x e p = (n, e')" "e' \<le> int p"
  shows "scaled x (nat (int p - e')) = n"
proof -
  let ?y = "x / 10 powi e"
  have pw: "(10 :: rat) ^ nat (int p - e') = 10 ^ p / 10 powi e'"
  proof -
    have "(10 :: rat) ^ nat (int p - e') = 10 powi (int p - e')" using assms(4) by (simp add: power_int_def)
    also have "\<dots> = 10 powi (int p) / 10 powi e'" by (simp add: power_int_diff)
    finally show ?thesis by simp
  qed
  show ?thesis
  proof (cases "scaled ?y p = 10 ^ Suc p")
    case False
    then have "n = scaled ?y p" "e' = e" using assms(3) by (auto simp: sci_parts_def Let_def)
    with pw show ?thesis by (simp add: scaled_def)
  next
    case True
    then have n: "n = 10 ^ p" "e' = e + 1" using assms(3) by (auto simp: sci_parts_def Let_def)
    have z: "x * 10 ^ nat (int p - e') = ?y * 10 ^ p / 10" using pw n(2) by (simp add: power_int_add)
    have y: "?y < 10" by (rule mantissa_range(2) [OF assms(1,2)])
    have "\<lfloor>?y * 10 ^ p + 1 / 2\<rfloor> = 10 ^ Suc p" using True by (simp add: scaled_def nat_eq_iff split: if_splits)
    then have lo: "10 ^ Suc p \<le> ?y * 10 ^ p + 1 / 2" by (metis of_int_floor_le of_int_numeral of_int_power)
    have hi: "?y * 10 ^ p < 10 * 10 ^ p" using y by (intro mult_strict_right_mono) simp_all
    have "\<lfloor>v / 10 + 1 / 2\<rfloor> = 10 ^ p" if "10 ^ Suc p \<le> v + 1 / 2" "v < 10 * 10 ^ p" for v :: rat
    proof (rule floor_unique)
      have "of_int (10 ^ p) = (10 :: rat) ^ p" by simp
      then show "of_int (10 ^ p) \<le> v / 10 + 1 / 2" "v / 10 + 1 / 2 < of_int (10 ^ p) + 1" using that unfolding power_Suc by linarith+
    qed
    from this [OF lo hi] have "\<lfloor>?y * 10 ^ p / 10 + 1 / 2\<rfloor> = 10 ^ p" .
    then show ?thesis by (simp add: scaled_def z n(1) nat_power_eq)
  qed
qed

section \<open>The text\<close>

text \<open>A fraction without its last zeros, and no point behind which nothing follows.\<close>

definition trimmed :: "nat \<Rightarrow> nat \<Rightarrow> string" where
  "trimmed n p = (if n mod 10 ^ p = 0 then show_nat 10 (n div 10 ^ p)
     else rev (dropWhile (\<lambda>c. c = CHR ''0'') (rev (fixed_text n p))))"

definition gen_text :: "rat \<Rightarrow> int \<Rightarrow> nat \<Rightarrow> string" where
  "gen_text x e k = (let (n, e') = sci_parts x e (k - 1) in
     if - 4 \<le> e' \<and> e' < int k then trimmed n (nat (int k - 1 - e')) else trimmed n (k - 1) @ exp_text e')"

text \<open>What is printed for the parts of \<open>n\<close> when zeros are omitted, without a sign and without padding.\<close>

abbreviation g_flags :: pflags where
  "g_flags \<equiv> no_flags\<lparr>F_TYPE_G := True\<rparr>"

lemma emit_trimmed:
  assumes "unat (p_intpart q) = n div 10 ^ p" "unat (p_fracpart q) = n mod 10 ^ p" "p_precision q = int p" "siz \<le> length (o_str o')"
  shows "fmtflt_emit siz q [] 0 g_flags o' = Inr (put siz (trimmed n p @ rev (fmtflt_exponent q g_flags)) o')"
proof -
  let ?ds = "show_nat 10 (n mod 10 ^ p)" and ?z = "\<lambda>c. c = CHR ''0''"
  have ci: "rev (convert (unat (p_intpart q)) MAX_CONVERT_LENGTH 10 False) = show_nat 10 (n div 10 ^ p)"
    using u64_convert [of 10 "p_intpart q"] assms(1) by simp
  have frac0: "p_fracpart q = 0 \<longleftrightarrow> n mod 10 ^ p = 0" using assms(2) by (metis unat_eq_0)
  show ?thesis
  proof (cases "n mod 10 ^ p = 0")
    case True
    then show ?thesis using assms(3,4) frac0 ci
      by (simp add: fmtflt_emit_def Let_def OUTCHARS_put digits_loop_plain zeros_def trimmed_def)
  next
    case False
    define fc where "fc = convert (unat (p_fracpart q)) MAX_CONVERT_LENGTH 10 False"
    have rfc: "rev fc = ?ds" using u64_convert [of 10 "p_fracpart q"] assms(2) by (simp add: fc_def)
    then have fc: "fc = rev ?ds" "length fc = length ?ds" by (metis rev_rev_ident, metis length_rev)
    have p: "p \<noteq> 0" using False by (intro notI) simp
    have nz: "hd ?ds \<in> set fc" "hd ?ds \<noteq> CHR ''0''" using hd_show_nat [of 10 "n mod 10 ^ p"] False fc by simp_all
    have om: "length (takeWhile ?z fc) < length fc"
      using nz by (metis length_takeWhile_le le_neq_implies_less set_takeWhileD takeWhile_eq_take take_all order_refl)
    have pos: "0 < length fc" using om by linarith
    have len: "length ?ds \<le> Suc (p - 1)" by (rule length_show_nat) (use p in simp_all)
    then have om': "length (takeWhile ?z fc) < p" "fc \<noteq> []" using om pos p fc(2) by auto
    have "dropWhile ?z (rev (fixed_text n p)) = dropWhile ?z fc @ replicate (p - length ?ds) (CHR ''0'') @ ''.'' @ rev (show_nat 10 (n div 10 ^ p))"
      using p nz by (simp add: fixed_text_def Let_def fc(1) dropWhile_append1 [of "hd ?ds"])
    then have t: "trimmed n p = show_nat 10 (n div 10 ^ p) @ ''.'' @ replicate (p - length ?ds) (CHR ''0'') @ rev (dropWhile ?z fc)"
      using False by (simp add: trimmed_def)
    have "nat (int p - int (length ?ds)) = p - length ?ds" by simp
    then show ?thesis using assms(3,4) frac0 False ci om om' pos fc(2)
      by (simp add: fmtflt_emit_def Let_def OUTCHARS_put digits_loop_plain zeros_def t fc_def [symmetric] dropWhile_eq_drop nat_diff_distrib)
  qed
qed

lemma sci_parts_bounds:
  assumes "sci_parts x e p = (n, e')"
  shows "e \<le> e'" "e' \<le> e + 1"
  using assms by (auto simp: sci_parts_def Let_def split: if_splits)

lemma below_u64:
  assumes "x < 10 powi (e + 1)" "e \<le> 15"
  shows "x < (2 :: rat) ^ 64 - 1"
proof -
  have "(10 :: rat) powi (e + 1) \<le> 10 powi 16" using assms(2) by (intro power_int_increasing) simp_all
  also have "\<dots> < 2 ^ 64 - 1" by (simp add: power_int_def)
  finally show ?thesis using assms(1) by simp
qed

lemma fmtflt_general:
  assumes "10 powi e \<le> x" "x < 10 powi (e + 1)" "- 99 \<le> e" "e \<le> 99" "1 \<le> k" "k \<le> 16" "snd (sci_parts x e (k - 1)) \<le> 99"
    and siz: "siz \<le> length (o_str o')"
  shows "fmtflt rat_ops siz x 0 (int k) g_flags o' = Inr (False, put siz (gen_text x e k) o')"
proof -
  define p where "p = k - 1"
  have p: "int k - 1 = int p" "p \<le> 19" "p \<le> 15" using assms(5,6) by (simp_all add: p_def)
  obtain n e' where s: "sci_parts x e p = (n, e')" by (cases "sci_parts x e p")
  obtain q where q: "fmtflt_split rat_ops x True e (int p) = Some q" "unat (p_intpart q) = n div 10 ^ p" "unat (p_fracpart q) = n mod 10 ^ p"
      "p_precision q = int p" "p_estyle q" "p_exponent q = e'"
    using split_scientific [OF assms(1,2) p(2) s] by blast
  note b = sci_parts_bounds [OF s]
  have x: "0 < x" by (rule mantissa_range(3) [OF assms(1,2)])
  have parts: "fmtflt_parts rat_ops x (int k) g_flags =
      (if - 4 \<le> e' \<and> e' < int k then fmtflt_split rat_ops x False e' (int p - e') else Some q)"
    using q getexponent_exact [OF assms(1-4)] p(1) by (auto simp: fmtflt_parts_def)
  show ?thesis
  proof (cases "- 4 \<le> e' \<and> e' < int k")
    case True
    let ?r = "nat (int p - e')"
    have r: "?r \<le> 19" "int ?r = int p - e'" "e' \<le> int p" using True p by auto
    have lt: "x < 2 ^ 64 - 1" by (rule below_u64 [OF assms(2)]) (use b r(3) p(3) in simp)
    have n: "scaled x ?r = n" by (rule scaled_again [OF assms(1,2) s r(3)])
    obtain q' where q': "fmtflt_split rat_ops x False e' (int ?r) = Some q'" "unat (p_intpart q') = n div 10 ^ ?r"
        "unat (p_fracpart q') = n mod 10 ^ ?r" "p_precision q' = int ?r" "\<not> p_estyle q'"
      using split_exact [OF less_imp_le [OF x] lt r(1), of e'] n by auto
    have "fmtflt_parts rat_ops x (int k) g_flags = Some q'" using parts True q'(1) r(2) by simp
    moreover have "fmtflt_emit siz q' [] 0 g_flags o' = Inr (put siz (trimmed n ?r) o')"
      using emit_trimmed [OF q'(2-4) siz] q'(5) by (simp add: fmtflt_exponent_def)
    moreover have "gen_text x e k = trimmed n ?r"
      unfolding gen_text_def p_def [symmetric] s p(1) using True by simp
    ultimately show ?thesis using x by (simp add: fmtflt_def ISNAN_def ISINF_def)
  next
    case False
    then have "fmtflt_parts rat_ops x (int k) g_flags = Some q" using parts by auto
    moreover have "\<bar>e'\<bar> \<le> 99" using b assms(3,7) s by (simp add: p_def)
    then have "rev (fmtflt_exponent q g_flags) = exp_text e'" using fmtflt_exponent_exact [OF q(5), of g_flags] q(6) by simp
    then have "fmtflt_emit siz q [] 0 g_flags o' = Inr (put siz (trimmed n p @ exp_text e') o')"
      using emit_trimmed [OF q(2-4) siz] by simp
    moreover have "gen_text x e k = trimmed n p @ exp_text e'"
      unfolding gen_text_def p_def [symmetric] s p(1) using False by auto
    ultimately show ?thesis using x by (simp add: fmtflt_def ISNAN_def ISINF_def)
  qed
qed

lemma length_trimmed: "length (trimmed n p) \<le> length (fixed_text n p)"
proof (cases "n mod 10 ^ p = 0")
  case True
  then show ?thesis by (simp add: trimmed_def fixed_text_def Let_def)
next
  case False
  then show ?thesis using length_dropWhile_le [of _ "rev (fixed_text n p)"] by (simp add: trimmed_def)
qed

lemma gen_text_short:
  assumes "10 powi e \<le> x" "x < 10 powi (e + 1)" "- 99 \<le> e" "1 \<le> k" "k \<le> 16" "snd (sci_parts x e (k - 1)) \<le> 99"
  shows "int (length (gen_text x e k)) < INT_MAX"
proof -
  define p where "p = k - 1"
  have p: "int k - 1 = int p" "p \<le> 19" "p \<le> 15" using assms(4,5) by (simp_all add: p_def)
  obtain n e' where s: "sci_parts x e p = (n, e')" by (cases "sci_parts x e p")
  show ?thesis
  proof (cases "- 4 \<le> e' \<and> e' < int k")
    case True
    then have r: "nat (int p - e') \<le> 19" "e' \<le> int p" using p by auto
    have lt: "x < 2 ^ 64 - 1" by (rule below_u64 [OF assms(2)]) (use sci_parts_bounds [OF s] r(2) p(3) in simp)
    have "int (length (fixed_text n (nat (int p - e')))) < INT_MAX"
      using fixed_text_short [OF less_imp_le [OF mantissa_range(3) [OF assms(1,2)]] lt r(1)] scaled_again [OF assms(1,2) s r(2)] by simp
    moreover have "gen_text x e k = trimmed n (nat (int p - e'))"
      unfolding gen_text_def p_def [symmetric] s p(1) using True by simp
    ultimately show ?thesis using length_trimmed [of n "nat (int p - e')"] by simp
  next
    case False
    then have "gen_text x e k = trimmed n p @ exp_text e'" unfolding gen_text_def p_def [symmetric] s p(1) by auto
    moreover have "int (length (sci_text x e p)) < INT_MAX"
      using sci_text_short [OF assms(1-3) p(2)] assms(6) by (simp add: p_def)
    ultimately show ?thesis using length_trimmed [of n p] by (simp add: sci_text_def s)
  qed
qed

section \<open>The format\<close>

lemma vsn_prec_g:
  assumes "fmtflt rat_ops siz x 0 (int k) g_flags o' = Inr (False, put siz t o')" "1 \<le> k" "k \<le> 16"
  shows "vsn_loop rat_ops siz (between (''%.*g'' @ fmt) (AInt (of_nat k) # AFlt x # args) st o') = vsn_loop rat_ops siz (between fmt args st (put siz t o'))"
proof -
  have "int_of_slot (of_nat k) = int k"
    using assms(3) unfolding int_of_slot_def by (simp add: unsigned_of_nat take_bit_nat_eq_self signed_of_nat signed_take_bit_int_eq_self)
  with assms show ?thesis by (simp add: vsn_more between_def vsn_steps conv_flt_def)
qed

text \<open>
  C32: In exact arithmetic, \<open>%.*g\<close> follows the rule of C99: for every positive number whose decimal exponent lies between -99 and 99 and is at most 99 also
  after rounding (beyond, \<open>getexponent\<close> gives up, and a carry into a third digit is lost, as \<open>exponent_digit_lost\<close> shows for \<open>%e\<close>), and a precision of \<open>k\<close> significant digits, 1 to 16, let \<open>n\<close> be the mantissa rounded to \<open>k\<close> digits and \<open>X\<close> the exponent after
  rounding. If \<open>- 4 \<le> X < k\<close> the text is the decimal numeral with these digits and \<open>k - 1 - X\<close> of them behind the point, otherwise the mantissa and the
  exponent; zeros at the end of the fraction are dropped, and the point with them. The second conversion of
  the number, after the jump back, never changes a digit.
\<close>

theorem general_correct:
  assumes "10 powi e \<le> x" "x < 10 powi (e + 1)" "- 99 \<le> e" "e \<le> 99" "1 \<le> k" "k \<le> 16" "snd (sci_parts x e (k - 1)) \<le> 99" "siz \<le> length str"
  shows "rpl_vsnprintf rat_ops (Some str) siz ''%.*g'' [AInt (of_nat k), AFlt x] =
    Inr \<lparr>r_ret = int (length (gen_text x e k)), r_errno = None, r_str = fst (snprintf str siz (gen_text x e k)), r_stores = []\<rparr>"
  using vsn_prec_g [OF fmtflt_general [OF assms(1-7), of siz "\<lparr>o_str = str, o_len = 0\<rparr>"] assms(5,6), of "[]" "[]" "[]"] assms(8)
  by (intro rpl_vsnprintf_run gen_text_short [OF assms(1-3,5-7)]) (simp_all add: vsn_Nil)

theorem general_correct_witness:
  "rpl_vsnprintf rat_ops (Some (replicate 16 NUL)) 16 ''%.*g'' [AInt 3, AFlt (1999 / 2)] =
     Inr \<lparr>r_ret = 5, r_errno = None, r_str = ''1e+03'' @ replicate 11 NUL, r_stores = []\<rparr>"
proof -
  have "\<lfloor>(1000 :: rat)\<rfloor> = 1000" by simp
  then have s: "sci_parts (1999 / 2) 2 2 = (100, 3)" by (simp add: sci_parts_def scaled_def power_int_def Let_def)
  have "trimmed 100 2 @ exp_text 3 = ''1e+03''" by code_simp
  then have t: "gen_text (1999 / 2) 2 3 = ''1e+03''" by (simp add: gen_text_def s)
  have "snprintf (replicate 16 NUL) 16 ''1e+03'' = (''1e+03'' @ replicate 11 NUL, 5)" by code_simp
  with general_correct [of 2 "1999 / 2" 3 16 "replicate 16 NUL"] show ?thesis by (simp add: s t power_int_def)
qed

end
