(* ===== verification/Base_Props.thy ===== *)
theory Base_Props
  imports Scheduler
begin

text \<open>
  Properties of the layers that scheduler, client library and command line tool share: the linked list macros, the messages on the wire and
  the generator of client identifiers.
\<close>

section \<open>Linked lists\<close>

text \<open>
  The macros of \<open>utlist.h\<close> return on every list that is well linked and act as a queue: \<open>LL_APPEND\<close> of a new node puts it last,
  \<open>LL_DELETE\<close> of a node in the list takes out just this node, the deleting \<open>LL_FOREACH_SAFE\<close> loop keeps exactly the other
  nodes in their order, and a node that is deleted and appended again is the last one.
\<close>

theorem linked_list_macros:
  assumes "ll_repr l xs" "a \<notin> set xs" "d \<in> set xs"
  shows "(\<exists>l'. LL_APPEND a l = Some l' \<and> ll_repr l' (xs @ [a]))
    \<and> (\<exists>l'. LL_DELETE d l = Some l' \<and> ll_repr l' (remove1 d xs))
    \<and> (\<exists>l'. ll_sweep P l = Some l' \<and> ll_repr l' (filter (\<lambda>x. \<not> P x) xs))
    \<and> (\<exists>l'. Option.bind (LL_DELETE d l) (LL_APPEND d) = Some l' \<and> ll_repr l' (remove1 d xs @ [d]))"
  using ll.repr_append [OF assms(1,2)] ll.repr_delete [OF assms(1,3)] ll.repr_sweep [OF assms(1)] ll.requeue [OF assms(1,3)] by blast

theorem linked_list_macros_witness:
  "\<exists>l :: nat llist. ll_repr l [1, 2, 3] \<and> (\<exists>l'. LL_DELETE 2 l = Some l' \<and> ll_repr l' [1, 3])"
proof -
  obtain l :: "nat llist" where l: "ll_repr l [1, 2, 3]" using ll.append_all [OF ll.repr_nil, of "[1, 2, 3 :: nat]"] by auto
  with linked_list_macros [OF l, of 4 2] show ?thesis by auto
qed

section \<open>Messages\<close>

lemma le_value_bound: "le_value cs < 256 ^ length cs"
proof (induction cs)
  case (Cons c cs)
  have "of_char c + 256 * le_value cs < 256 * Suc (le_value cs)" by simp
  also have "\<dots> \<le> 256 * 256 ^ length cs" using Cons by (intro mult_le_mono2) simp
  finally show ?case by simp
qed simp

lemma le_bytes_le_value: "le_bytes (length cs) (le_value cs) = cs"
proof (induction cs)
  case (Cons c cs)
  have c: "(of_char c :: nat) < 256" by simp
  then have "(of_char c + 256 * le_value cs) mod 256 = of_char c" "(of_char c + 256 * le_value cs) div 256 = le_value cs"
    by simp_all
  with Cons show ?case by simp
qed simp

lemma encode_decode_message:
  assumes "length bs = sizeof_message"
  shows "encode_message (decode_message bs) = bs"
proof -
  obtain c cs where bs: "bs = c # cs" using assms by (cases bs) auto
  let ?id = "take 8 (drop 508 cs)"
  have len: "length cs = 536" "length ?id = 8" using assms bs by auto
  have "unat (of_nat (le_value ?id) :: 64 word) = le_value ?id"
    using le_value_bound [of ?id] len(2) by (simp add: unsigned_of_nat take_bit_nat_eq_self)
  then have id: "le_bytes 8 (unat (of_nat (le_value ?id) :: 64 word)) = ?id"
    using le_bytes_le_value [of ?id] len(2) by simp
  have "unat (of_nat (of_char c) :: 8 word) = of_char c"
    by (simp add: unsigned_of_nat take_bit_nat_eq_self)
  then have t: "char_of (unat (of_nat (of_char c) :: 8 word)) = c" by simp
  have "take 254 cs @ take 254 (drop 254 cs) @ ?id @ take 20 (drop 516 cs) = cs"
    using len(1) append_take_drop_id [of 254 cs] append_take_drop_id [of 254 "drop 254 cs"] append_take_drop_id [of 8 "drop 508 cs"]
    by simp
  with id t show ?thesis by (simp add: bs encode_message_def decode_message_def msg_sizes del: le_bytes.simps)
qed

lemma le_bytes_nth: "i < n \<Longrightarrow> le_bytes n v ! i = char_of (v div 256 ^ i)"
proof (induction n arbitrary: v i)
  case (Suc n)
  then show ?case by (cases i) (simp_all add: div_mult2_eq)
qed simp

lemma encode_message_nth:
  assumes "message_ok m"
  shows "encode_message m ! 0 = char_of (unat (m_type m))"
    and "i < 254 \<Longrightarrow> encode_message m ! (1 + i) = m_pod_name m ! i"
    and "i < 254 \<Longrightarrow> encode_message m ! (255 + i) = m_pod_namespace m ! i"
    and "i < 8 \<Longrightarrow> encode_message m ! (509 + i) = char_of (unat (m_id m) div 256 ^ i)"
    and "i < 20 \<Longrightarrow> encode_message m ! (517 + i) = m_data m ! i"
  using assms by (simp_all add: encode_message_def message_ok_def msg_sizes nth_append le_bytes_nth del: le_bytes.simps)

text \<open>
  C22: The wire format is that of the packed \<open>struct message\<close> of \<open>comm.h\<close> on a little-endian machine: 537 bytes, of which byte 0 is the
  type, an enumeration of one byte with the codes 1 to 8 in the order of its declaration, bytes 1 to 254 are \<open>pod_name\<close>, bytes 255 to 508 are
  \<open>pod_namespace\<close>, bytes 509 to 516 are the ID, the least significant byte first, and bytes 517 to 536 are \<open>data\<close>. Messages
  with fields of the declared sizes and sequences of 537 bytes stand for each other one to one.
\<close>

theorem wire_format:
  "(\<forall>m. message_ok m \<longrightarrow> length (encode_message m) = 537 \<and> decode_message (encode_message m) = m
      \<and> encode_message m ! 0 = char_of (unat (m_type m))
      \<and> (\<forall>i < 254. encode_message m ! (1 + i) = m_pod_name m ! i)
      \<and> (\<forall>i < 254. encode_message m ! (255 + i) = m_pod_namespace m ! i)
      \<and> (\<forall>i < 8. encode_message m ! (509 + i) = char_of (unat (m_id m) div 256 ^ i))
      \<and> (\<forall>i < 20. encode_message m ! (517 + i) = m_data m ! i))
   \<and> (\<forall>bs. length bs = 537 \<longrightarrow> message_ok (decode_message bs) \<and> encode_message (decode_message bs) = bs)
   \<and> map message_type_code [REGISTER, SCHED_ON, SCHED_OFF, REQ_LOCK, LOCK_OK, DROP_LOCK, LOCK_RELEASED, SET_TQ] = [1, 2, 3, 4, 5, 6, 7, 8]"
  using message_ok_decode encode_decode_message decode_encode_message encode_message_nth by simp

theorem wire_format_witness:
  "encode_message (decode_message (replicate 537 (CHR ''x''))) = replicate 537 (CHR ''x'')
   \<and> encode_message (zero_message\<lparr>m_id := 0x0201\<rparr>) ! 509 = CHR 0x01 \<and> encode_message (zero_message\<lparr>m_id := 0x0201\<rparr>) ! 510 = CHR 0x02"
proof -
  have ok: "message_ok (zero_message\<lparr>m_id := 0x0201\<rparr>)" by (simp add: message_ok_def zero_message_def)
  from wire_format ok have "\<forall>i < 8. encode_message (zero_message\<lparr>m_id := 0x0201\<rparr>) ! (509 + i) = char_of (unat (0x0201 :: 64 word) div 256 ^ i)"
    by fastforce
  from this [rule_format, of 0] this [rule_format, of 1]
  have "encode_message (zero_message\<lparr>m_id := 0x0201\<rparr>) ! 509 = CHR 0x01" "encode_message (zero_message\<lparr>m_id := 0x0201\<rparr>) ! 510 = CHR 0x02"
    by (simp_all add: char_of_def bit_iff_odd)
  with wire_format show ?thesis by simp
qed

text \<open>
  C16: A message arrives as it was sent, however the kernel cuts it up. If \<open>write_whole\<close> reports the length of the message, then the bytes it has put
  on the socket, delivered in any non-empty pieces, make \<open>nvshare_receive_block\<close> return the length of a message and a buffer that
  decodes to the message sent.
\<close>

theorem message_survives_fragmentation:
  assumes "message_ok m" "write_whole fd (encode_message m) k = Inr (int sizeof_message, k1)"
    and "sent_to fd k1 = sent_to fd k @ concat ps" "\<forall>p \<in> set ps. p \<noteq> []" "answers r = map piece ps @ as"
  shows "\<exists>buf r'. nvshare_receive_block fd' sizeof_message r = Inr (int sizeof_message, buf, r') \<and> decode_message buf = m \<and> answers r' = as"
proof -
  have "concat ps = encode_message m"
    using write_whole_transmits [OF assms(2)] assms(1,3) by auto
  from nvshare_receive_block_message [OF assms(1) this assms(4,5)] decode_encode_message [OF assms(1)] show ?thesis by blast
qed

theorem message_survives_fragmentation_witness:
  "\<exists>buf r'. nvshare_receive_block 4 sizeof_message
      \<lparr>answers = map piece [take 100 (encode_message zero_message), drop 100 (encode_message zero_message)], calls = []\<rparr>
    = Inr (537, buf, r') \<and> decode_message buf = zero_message"
proof -
  let ?b = "encode_message zero_message"
  let ?a = "\<lparr>ret = 537, err = 0, bytes = []\<rparr>"
  have len: "length ?b = 537" by simp
  then have "?b \<noteq> []" by (metis list.size(3) zero_neq_numeral)
  with len have ne: "?b \<noteq> []" "take 100 ?b \<noteq> []" "drop 100 ?b \<noteq> []" by auto
  then have w: "write_whole 3 ?b \<lparr>answers = [?a], calls = []\<rparr> = Inr (int sizeof_message, \<lparr>answers = [], calls = [(Sys_write 3 ?b, ?a)]\<rparr>)"
    by (simp add: write_whole_def write_loop.simps interrupted_def)
  have s: "sent_to 3 \<lparr>answers = [], calls = [(Sys_write 3 ?b, ?a)]\<rparr> = sent_to 3 \<lparr>answers = [?a], calls = []\<rparr> @ concat [take 100 ?b, drop 100 ?b]"
    by (simp add: sent_to_def)
  show ?thesis
    using message_survives_fragmentation [OF zero_message_ok w s, of "\<lparr>answers = map piece [take 100 ?b, drop 100 ?b], calls = []\<rparr>" "[]" 4] ne
    by auto
qed

section \<open>Identifiers\<close>

text \<open>The three values of \<open>rand\<close> that make \<open>nvshare_generate_id\<close> return \<open>w\<close>.\<close>

definition rands_for :: "64 word \<Rightarrow> rands" where
  "rands_for w = [ucast (drop_bit 62 w), ucast (drop_bit 31 w), ucast w]"

lemma generate_rands_for: "nvshare_generate_id (rands_for w @ rs) = Inr (w, rs)"
  using nvshare_generate_id_onto [of w] by (simp add: nvshare_generate_id_eq rands_for_def)

text \<open>
  C21: The search for a new identifier ends: whatever identifiers \<open>rand\<close> produces first, as soon as one comes that is neither the reserved one nor
  taken, this one is returned and the search is over; and every 64-bit identifier can be produced.
\<close>

theorem pick_id_terminates:
  assumes "\<forall>u \<in> set us. u = NVSHARE_UNREGISTERED_ID \<or> u \<in> set ids" "w \<noteq> NVSHARE_UNREGISTERED_ID" "w \<notin> set ids"
  shows "pick_id ids (concat (map rands_for us) @ rands_for w @ rs) = Inr (w, rs)"
  using assms(1)
proof (induction us)
  case Nil
  with assms(2,3) show ?case by (simp add: pick_id.simps [of ids] generate_rands_for)
next
  case (Cons u us)
  then show ?case by (auto simp: pick_id.simps [of ids "rands_for u @ _"] generate_rands_for)
qed

theorem pick_id_terminates_witness:
  "pick_id [5] (concat (map rands_for [5, 5]) @ rands_for 7) = Inr (7, [])"
  using pick_id_terminates [of "[5, 5]" "[5]" 7 "[]"] by (simp add: NVSHARE_UNREGISTERED_ID_def)

end
