(* ===== verification/Utlist_LL.thy ===== *)
theory Utlist_LL
  imports Utlist
begin

text \<open>
  The other macros for singly linked lists of \<open>src/src/utlist.h\<close>, in the configuration with \<open>__typeof\<close>: prepending, concatenation, ordered
  insertion, replacing, insertion before and after a node, counting and searching. As in theory \<open>Utlist\<close> a result \<open>None\<close> means that the
  macro does not return: it runs forever, reads through NULL or fails an \<open>assert\<close>. A comparison function is a function into \<open>int\<close>,
  a function that is handed NULL is not.
\<close>

section \<open>The macros\<close>

definition LL_PREPEND :: "'a \<Rightarrow> 'a llist \<Rightarrow> 'a llist" where
  "LL_PREPEND add l = l\<lparr>ll_next := (ll_next l)(add := ll_head l), ll_head := Some add\<rparr>"

text \<open>\<open>head1\<close> is the head of \<open>l\<close>; \<open>head2\<close> is the head of another list in the same memory.\<close>

definition LL_CONCAT :: "'a llist \<Rightarrow> 'a option \<Rightarrow> 'a llist option" where
  "LL_CONCAT l head2 =
     (case ll_head l of
        Some h \<Rightarrow> (case ll_last (ll_next l) h of
            None \<Rightarrow> None
          | Some tmp \<Rightarrow> Some (l\<lparr>ll_next := (ll_next l)(tmp := head2)\<rparr>))
      | None \<Rightarrow> Some (l\<lparr>ll_head := head2\<rparr>))"

text \<open>The loop of \<open>LL_LOWER_BOUND\<close>.\<close>

partial_function (option) ll_bound :: "('a \<Rightarrow> 'a option) \<Rightarrow> ('a \<Rightarrow> 'a \<Rightarrow> int) \<Rightarrow> 'a \<Rightarrow> 'a \<Rightarrow> 'a option" where
  "ll_bound nxt cmp like elt =
     (case nxt elt of
        None \<Rightarrow> Some elt
      | Some q \<Rightarrow> if 0 \<le> cmp q like then Some elt else ll_bound nxt cmp like q)"

definition LL_LOWER_BOUND :: "('a \<Rightarrow> 'a \<Rightarrow> int) \<Rightarrow> 'a \<Rightarrow> 'a llist \<Rightarrow> 'a option option" where
  "LL_LOWER_BOUND cmp like l =
     (case ll_head l of
        None \<Rightarrow> Some None
      | Some h \<Rightarrow> if 0 \<le> cmp h like then Some None else map_option Some (ll_bound (ll_next l) cmp like h))"

definition LL_APPEND_ELEM :: "'a option \<Rightarrow> 'a \<Rightarrow> 'a llist \<Rightarrow> 'a llist option" where
  "LL_APPEND_ELEM el add l =
     (case el of
        Some e \<Rightarrow>
          (if ll_head l = None then None
           else let nxt = (ll_next l)(add := ll_next l e) in Some (l\<lparr>ll_next := nxt(e := Some add)\<rparr>))
      | None \<Rightarrow> Some (LL_PREPEND add l))"

definition LL_INSERT_INORDER :: "('a \<Rightarrow> 'a \<Rightarrow> int) \<Rightarrow> 'a \<Rightarrow> 'a llist \<Rightarrow> 'a llist option" where
  "LL_INSERT_INORDER cmp add l =
     (case ll_head l of
        Some _ \<Rightarrow> Option.bind (LL_LOWER_BOUND cmp add l) (\<lambda>tmp. LL_APPEND_ELEM tmp add l)
      | None \<Rightarrow> Some (l\<lparr>ll_head := Some add, ll_next := (ll_next l)(add := None)\<rparr>))"

text \<open>The search for the node before \<open>el\<close> in \<open>LL_REPLACE_ELEM\<close> and \<open>LL_PREPEND_ELEM\<close>, and the assignment to its \<open>next\<close>.\<close>

definition ll_relink :: "'a \<Rightarrow> 'a \<Rightarrow> 'a llist \<Rightarrow> 'a llist option" where
  "ll_relink el add l =
     (case ll_head l of
        None \<Rightarrow> None
      | Some h \<Rightarrow>
          (if h = el then Some (l\<lparr>ll_head := Some add\<rparr>)
           else case ll_seek (ll_next l) el h of
             None \<Rightarrow> None
           | Some tmp \<Rightarrow> Some (if ll_next l tmp = None then l else l\<lparr>ll_next := (ll_next l)(tmp := Some add)\<rparr>)))"

definition LL_REPLACE_ELEM :: "'a \<Rightarrow> 'a \<Rightarrow> 'a llist \<Rightarrow> 'a llist option" where
  "LL_REPLACE_ELEM el add l = ll_relink el add (l\<lparr>ll_next := (ll_next l)(add := ll_next l el)\<rparr>)"

definition LL_PREPEND_ELEM :: "'a option \<Rightarrow> 'a \<Rightarrow> 'a llist \<Rightarrow> 'a llist option" where
  "LL_PREPEND_ELEM el add l =
     (case el of
        Some e \<Rightarrow> ll_relink e add (l\<lparr>ll_next := (ll_next l)(add := Some e)\<rparr>)
      | None \<Rightarrow> LL_APPEND add l)"

text \<open>
  \<open>LL_FOREACH\<close> reads the successor after the body has run. The body works on the list and variables of its own; it may leave the loop
  with \<open>break\<close> (the flag), and the result has the element at which the loop ended.
\<close>

partial_function (option) LL_FOREACH ::
  "('a \<Rightarrow> 'a llist \<times> 's \<Rightarrow> (bool \<times> 'a llist \<times> 's) option) \<Rightarrow> 'a option \<Rightarrow> 'a llist \<times> 's \<Rightarrow> ('a option \<times> 'a llist \<times> 's) option" where
  "LL_FOREACH body el st =
     (case el of
        None \<Rightarrow> Some (None, st)
      | Some e \<Rightarrow> Option.bind (body e st) (\<lambda>(brk, st). if brk then Some (Some e, st) else LL_FOREACH body (ll_next (fst st) e) st))"

text \<open>The counter has the type of the caller's variable.\<close>

definition LL_COUNT :: "'a llist \<Rightarrow> 'c::semiring_1 option" where
  "LL_COUNT l = map_option (\<lambda>(_, _, c). c) (LL_FOREACH (\<lambda>e (l, c). Some (False, l, c + 1)) (ll_head l) (l, 0))"

definition LL_SEARCH :: "('a \<Rightarrow> 'a \<Rightarrow> int) \<Rightarrow> 'a \<Rightarrow> 'a llist \<Rightarrow> 'a option option" where
  "LL_SEARCH cmp elt l = map_option fst (LL_FOREACH (\<lambda>out (l, u). Some (cmp out elt = 0, l, u)) (ll_head l) (l, ()))"

definition LL_SEARCH_SCALAR :: "('a \<Rightarrow> 'v) \<Rightarrow> 'v \<Rightarrow> 'a llist \<Rightarrow> 'a option option" where
  "LL_SEARCH_SCALAR fld val l = map_option fst (LL_FOREACH (\<lambda>out (l, u). Some (fld out = val, l, u)) (ll_head l) (l, ()))"

section \<open>The macros refine list operations\<close>

lemma LL_PREPEND_refines: "ll_repr l xs \<Longrightarrow> a \<notin> set xs \<Longrightarrow> ll_repr (LL_PREPEND a l) (a # xs)"
  by (simp add: ll_repr_def LL_PREPEND_def)

lemma ll_path_tail:
  "ll_path nxt p xs None \<Longrightarrow> xs \<noteq> [] \<Longrightarrow> last xs \<notin> set ys \<Longrightarrow> ll_path nxt q ys r \<Longrightarrow> ll_path (nxt(last xs := q)) p (xs @ ys) r"
proof (induction xs arbitrary: p)
  case Nil
  then show ?case by simp
next
  case (Cons x xs)
  have "x \<notin> set xs" using Cons.prems(1) by (auto dest: ll_path_head_notin)
  with Cons show ?case by (cases "xs = []") (auto simp: fun_upd_def [symmetric])
qed

lemma LL_CONCAT_refines:
  assumes "ll_repr l xs" "ll_path (ll_next l) head2 ys None" "set xs \<inter> set ys = {}"
  shows "\<exists>l'. LL_CONCAT l head2 = Some l' \<and> ll_repr l' (xs @ ys)"
proof (cases "xs = []")
  case True
  with assms show ?thesis by (simp add: LL_CONCAT_def ll_repr_def)
next
  case False
  then obtain h where h: "ll_head l = Some h" using assms(1) by (cases xs) (auto simp: ll_repr_def)
  with assms(1) have "ll_last (ll_next l) h = Some (last xs)" by (intro ll_last_path) (simp add: ll_repr_def)
  moreover have "last xs \<notin> set ys" using False assms(3) last_in_set by blast
  ultimately show ?thesis using ll_path_tail [of "ll_next l" "ll_head l" xs ys head2 None] assms False h
    by (simp add: LL_CONCAT_def ll_repr_def)
qed

lemma ll_bound_path:
  "ll_path nxt (Some p) (p # xs) None \<Longrightarrow> ll_bound nxt cmp like p = Some (last (p # takeWhile (\<lambda>x. cmp x like < 0) xs))"
proof (induction xs arbitrary: p)
  case Nil
  then show ?case by (simp add: ll_bound.simps)
next
  case (Cons x xs)
  then show ?case by (auto simp: ll_bound.simps [of nxt cmp like p])
qed

lemma LL_LOWER_BOUND_refines:
  assumes "ll_repr l xs"
  shows "LL_LOWER_BOUND cmp like l =
    (let small = takeWhile (\<lambda>x. cmp x like < 0) xs in Some (if small = [] then None else Some (last small)))"
  using assms ll_bound_path [of "ll_next l" _ _ cmp like]
  by (cases xs) (auto simp: LL_LOWER_BOUND_def ll_repr_def Let_def)

lemma ll_path_insert:
  assumes "ll_path nxt p (ys @ e # zs) None" "a \<notin> set (ys @ e # zs)"
  shows "ll_path (nxt(a := nxt e, e := Some a)) p (ys @ e # a # zs) None"
proof -
  have "distinct (ys @ e # zs)" using ll_path_distinct [OF assms(1)] .
  with assms show ?thesis by auto
qed

lemma LL_APPEND_ELEM_refines:
  assumes "ll_repr l (ys @ e # zs)" "a \<notin> set (ys @ e # zs)"
  shows "\<exists>l'. LL_APPEND_ELEM (Some e) a l = Some l' \<and> ll_repr l' (ys @ e # a # zs)"
proof -
  have "ll_head l \<noteq> None" using assms(1) by (cases ys) (auto simp: ll_repr_def)
  with ll_path_insert [OF assms(1) [unfolded ll_repr_def] assms(2)] show ?thesis
    by (auto simp: LL_APPEND_ELEM_def ll_repr_def Let_def simp del: ll_path_append)
qed

text \<open>Ordered insertion puts the new element before the first one that is not less.\<close>

lemma LL_INSERT_INORDER_refines:
  assumes "ll_repr l xs" "a \<notin> set xs"
  shows "\<exists>l'. LL_INSERT_INORDER cmp a l = Some l'
    \<and> ll_repr l' (takeWhile (\<lambda>x. cmp x a < 0) xs @ a # dropWhile (\<lambda>x. cmp x a < 0) xs)"
proof (cases "takeWhile (\<lambda>x. cmp x a < 0) xs" rule: rev_cases)
  case Nil
  then have "dropWhile (\<lambda>x. cmp x a < 0) xs = xs" by (metis append_Nil takeWhile_dropWhile_id)
  with Nil assms LL_PREPEND_refines [OF assms] LL_LOWER_BOUND_refines [OF assms(1), of cmp a] show ?thesis
    by (cases xs) (auto simp: LL_INSERT_INORDER_def LL_APPEND_ELEM_def ll_repr_def)
next
  case (snoc ys e)
  let ?zs = "dropWhile (\<lambda>x. cmp x a < 0) xs"
  have xs: "ys @ e # ?zs = xs" using snoc takeWhile_dropWhile_id [of "\<lambda>x. cmp x a < 0" xs] by simp
  have "ll_repr l (ys @ e # ?zs)" "a \<notin> set (ys @ e # ?zs)" using assms unfolding xs .
  from LL_APPEND_ELEM_refines [OF this] obtain l' where "LL_APPEND_ELEM (Some e) a l = Some l'" "ll_repr l' (ys @ e # a # ?zs)" by blast
  moreover have "ll_head l \<noteq> None" using assms(1) xs by (cases xs) (auto simp: ll_repr_def)
  ultimately show ?thesis using LL_LOWER_BOUND_refines [OF assms(1), of cmp a] snoc by (auto simp: LL_INSERT_INORDER_def)
qed

lemma ll_relink_at:
  assumes "ll_path (ll_next l) (ll_head l) (ys @ [e]) r" "distinct (ys @ [e])" "a \<notin> set (ys @ e # zs)" "set ys \<inter> set zs = {}"
    and "ll_path (ll_next l) (Some a) (a # zs) None" "r \<noteq> Some e" "ll_path (ll_next l) r ws None"
  shows "\<exists>l'. ll_relink e a l = Some l' \<and> ll_repr l' (ys @ a # zs)"
proof (cases ys)
  case Nil
  with assms show ?thesis by (auto simp: ll_relink_def ll_repr_def)
next
  case (Cons h ts)
  have hd: "ll_head l = Some h" using assms(1) Cons by auto
  have "ll_path (ll_next l) (Some h) (ys @ e # ws) None" using assms(1,7) hd by auto
  then have seek: "ll_seek (ll_next l) e h = Some (last ys)"
    using assms(2) Cons by (intro ll_seek_path) auto
  have split: "butlast ys @ [last ys] = ys" using Cons by simp
  have pre: "ll_path (ll_next l) (Some h) (butlast ys @ [last ys]) (Some e)" using assms(1) hd unfolding split by auto
  then have nx: "ll_next l (last ys) = Some e" "ll_path (ll_next l) (Some h) (butlast ys) (Some (last ys))" by auto
  have "last ys \<notin> set (butlast ys)" using assms(2) split by (metis distinct_append not_distinct_conv_prefix)
  moreover have "last ys \<notin> set (a # zs)" using assms(3,4) Cons last_in_set [of ys] by auto
  ultimately have "ll_path ((ll_next l)(last ys := Some a)) (Some h) ((butlast ys @ [last ys]) @ a # zs) None"
    using nx assms(5) by auto
  then show ?thesis using hd seek nx assms(2) Cons unfolding split by (auto simp: ll_relink_def ll_repr_def)
qed

lemma LL_REPLACE_ELEM_refines:
  assumes "ll_repr l (ys @ e # zs)" "a \<notin> set (ys @ e # zs)"
  shows "\<exists>l'. LL_REPLACE_ELEM e a l = Some l' \<and> ll_repr l' (ys @ a # zs)"
proof -
  have d: "distinct (ys @ e # zs)" using ll_repr_distinct [OF assms(1)] .
  then have "ll_next l e \<noteq> Some e" using assms(1) by (cases zs) (auto simp: ll_repr_def)
  then show ?thesis unfolding LL_REPLACE_ELEM_def
    by (intro ll_relink_at [where r = "ll_next l e" and ws = zs]) (use assms d in \<open>auto simp: ll_repr_def\<close>)
qed

lemma LL_PREPEND_ELEM_refines:
  assumes "ll_repr l (ys @ e # zs)" "a \<notin> set (ys @ e # zs)"
  shows "\<exists>l'. LL_PREPEND_ELEM (Some e) a l = Some l' \<and> ll_repr l' (ys @ a # e # zs)"
proof -
  have d: "distinct (ys @ e # zs)" using ll_repr_distinct [OF assms(1)] .
  then have "ll_next l e \<noteq> Some e" using assms(1) by (cases zs) (auto simp: ll_repr_def)
  then show ?thesis unfolding LL_PREPEND_ELEM_def option.case
    by (intro ll_relink_at [where r = "ll_next l e" and ws = zs]) (use assms d in \<open>auto simp: ll_repr_def\<close>)
qed

text \<open>A loop whose body leaves the list alone visits its nodes in order, up to the first that breaks.\<close>

lemma LL_FOREACH_path:
  assumes "ll_path (ll_next l) p xs None" "\<And>e s. body e (l, s) = Some (brk e, l, f e s)"
  shows "LL_FOREACH body p (l, s) =
    Some (find brk xs, l, fold f (takeWhile (\<lambda>e. \<not> brk e) xs @ (case find brk xs of None \<Rightarrow> [] | Some e \<Rightarrow> [e])) s)"
  using assms(1)
proof (induction xs arbitrary: p s)
  case Nil
  then show ?case by (simp add: LL_FOREACH.simps)
next
  case (Cons x xs)
  then show ?case by (auto simp: LL_FOREACH.simps [of body "Some x"] assms(2))
qed

lemma fold_count: "fold (\<lambda>e c. c + 1) xs c = c + (of_nat (length xs) :: 'c::semiring_1)"
  by (induction xs arbitrary: c) (auto simp: add_ac)

lemma find_never [simp]: "find (\<lambda>_. False) xs = None" and takeWhile_always [simp]: "takeWhile (\<lambda>_. True) xs = xs"
  by (induction xs) auto

lemma LL_COUNT_refines:
  assumes "ll_repr l xs"
  shows "LL_COUNT l = (Some (of_nat (length xs)) :: 'c::semiring_1 option)"
  using LL_FOREACH_path [of l "ll_head l" xs "\<lambda>e (l, c). Some (False, l, c + 1)" "\<lambda>_. False" "\<lambda>e c. c + 1" "0 :: 'c"] assms
  by (simp add: LL_COUNT_def ll_repr_def fold_count)

lemma LL_SEARCH_refines:
  assumes "ll_repr l xs"
  shows "LL_SEARCH cmp elt l = Some (find (\<lambda>x. cmp x elt = 0) xs)"
    and "LL_SEARCH_SCALAR fld val l = Some (find (\<lambda>x. fld x = val) xs)"
  using assms LL_FOREACH_path [of l "ll_head l" xs "\<lambda>out (l, u). Some (cmp out elt = 0, l, u)" "\<lambda>x. cmp x elt = 0" "\<lambda>_ u. u" "()"]
    LL_FOREACH_path [of l "ll_head l" xs "\<lambda>out (l, u). Some (fld out = val, l, u)" "\<lambda>x. fld x = val" "\<lambda>_ u. u" "()"]
  by (simp_all add: LL_SEARCH_def LL_SEARCH_SCALAR_def ll_repr_def)

end
