(* ===== verification/Utlist_Sort.thy ===== *)
theory Utlist_Sort
  imports Utlist "HOL-Library.Multiset"
begin

text \<open>
  The bottom-up merge sort of \<open>src/src/utlist.h\<close> (\<open>LL_SORT\<close>, \<open>DL_SORT\<close>, \<open>CDL_SORT\<close>). The three macros are the same loops; they differ in how a
  successor is read and in what is written when a node is moved to the result and at the end of a pass. The loops are
  here, with those operations as parameters. The locale \<open>sort_store\<close> is what the operations have to guarantee, and its theorem is that
  the macro returns and sorts, stably.
\<close>

section \<open>The loops\<close>

text \<open>\<open>for (i = 0; i < insize; i++) { psize++; q = q->next; if (!q) break; }\<close>\<close>

fun sort_skip :: "('a \<Rightarrow> 'a option) \<Rightarrow> nat \<Rightarrow> 'a \<Rightarrow> nat \<Rightarrow> nat \<times> 'a option" where
  "sort_skip nx 0 q psize = (psize, Some q)"
| "sort_skip nx (Suc i) q psize = (case nx q of None \<Rightarrow> (psize + 1, None) | Some q' \<Rightarrow> sort_skip nx i q' (psize + 1))"

text \<open>
  The loop that merges the \<open>psize\<close> nodes from \<open>p\<close> with at most \<open>qsize\<close> nodes from \<open>q\<close>: the successor of the node \<open>e\<close> that is taken is read
  first, then \<open>e\<close> is moved to the result. Reading through a NULL \<open>p\<close> is \<open>None\<close>.
\<close>

fun sort_merge :: "('s \<Rightarrow> 'a \<Rightarrow> 'a option) \<Rightarrow> ('a \<Rightarrow> 's \<Rightarrow> 's) \<Rightarrow> ('a \<Rightarrow> 'a \<Rightarrow> int) \<Rightarrow> 'a option \<Rightarrow> nat \<Rightarrow> 'a option \<Rightarrow> nat \<Rightarrow> 's
    \<Rightarrow> ('a option \<times> 's) option" where
  "sort_merge nx emit cmp p psize q qsize st =
     (if psize = 0 then
        (case q of
           Some e \<Rightarrow> if qsize = 0 then Some (q, st) else sort_merge nx emit cmp p psize (nx st e) (qsize - 1) (emit e st)
         | None \<Rightarrow> Some (q, st))
      else
        (case p of
           None \<Rightarrow> None
         | Some e \<Rightarrow>
             (case q of
                None \<Rightarrow> sort_merge nx emit cmp (nx st e) (psize - 1) q qsize (emit e st)
              | Some f \<Rightarrow>
                  (if qsize = 0 then sort_merge nx emit cmp (nx st e) (psize - 1) q qsize (emit e st)
                   else if cmp e f \<le> 0 then sort_merge nx emit cmp (nx st e) (psize - 1) q qsize (emit e st)
                   else sort_merge nx emit cmp p psize (nx st f) (qsize - 1) (emit f st)))))"

declare sort_merge.simps [simp del]

text \<open>\<open>while (p)\<close>: one pass over the list; \<open>nmerges\<close> counts the merges.\<close>

partial_function (option) sort_runs :: "('s \<Rightarrow> 'a \<Rightarrow> 'a option) \<Rightarrow> ('a \<Rightarrow> 's \<Rightarrow> 's) \<Rightarrow> ('a \<Rightarrow> 'a \<Rightarrow> int) \<Rightarrow> nat \<Rightarrow> 'a option \<Rightarrow> nat \<Rightarrow> 's
    \<Rightarrow> (nat \<times> 's) option" where
  "sort_runs nx emit cmp insize p nmerges st =
     (case p of
        None \<Rightarrow> Some (nmerges, st)
      | Some h \<Rightarrow>
          (case sort_skip (nx st) insize h 0 of (psize, q) \<Rightarrow>
             Option.bind (sort_merge nx emit cmp (Some h) psize q insize st) (\<lambda>(q, st).
               sort_runs nx emit cmp insize q (nmerges + 1) st)))"

text \<open>
  \<open>while (looping)\<close>. \<open>start\<close> is what precedes the pass (\<open>list = NULL; tail = NULL\<close>) and \<open>finish\<close> what follows it. At the end
  \<open>insize\<close>, an \<open>int\<close>, is doubled, also after the last pass; an overflow is undefined.
\<close>

partial_function (option) sort_passes :: "('s \<Rightarrow> 'a \<Rightarrow> 'a option) \<Rightarrow> ('a \<Rightarrow> 's \<Rightarrow> 's) \<Rightarrow> ('s \<Rightarrow> 'a option) \<Rightarrow> ('s \<Rightarrow> 's) \<Rightarrow> ('s \<Rightarrow> 's option)
    \<Rightarrow> ('a \<Rightarrow> 'a \<Rightarrow> int) \<Rightarrow> nat \<Rightarrow> 's \<Rightarrow> 's option" where
  "sort_passes nx emit lst start finish cmp insize st =
     Option.bind (sort_runs nx emit cmp insize (lst st) 0 (start st)) (\<lambda>(nmerges, st).
     Option.bind (finish st) (\<lambda>st.
       if 2 ^ 31 \<le> 2 * insize then None
       else if nmerges \<le> 1 then Some st
       else sort_passes nx emit lst start finish cmp (2 * insize) st))"

section \<open>The same on lists\<close>

fun merge_by :: "('a \<Rightarrow> 'a \<Rightarrow> int) \<Rightarrow> 'a list \<Rightarrow> 'a list \<Rightarrow> 'a list" where
  "merge_by cmp [] ys = ys"
| "merge_by cmp xs [] = xs"
| "merge_by cmp (x # xs) (y # ys) = (if cmp x y \<le> 0 then x # merge_by cmp xs (y # ys) else y # merge_by cmp (x # xs) ys)"

lemma merge_by_Nil2 [simp]: "merge_by cmp xs [] = xs"
  by (cases xs) auto

lemma set_merge_by [simp]: "set (merge_by cmp xs ys) = set xs \<union> set ys"
  by (induction cmp xs ys rule: merge_by.induct) auto

lemma mset_merge_by [simp]: "mset (merge_by cmp xs ys) = mset xs + mset ys"
  by (induction cmp xs ys rule: merge_by.induct) auto

lemma length_merge_by [simp]: "length (merge_by cmp xs ys) = length xs + length ys"
  by (metis mset_merge_by size_mset size_union)

lemma distinct_merge_by: "distinct (merge_by cmp xs ys) \<longleftrightarrow> distinct (xs @ ys)"
  by (rule mset_eq_imp_distinct_iff) simp

text \<open>A pass: neighbouring stretches of length \<open>n\<close> are merged.\<close>

function pass_by :: "('a \<Rightarrow> 'a \<Rightarrow> int) \<Rightarrow> nat \<Rightarrow> 'a list \<Rightarrow> 'a list" where
  "pass_by cmp n xs = (if xs = [] \<or> n = 0 then [] else merge_by cmp (take n xs) (take n (drop n xs)) @ pass_by cmp n (drop (2 * n) xs))"
  by pat_completeness auto
termination by (relation "measure (\<lambda>(cmp, n, xs). length xs)") auto

declare pass_by.simps [simp del]

lemma pass_by_Nil [simp]: "pass_by cmp n [] = []"
  by (simp add: pass_by.simps)

lemma take_drop_double: "take n xs @ take n (drop n xs) @ drop (2 * n) xs = xs" for n :: nat
  by (metis append_take_drop_id drop_drop mult_2)

lemma mset_pass_by: "0 < n \<Longrightarrow> mset (pass_by cmp n xs) = mset xs"
proof (induction cmp n xs rule: pass_by.induct)
  case (1 cmp n xs)
  show ?case
  proof (cases "xs = []")
    case False
    then have "mset (pass_by cmp n xs) = mset (take n xs @ take n (drop n xs) @ drop (2 * n) xs)"
      using 1 by (simp add: pass_by.simps [of cmp n xs])
    then show ?thesis by (simp only: take_drop_double)
  qed simp
qed

lemma length_pass_by [simp]: "0 < n \<Longrightarrow> length (pass_by cmp n xs) = length xs"
  by (metis mset_pass_by size_mset)

text \<open>The stretches of length \<open>n\<close> of a list.\<close>

function stretches :: "nat \<Rightarrow> 'a list \<Rightarrow> 'a list list" where
  "stretches n xs = (if xs = [] \<or> n = 0 then [] else take n xs # stretches n (drop n xs))"
  by pat_completeness auto
termination by (relation "measure (\<lambda>(n, xs). length xs)") auto

declare stretches.simps [simp del]

lemma stretches_append:
  assumes "0 < n" "length as = n \<or> ys = [] \<and> length as \<le> n" "as \<noteq> []"
  shows "stretches n (as @ ys) = as # stretches n ys"
proof -
  have "drop n (as @ ys) = ys" "take n (as @ ys) = as" using assms by auto
  then show ?thesis using assms by (simp add: stretches.simps [of n "as @ ys"])
qed

section \<open>Sorting\<close>

text \<open>What a comparison function has to satisfy, and what a stable sort of a list is.\<close>

definition orders :: "('a \<Rightarrow> 'a \<Rightarrow> int) \<Rightarrow> bool" where
  "orders cmp \<longleftrightarrow> (\<forall>x y. cmp x y \<le> 0 \<or> cmp y x \<le> 0) \<and> (\<forall>x y z. cmp x y \<le> 0 \<and> cmp y z \<le> 0 \<longrightarrow> cmp x z \<le> 0)"

definition ties :: "('a \<Rightarrow> 'a \<Rightarrow> int) \<Rightarrow> 'a \<Rightarrow> 'a \<Rightarrow> bool" where
  "ties cmp x y \<longleftrightarrow> cmp x y \<le> 0 \<and> cmp y x \<le> 0"

abbreviation sorted_by :: "('a \<Rightarrow> 'a \<Rightarrow> int) \<Rightarrow> 'a list \<Rightarrow> bool" where
  "sorted_by cmp \<equiv> sorted_wrt (\<lambda>x y. cmp x y \<le> 0)"

definition stable_sort :: "('a \<Rightarrow> 'a \<Rightarrow> int) \<Rightarrow> 'a list \<Rightarrow> 'a list \<Rightarrow> bool" where
  "stable_sort cmp xs ys \<longleftrightarrow> mset ys = mset xs \<and> sorted_by cmp ys \<and> (\<forall>z. filter (ties cmp z) ys = filter (ties cmp z) xs)"

lemma orders_total: "orders cmp \<Longrightarrow> \<not> cmp x y \<le> 0 \<Longrightarrow> cmp y x \<le> 0"
  and orders_trans: "orders cmp \<Longrightarrow> cmp x y \<le> 0 \<Longrightarrow> cmp y z \<le> 0 \<Longrightarrow> cmp x z \<le> 0"
  unfolding orders_def by blast+

lemma sorted_merge_by: "orders cmp \<Longrightarrow> sorted_by cmp xs \<Longrightarrow> sorted_by cmp ys \<Longrightarrow> sorted_by cmp (merge_by cmp xs ys)"
  by (induction cmp xs ys rule: merge_by.induct) (auto intro: orders_trans orders_total)

text \<open>An element that is taken from the second list first is smaller than all of the first list.\<close>

lemma ties_merge_by:
  "orders cmp \<Longrightarrow> sorted_by cmp xs \<Longrightarrow> sorted_by cmp ys \<Longrightarrow>
   filter (ties cmp z) (merge_by cmp xs ys) = filter (ties cmp z) xs @ filter (ties cmp z) ys"
proof (induction cmp xs ys rule: merge_by.induct)
  case (3 cmp x xs y ys)
  have "\<not> ties cmp z v" if "\<not> cmp x y \<le> 0" "ties cmp z y" "v \<in> set (x # xs)" for v
  proof
    assume "ties cmp z v"
    moreover have "cmp x v \<le> 0" using 3 that orders_total [of cmp x x] by auto
    ultimately have "cmp x y \<le> 0" using that(2) 3(3) orders_trans [of cmp] unfolding ties_def by blast
    with that show False by simp
  qed
  then have "filter (ties cmp z) (x # xs) = []" if "\<not> cmp x y \<le> 0" "ties cmp z y"
    using that by (simp only: filter_empty_conv) blast
  with 3 show ?case by (cases "cmp x y \<le> 0"; cases "ties cmp z y") auto
qed simp_all

lemma stretches_pass:
  assumes "orders cmp"
  shows "0 < n \<Longrightarrow> \<forall>c \<in> set (stretches n xs). sorted_by cmp c \<Longrightarrow>
    (\<forall>c \<in> set (stretches (2 * n) (pass_by cmp n xs)). sorted_by cmp c) \<and> (\<forall>z. filter (ties cmp z) (pass_by cmp n xs) = filter (ties cmp z) xs)"
proof (induction n xs rule: pass_by.induct [where ?P = "\<lambda>cmp n xs. _ n xs"])
  case (1 _ n xs)
  show ?case
  proof (cases "xs = []")
    case True
    then show ?thesis by (simp add: stretches.simps)
  next
    case False
    let ?a = "take n xs" and ?b = "take n (drop n xs)" and ?c = "drop (2 * n) xs"
    have st: "stretches n xs = ?a # stretches n (drop n xs)" using False 1(2) by (simp add: stretches.simps [of n xs])
    have c: "set (stretches n ?c) \<subseteq> set (stretches n (drop n xs))"
      by (subst (2) stretches.simps) (use 1(2) in \<open>auto simp: stretches.simps [of n "[]"] mult_2\<close>)
    have b: "sorted_by cmp ?b"
      using 1(3) st by (cases "drop n xs = []") (auto simp: stretches.simps [of n "drop n xs"] \<open>0 < n\<close>)
    have IH: "\<forall>c \<in> set (stretches (2 * n) (pass_by cmp n ?c)). sorted_by cmp c" "\<And>z. filter (ties cmp z) (pass_by cmp n ?c) = filter (ties cmp z) ?c"
      using 1(1) False 1(2,3) st c by auto
    have ab: "sorted_by cmp (merge_by cmp ?a ?b)" "\<And>z. filter (ties cmp z) (merge_by cmp ?a ?b) = filter (ties cmp z) ?a @ filter (ties cmp z) ?b"
      using sorted_merge_by [OF assms] ties_merge_by [OF assms] b 1(3) st by auto
    have pass: "pass_by cmp n xs = merge_by cmp ?a ?b @ pass_by cmp n ?c" using False 1(2) by (simp add: pass_by.simps [of cmp n xs])
    have "stretches (2 * n) (pass_by cmp n xs) = merge_by cmp ?a ?b # stretches (2 * n) (pass_by cmp n ?c)"
      unfolding pass
    proof (rule stretches_append)
      show "length (merge_by cmp ?a ?b) = 2 * n \<or> pass_by cmp n ?c = [] \<and> length (merge_by cmp ?a ?b) \<le> 2 * n"
        by (cases "2 * n \<le> length xs") auto
      show "merge_by cmp ?a ?b \<noteq> []" using False 1(2) by (metis length_merge_by add_is_0 length_0_conv take_eq_Nil neq0_conv)
    qed (use 1(2) in simp)
    moreover have "filter (ties cmp z) (pass_by cmp n xs) = filter (ties cmp z) xs" for z
    proof -
      have "filter (ties cmp z) (pass_by cmp n xs) = filter (ties cmp z) (?a @ ?b @ ?c)" using pass ab(2) IH(2) by simp
      then show ?thesis by (simp only: take_drop_double)
    qed
    ultimately show ?thesis using IH(1) ab(1) by simp
  qed
qed

lemma stretches_whole: "length xs \<le> n \<Longrightarrow> xs \<noteq> [] \<Longrightarrow> stretches n xs = [xs]"
  by (cases n) (auto simp: stretches.simps [of _ xs] stretches.simps [of _ "[]"])

lemma stretches_one: "c \<in> set (stretches (Suc 0) xs) \<Longrightarrow> sorted_by cmp c"
proof (induction xs)
  case Nil
  then show ?case by (simp add: stretches.simps [of _ "[]"])
next
  case (Cons x xs)
  have "stretches (Suc 0) (x # xs) = [x] # stretches (Suc 0) xs" by (subst stretches.simps) simp
  with Cons show ?case by auto
qed

lemma length_stretches: "0 < n \<Longrightarrow> length (stretches n xs) \<le> 1 \<longleftrightarrow> length xs \<le> n"
  by (cases "xs = []"; cases "drop n xs = []") (auto simp: stretches.simps [of n xs] stretches.simps [of n "drop n xs"] stretches.simps [of _ "[]"])

section \<open>The contract of the store\<close>

text \<open>
  What the loops need of the memory they work on. \<open>stands st xs\<close>: between two passes the list is \<open>xs\<close>. \<open>building ys st\<close>: during a pass \<open>ys\<close> has been
  moved to the result. Moving a node changes the successors of moved nodes only.
\<close>

locale sort_store =
  fixes nx :: "'s \<Rightarrow> 'a \<Rightarrow> 'a option"
    and emit :: "'a \<Rightarrow> 's \<Rightarrow> 's"
    and lst :: "'s \<Rightarrow> 'a option"
    and start :: "'s \<Rightarrow> 's"
    and finish :: "'s \<Rightarrow> 's option"
    and stands :: "'s \<Rightarrow> 'a list \<Rightarrow> bool"
    and building :: "'a list \<Rightarrow> 's \<Rightarrow> bool"
  assumes started: "stands st xs \<Longrightarrow> xs \<noteq> [] \<Longrightarrow> building [] (start st) \<and> ll_path (nx (start st)) (lst st) xs None"
    and emitted: "building ys st \<Longrightarrow> e \<notin> set ys \<Longrightarrow> distinct ys \<Longrightarrow>
      building (ys @ [e]) (emit e st) \<and> (\<forall>x. x \<notin> set ys \<longrightarrow> nx (emit e st) x = nx st x)"
    and finished: "building ys st \<Longrightarrow> ys \<noteq> [] \<Longrightarrow> distinct ys \<Longrightarrow> \<exists>st'. finish st = Some st' \<and> stands st' ys"
begin

lemma skip:
  "ll_path nxt (Some h) (h # xs) None \<Longrightarrow>
   \<exists>q. sort_skip nxt n h k = (k + length (take n (h # xs)), q) \<and> ll_path nxt (Some h) (take n (h # xs)) q \<and> ll_path nxt q (drop n (h # xs)) None"
proof (induction n arbitrary: h xs k)
  case 0
  then show ?case by simp
next
  case (Suc n)
  show ?case
  proof (cases xs)
    case Nil
    with Suc.prems show ?thesis by simp
  next
    case (Cons y ys)
    with Suc.prems have y: "nxt h = Some y" "ll_path nxt (Some y) (y # ys) None" by auto
    from Suc.IH [OF y(2), of "k + 1"] y(1) Cons show ?thesis by auto
  qed
qed

lemma emitted_path:
  assumes "building ys st" "e \<notin> set ys" "distinct ys" "set xs \<inter> set ys = {}"
  shows "ll_path (nx (emit e st)) p xs r = ll_path (nx st) p xs r"
  using emitted [OF assms(1-3)] assms(4) by (intro ll_path_cong) auto

lemma merge:
  "building ds st \<Longrightarrow> ll_path (nx st) p ps r \<Longrightarrow> ll_path (nx st) q qs None \<Longrightarrow> distinct (ds @ ps @ qs) \<Longrightarrow>
   \<exists>q' st'. sort_merge nx emit cmp p (length ps) q k st = Some (q', st') \<and> building (ds @ merge_by cmp ps (take k qs)) st'
     \<and> ll_path (nx st') q' (drop k qs) None"
proof (induction "length ps + k" arbitrary: ds st p ps q qs k)
  case 0
  then show ?case by (cases q) (auto simp: sort_merge.simps)
next
  case (Suc n)
  have from_p: ?case if ps: "ps = e # es" and c: "k = 0 \<or> qs = [] \<or> cmp e (hd qs) \<le> 0" for e es
  proof -
    have p: "p = Some e" "ll_path (nx st) (nx st e) es r" using Suc.prems(2) ps by auto
    have b: "building (ds @ [e]) (emit e st)" using emitted [OF Suc.prems(1)] Suc.prems(4) ps by simp
    have "set es \<inter> set ds = {}" "set qs \<inter> set ds = {}" "e \<notin> set ds" "distinct ds" using Suc.prems(4) ps by auto
    then have "ll_path (nx (emit e st)) (nx st e) es r" "ll_path (nx (emit e st)) q qs None"
      using emitted_path [OF Suc.prems(1), of e] p(2) Suc.prems(3) by auto
    from Suc.hyps(1) [OF _ b this] Suc.hyps(2) Suc.prems(4) ps
    obtain q' st' where "sort_merge nx emit cmp (nx st e) (length es) q k (emit e st) = Some (q', st')"
      "building ((ds @ [e]) @ merge_by cmp es (take k qs)) st'" "ll_path (nx st') q' (drop k qs) None" by auto
    moreover have "merge_by cmp ps (take k qs) = e # merge_by cmp es (take k qs)"
      using ps c by (cases qs; cases k) auto
    moreover have "sort_merge nx emit cmp p (length ps) q k st = sort_merge nx emit cmp (nx st e) (length es) q k (emit e st)"
      by (subst sort_merge.simps) (use ps p(1) c Suc.prems(3) in \<open>cases qs; auto\<close>)
    ultimately show ?thesis by simp
  qed
  have from_q: ?case if qs: "qs = f # fs" and k: "k = Suc k'" and c: "ps = [] \<or> \<not> cmp (hd ps) f \<le> 0" for f fs k'
  proof -
    have q: "q = Some f" "ll_path (nx st) (nx st f) fs None" using Suc.prems(3) qs by auto
    have b: "building (ds @ [f]) (emit f st)" using emitted [OF Suc.prems(1)] Suc.prems(4) qs by simp
    have "set ps \<inter> set ds = {}" "set fs \<inter> set ds = {}" "f \<notin> set ds" "distinct ds" using Suc.prems(4) qs by auto
    then have "ll_path (nx (emit f st)) p ps r" "ll_path (nx (emit f st)) (nx st f) fs None"
      using emitted_path [OF Suc.prems(1), of f] q(2) Suc.prems(2) by auto
    from Suc.hyps(1) [OF _ b this, of k'] Suc.hyps(2) Suc.prems(4) qs k
    obtain q' st' where "sort_merge nx emit cmp p (length ps) (nx st f) k' (emit f st) = Some (q', st')"
      "building ((ds @ [f]) @ merge_by cmp ps (take k' fs)) st'" "ll_path (nx st') q' (drop k' fs) None" by auto
    moreover have "merge_by cmp ps (take k qs) = f # merge_by cmp ps (take k' fs)" using qs k c by (cases ps) auto
    moreover have "sort_merge nx emit cmp p (length ps) q k st = sort_merge nx emit cmp p (length ps) (nx st f) k' (emit f st)"
      by (subst sort_merge.simps) (use qs k q(1) c Suc.prems(2) in \<open>cases ps; auto\<close>)
    ultimately show ?thesis using qs k by simp
  qed
  show ?case
  proof (cases ps)
    case Nil
    show ?thesis
    proof (cases qs)
      case Nil
      with \<open>ps = []\<close> Suc.prems show ?thesis by (auto simp: sort_merge.simps)
    next
      case (Cons f fs)
      with \<open>ps = []\<close> Suc.hyps(2) from_q show ?thesis by (cases k) auto
    qed
  next
    case (Cons e es)
    show ?thesis
    proof (cases "k = 0 \<or> qs = [] \<or> cmp e (hd qs) \<le> 0")
      case True
      with Cons from_p show ?thesis by blast
    next
      case False
      then obtain f fs k' where "qs = f # fs" "k = Suc k'" by (cases qs; cases k) auto
      with False Cons from_q show ?thesis by auto
    qed
  qed
qed

lemma runs:
  assumes n: "0 < n"
  shows "building ds st \<Longrightarrow> ll_path (nx st) p xs None \<Longrightarrow> distinct (ds @ xs) \<Longrightarrow>
    \<exists>st'. sort_runs nx emit cmp n p m st = Some (m + length (stretches (2 * n) xs), st') \<and> building (ds @ pass_by cmp n xs) st'"
proof (induction "length xs" arbitrary: ds st p xs m rule: less_induct)
  case less
  show ?case
  proof (cases xs)
    case Nil
    with less.prems show ?thesis by (simp add: sort_runs.simps stretches.simps [of _ "[]"])
  next
    case (Cons h ys)
    let ?a = "take n xs" and ?b = "drop n xs" and ?m = "merge_by cmp (take n xs) (take n (drop n xs))"
    have "xs \<noteq> []" and h: "p = Some h" using less.prems(2) Cons by auto
    then obtain q where q: "sort_skip (nx st) n h 0 = (length ?a, q)" "ll_path (nx st) p ?a q" "ll_path (nx st) q ?b None"
      using skip [of "nx st" h ys n 0] less.prems(2) Cons by auto
    have "distinct (ds @ ?a @ ?b)" using less.prems(3) by simp
    from merge [OF less.prems(1) q(2,3) this, of cmp n] obtain q' st' where
      m: "sort_merge nx emit cmp p (length ?a) q n st = Some (q', st')" "building (ds @ ?m) st'" "ll_path (nx st') q' (drop n ?b) None" by blast
    have rest: "drop n ?b = drop (2 * n) xs" by (simp add: mult_2)
    have "distinct (ds @ ?a @ take n ?b @ drop (2 * n) xs)" using less.prems(3) by (simp only: take_drop_double)
    then have "distinct ((ds @ ?m) @ drop (2 * n) xs)" using distinct_merge_by [of cmp ?a "take n ?b"] by auto
    from less.hyps [OF _ m(2) m(3) [unfolded rest] this, of "m + 1"] n Cons obtain st'' where
      r: "sort_runs nx emit cmp n q' (m + 1) st' = Some (m + 1 + length (stretches (2 * n) (drop (2 * n) xs)), st'')"
        "building ((ds @ ?m) @ pass_by cmp n (drop (2 * n) xs)) st''" by auto
    have "pass_by cmp n xs = ?m @ pass_by cmp n (drop (2 * n) xs)" "length (stretches (2 * n) xs) = Suc (length (stretches (2 * n) (drop (2 * n) xs)))"
      using n \<open>xs \<noteq> []\<close> by (simp_all add: pass_by.simps [of cmp n xs] stretches.simps [of "2 * n" xs])
    with r m(1) q(1) h show ?thesis by (simp add: sort_runs.simps [of nx emit cmp n "Some h"])
  qed
qed

text \<open>
  A list in which the stretches of length \<open>n\<close> are sorted is sorted by the remaining passes; \<open>n\<close> does not overflow if the list has at
  most \<open>2 ^ 30\<close> nodes.
\<close>

lemma passes:
  assumes o: "orders cmp"
  shows "stands st xs \<Longrightarrow> xs \<noteq> [] \<Longrightarrow> distinct xs \<Longrightarrow> \<forall>c \<in> set (stretches n xs). sorted_by cmp c \<Longrightarrow> 0 < n \<Longrightarrow> n = 1 \<or> n < length xs \<Longrightarrow> length xs \<le> 2 ^ 30 \<Longrightarrow>
    \<exists>st' ys. sort_passes nx emit lst start finish cmp n st = Some st' \<and> stands st' ys \<and> stable_sort cmp xs ys"
proof (induction "length xs - n" arbitrary: st xs n rule: less_induct)
  case less
  let ?ys = "pass_by cmp n xs"
  have b: "building [] (start st)" "ll_path (nx (start st)) (lst st) xs None" using started [OF less.prems(1,2)] by auto
  obtain st1 where r: "sort_runs nx emit cmp n (lst st) 0 (start st) = Some (length (stretches (2 * n) xs), st1)" "building ?ys st1"
    using runs [OF less.prems(5) b, of cmp 0] less.prems(3) by auto
  have ys: "mset ?ys = mset xs" "length ?ys = length xs" using mset_pass_by length_pass_by less.prems(5) by auto
  then have d: "distinct ?ys" "?ys \<noteq> []" using less.prems(2,3) mset_eq_imp_distinct_iff by auto
  obtain st2 where f: "finish st1 = Some st2" "stands st2 ?ys" using finished [OF r(2) d(2,1)] by blast
  note S = stretches_pass [OF o less.prems(5,4)]
  have small: "\<not> 2 ^ 31 \<le> 2 * n" using less.prems(6,7) by auto
  show ?case
  proof (cases "length xs \<le> 2 * n")
    case True
    then have "sort_passes nx emit lst start finish cmp n st = Some st2"
      using r f small length_stretches [of "2 * n" xs] less.prems(5) by (subst sort_passes.simps) simp
    moreover have "sorted_by cmp ?ys" using S stretches_whole [of ?ys "2 * n"] True ys d(2) by simp
    ultimately show ?thesis using f ys S by (auto simp: stable_sort_def)
  next
    case False
    then have "sort_passes nx emit lst start finish cmp n st = sort_passes nx emit lst start finish cmp (2 * n) st2"
      using r f small length_stretches [of "2 * n" xs] less.prems(5) by (subst sort_passes.simps) simp
    moreover have dec: "length ?ys - 2 * n < length xs - n" using False less.prems(5) ys(2) by linarith
    obtain st' zs where "sort_passes nx emit lst start finish cmp (2 * n) st2 = Some st'" "stands st' zs" "stable_sort cmp ?ys zs"
      using less.hyps [OF dec f(2) d(2,1)] S False less.prems(5,7) ys(2) by auto
    ultimately show ?thesis using S ys by (auto simp: stable_sort_def)
  qed
qed

theorem sorts:
  assumes "orders cmp" "stands st xs" "xs \<noteq> []" "distinct xs" "length xs \<le> 2 ^ 30"
  shows "\<exists>st' ys. sort_passes nx emit lst start finish cmp 1 st = Some st' \<and> stands st' ys \<and> stable_sort cmp xs ys"
  by (rule passes) (use assms in \<open>auto intro: stretches_one\<close>)

end

section \<open>\<open>LL_SORT\<close>\<close>

text \<open>The variables \<open>list\<close> and \<open>_ls_tail\<close>, and the \<open>next\<close> fields.\<close>

record 'a lsort =
  ls_next :: "'a \<Rightarrow> 'a option"
  ls_list :: "'a option"
  ls_tail :: "'a option"

text \<open>\<open>if (tail) tail->next = e; else list = e; tail = e;\<close>\<close>

definition ll_emit :: "'a \<Rightarrow> ('a, 'b) lsort_scheme \<Rightarrow> ('a, 'b) lsort_scheme" where
  "ll_emit e st =
     (case ls_tail st of
        Some t \<Rightarrow> st\<lparr>ls_next := (ls_next st)(t := Some e)\<rparr>
      | None \<Rightarrow> st\<lparr>ls_list := Some e\<rparr>)\<lparr>ls_tail := Some e\<rparr>"

definition ll_start :: "('a, 'b) lsort_scheme \<Rightarrow> ('a, 'b) lsort_scheme" where
  "ll_start st = st\<lparr>ls_list := None, ls_tail := None\<rparr>"

text \<open>\<open>if (tail) tail->next = NULL;\<close>\<close>

definition ll_finish :: "('a, 'b) lsort_scheme \<Rightarrow> ('a, 'b) lsort_scheme option" where
  "ll_finish st = Some (case ls_tail st of None \<Rightarrow> st | Some t \<Rightarrow> st\<lparr>ls_next := (ls_next st)(t := None)\<rparr>)"

definition LL_SORT :: "('a \<Rightarrow> 'a \<Rightarrow> int) \<Rightarrow> 'a llist \<Rightarrow> 'a llist option" where
  "LL_SORT cmp l =
     (if ll_head l = None then Some l
      else map_option (\<lambda>st. \<lparr>ll_head = ls_list st, ll_next = ls_next st\<rparr>)
        (sort_passes ls_next ll_emit ls_list ll_start ll_finish cmp 1 \<lparr>ls_next = ll_next l, ls_list = ll_head l, ls_tail = None\<rparr>))"

definition ll_stands :: "('a, 'b) lsort_scheme \<Rightarrow> 'a list \<Rightarrow> bool" where
  "ll_stands st xs \<longleftrightarrow> ll_path (ls_next st) (ls_list st) xs None"

text \<open>The result so far: a list up to its last node, whose successor has not been set.\<close>

definition ll_building :: "'a list \<Rightarrow> ('a, 'b) lsort_scheme \<Rightarrow> bool" where
  "ll_building ys st \<longleftrightarrow>
     (if ys = [] then ls_list st = None \<and> ls_tail st = None
      else ls_tail st = Some (last ys) \<and> ll_path (ls_next st) (ls_list st) (butlast ys) (ls_tail st))"

lemma ll_emit_path:
  assumes "ll_building ys st" "e \<notin> set ys" "distinct ys"
  shows "ll_building (ys @ [e]) (ll_emit e st)" "x \<notin> set ys \<Longrightarrow> ls_next (ll_emit e st) x = ls_next st x"
    "ls_tail (ll_emit e st) = Some e"
proof -
  show "ll_building (ys @ [e]) (ll_emit e st)"
  proof (cases ys rule: rev_cases)
    case Nil
    with assms show ?thesis by (simp add: ll_building_def ll_emit_def)
  next
    case (snoc zs t)
    with assms show ?thesis by (auto simp: ll_building_def ll_emit_def butlast_append)
  qed
  show "x \<notin> set ys \<Longrightarrow> ls_next (ll_emit e st) x = ls_next st x" "ls_tail (ll_emit e st) = Some e"
    using assms by (auto simp: ll_building_def ll_emit_def split: option.splits if_splits)
qed

lemma ll_building_close:
  assumes "ll_building ys st" "ys \<noteq> []" "distinct ys"
  shows "ll_path ((ls_next st)(last ys := q)) (ls_list st) ys q"
proof (cases ys rule: rev_cases)
  case (snoc zs t)
  with assms show ?thesis by (auto simp: ll_building_def)
qed (use assms in simp)

lemma ll_sort_started: "ll_stands st xs \<Longrightarrow> ll_building [] (ll_start st) \<and> ll_path (ls_next (ll_start st)) (ls_list st) xs None"
  by (simp add: ll_stands_def ll_building_def ll_start_def)

lemma ll_sort_finished:
  assumes "ll_building ys st" "ys \<noteq> []" "distinct ys"
  shows "\<exists>st'. ll_finish st = Some st' \<and> ll_stands st' ys"
  using ll_building_close [OF assms, of None] assms by (simp add: ll_finish_def ll_stands_def ll_building_def)

interpretation ll_sort: sort_store ls_next ll_emit ls_list ll_start ll_finish ll_stands ll_building
  by unfold_locales (simp_all add: ll_sort_started ll_emit_path ll_sort_finished)

text \<open>\<open>LL_SORT\<close> returns, and it sorts stably.\<close>

lemma LL_SORT_refines:
  assumes "orders cmp" "ll_repr l xs" "length xs \<le> 2 ^ 30"
  shows "\<exists>l' ys. LL_SORT cmp l = Some l' \<and> ll_repr l' ys \<and> stable_sort cmp xs ys"
proof (cases xs)
  case Nil
  with assms(2) show ?thesis by (auto simp: LL_SORT_def ll_repr_def stable_sort_def)
next
  case (Cons x zs)
  let ?st = "\<lparr>ls_next = ll_next l, ls_list = ll_head l, ls_tail = None\<rparr>"
  have "ll_stands ?st xs" "xs \<noteq> []" "ll_head l \<noteq> None" using assms(2) Cons by (auto simp: ll_stands_def ll_repr_def)
  with ll_sort.sorts [OF assms(1) _ _ ll_repr_distinct [OF assms(2)] assms(3), of ?st] show ?thesis
    by (auto simp: LL_SORT_def ll_repr_def ll_stands_def)
qed

end
