(* ===== verification/Utlist_DL.thy ===== *)
theory Utlist_DL
  imports Utlist_LL Utlist_Sort
begin

text \<open>
  The macros for doubly linked lists of \<open>src/src/utlist.h\<close>. The \<open>next\<close> fields form a list that ends in NULL; every \<open>prev\<close> field leads to the
  node before, and that of the head to the last node. The macros refine the same list operations as the singly linked ones, without a loop
  for appending and unlinking, and interpret the same contract. As before, \<open>None\<close> means that a macro does not return.
\<close>

section \<open>The macros\<close>

record 'a dlist =
  dl_head :: "'a option"
  dl_next :: "'a \<Rightarrow> 'a option"
  dl_prev :: "'a \<Rightarrow> 'a option"

definition DL_PREPEND :: "'a \<Rightarrow> 'a dlist \<Rightarrow> 'a dlist" where
  "DL_PREPEND add d =
     (let nxt = (dl_next d)(add := dl_head d);
          prv = (case dl_head d of Some h \<Rightarrow> (dl_prev d)(add := dl_prev d h, h := Some add) | None \<Rightarrow> (dl_prev d)(add := Some add))
      in d\<lparr>dl_head := Some add, dl_next := nxt, dl_prev := prv\<rparr>)"

definition DL_APPEND :: "'a \<Rightarrow> 'a dlist \<Rightarrow> 'a dlist option" where
  "DL_APPEND add d =
     (case dl_head d of
        Some h \<Rightarrow>
          (let prv = (dl_prev d)(add := dl_prev d h) in
           case prv h of
             None \<Rightarrow> None
           | Some t \<Rightarrow> Some (d\<lparr>dl_next := (dl_next d)(t := Some add, add := None), dl_prev := prv(h := Some add)\<rparr>))
      | None \<Rightarrow> Some (d\<lparr>dl_head := Some add, dl_next := (dl_next d)(add := None), dl_prev := (dl_prev d)(add := Some add)\<rparr>))"

text \<open>The macros that only follow \<open>next\<close> are those of singly linked lists.\<close>

definition dl_forward :: "'a dlist \<Rightarrow> 'a llist" where
  "dl_forward d = \<lparr>ll_head = dl_head d, ll_next = dl_next d\<rparr>"

definition DL_LOWER_BOUND :: "('a \<Rightarrow> 'a \<Rightarrow> int) \<Rightarrow> 'a \<Rightarrow> 'a dlist \<Rightarrow> 'a option option" where
  "DL_LOWER_BOUND cmp like d = LL_LOWER_BOUND cmp like (dl_forward d)"

partial_function (option) DL_FOREACH ::
  "('a \<Rightarrow> 'a dlist \<times> 's \<Rightarrow> (bool \<times> 'a dlist \<times> 's) option) \<Rightarrow> 'a option \<Rightarrow> 'a dlist \<times> 's \<Rightarrow> ('a option \<times> 'a dlist \<times> 's) option" where
  "DL_FOREACH body el st =
     (case el of
        None \<Rightarrow> Some (None, st)
      | Some e \<Rightarrow> Option.bind (body e st) (\<lambda>(brk, st). if brk then Some (Some e, st) else DL_FOREACH body (dl_next (fst st) e) st))"

definition DL_COUNT :: "'a dlist \<Rightarrow> 'c::semiring_1 option" where
  "DL_COUNT d = map_option (\<lambda>(_, _, c). c) (DL_FOREACH (\<lambda>e (d, c). Some (False, d, c + 1)) (dl_head d) (d, 0))"

definition DL_SEARCH :: "('a \<Rightarrow> 'a \<Rightarrow> int) \<Rightarrow> 'a \<Rightarrow> 'a dlist \<Rightarrow> 'a option option" where
  "DL_SEARCH cmp elt d = LL_SEARCH cmp elt (dl_forward d)"

definition DL_SEARCH_SCALAR :: "('a \<Rightarrow> 'v) \<Rightarrow> 'v \<Rightarrow> 'a dlist \<Rightarrow> 'a option option" where
  "DL_SEARCH_SCALAR fld val d = LL_SEARCH_SCALAR fld val (dl_forward d)"

definition DL_CONCAT :: "'a dlist \<Rightarrow> 'a option \<Rightarrow> 'a dlist option" where
  "DL_CONCAT d head2 =
     (case head2 of
        None \<Rightarrow> Some d
      | Some h2 \<Rightarrow>
          (case dl_head d of
             Some h1 \<Rightarrow>
               (let tmp = dl_prev d h2; prv = (dl_prev d)(h2 := dl_prev d h1) in
                case prv h1 of
                  None \<Rightarrow> None
                | Some t \<Rightarrow> Some (d\<lparr>dl_next := (dl_next d)(t := Some h2), dl_prev := prv(h1 := tmp)\<rparr>))
           | None \<Rightarrow> Some (d\<lparr>dl_head := head2\<rparr>)))"

definition DL_DELETE :: "'a \<Rightarrow> 'a dlist \<Rightarrow> 'a dlist option" where
  "DL_DELETE del d =
     (case dl_head d of
        None \<Rightarrow> None
      | Some h \<Rightarrow>
          (case dl_prev d del of
             None \<Rightarrow> None
           | Some q \<Rightarrow>
               (if q = del then Some (d\<lparr>dl_head := None\<rparr>)
                else if del = h then
                  (case dl_next d del of
                     None \<Rightarrow> None
                   | Some n \<Rightarrow> Some (d\<lparr>dl_prev := (dl_prev d)(n := Some q), dl_head := Some n\<rparr>))
                else
                  (let nxt = (dl_next d)(q := dl_next d del) in
                   Some (d\<lparr>dl_next := nxt,
                     dl_prev := (case nxt del of Some n \<Rightarrow> (dl_prev d)(n := Some q) | None \<Rightarrow> (dl_prev d)(h := Some q))\<rparr>)))))"

partial_function (option) DL_FOREACH_SAFE ::
  "('a \<Rightarrow> 'a dlist \<Rightarrow> 'a dlist option) \<Rightarrow> 'a option \<Rightarrow> 'a dlist \<Rightarrow> 'a dlist option" where
  "DL_FOREACH_SAFE body el d =
     (case el of
        None \<Rightarrow> Some d
      | Some e \<Rightarrow> (let tmp = dl_next d e in Option.bind (body e d) (\<lambda>d'. DL_FOREACH_SAFE body tmp d')))"

definition dl_sweep :: "('a \<Rightarrow> bool) \<Rightarrow> 'a dlist \<Rightarrow> 'a dlist option" where
  "dl_sweep P d = DL_FOREACH_SAFE (\<lambda>e d. if P e then DL_DELETE e d else Some d) (dl_head d) d"

definition DL_REPLACE_ELEM :: "'a \<Rightarrow> 'a \<Rightarrow> 'a dlist \<Rightarrow> 'a dlist option" where
  "DL_REPLACE_ELEM el add d =
     (case dl_head d of
        None \<Rightarrow> None
      | Some h \<Rightarrow>
          (let nxt = (dl_next d)(add := dl_next d el) in
           if h = el then
             (case nxt el of
                None \<Rightarrow> Some (d\<lparr>dl_head := Some add, dl_next := nxt, dl_prev := (dl_prev d)(add := Some add)\<rparr>)
              | Some _ \<Rightarrow>
                  (let prv = (dl_prev d)(add := dl_prev d el) in
                   case nxt add of
                     None \<Rightarrow> None
                   | Some n \<Rightarrow> Some (d\<lparr>dl_head := Some add, dl_next := nxt, dl_prev := prv(n := Some add)\<rparr>)))
           else
             (let prv = (dl_prev d)(add := dl_prev d el) in
              case prv add of
                None \<Rightarrow> None
              | Some q \<Rightarrow>
                  (let nxt = nxt(q := Some add) in
                   case nxt el of
                     None \<Rightarrow> Some (d\<lparr>dl_next := nxt, dl_prev := prv(h := Some add)\<rparr>)
                   | Some _ \<Rightarrow>
                       (case nxt add of
                          None \<Rightarrow> None
                        | Some n \<Rightarrow> Some (d\<lparr>dl_next := nxt, dl_prev := prv(n := Some add)\<rparr>))))))"

definition DL_PREPEND_ELEM :: "'a option \<Rightarrow> 'a \<Rightarrow> 'a dlist \<Rightarrow> 'a dlist option" where
  "DL_PREPEND_ELEM el add d =
     (case el of
        None \<Rightarrow> DL_APPEND add d
      | Some e \<Rightarrow>
          (case dl_head d of
             None \<Rightarrow> None
           | Some h \<Rightarrow>
               (let nxt = (dl_next d)(add := Some e); prv = (dl_prev d)(add := dl_prev d e, e := Some add) in
                if h = e then Some (d\<lparr>dl_head := Some add, dl_next := nxt, dl_prev := prv\<rparr>)
                else case prv add of
                  None \<Rightarrow> None
                | Some q \<Rightarrow> Some (d\<lparr>dl_next := nxt(q := Some add), dl_prev := prv\<rparr>))))"

definition DL_APPEND_ELEM :: "'a option \<Rightarrow> 'a \<Rightarrow> 'a dlist \<Rightarrow> 'a dlist option" where
  "DL_APPEND_ELEM el add d =
     (case el of
        None \<Rightarrow> Some (DL_PREPEND add d)
      | Some e \<Rightarrow>
          (case dl_head d of
             None \<Rightarrow> None
           | Some h \<Rightarrow>
               (let nxt = (dl_next d)(add := dl_next d e, e := Some add); prv = (dl_prev d)(add := Some e) in
                Some (d\<lparr>dl_next := nxt,
                  dl_prev := (case nxt add of Some n \<Rightarrow> prv(n := Some add) | None \<Rightarrow> prv(h := Some add))\<rparr>))))"

definition DL_INSERT_INORDER :: "('a \<Rightarrow> 'a \<Rightarrow> int) \<Rightarrow> 'a \<Rightarrow> 'a dlist \<Rightarrow> 'a dlist option" where
  "DL_INSERT_INORDER cmp add d =
     (case dl_head d of
        Some _ \<Rightarrow> Option.bind (DL_LOWER_BOUND cmp add d) (\<lambda>tmp. DL_APPEND_ELEM tmp add d)
      | None \<Rightarrow> Some (d\<lparr>dl_head := Some add, dl_prev := (dl_prev d)(add := Some add), dl_next := (dl_next d)(add := None)\<rparr>))"

section \<open>Which list a head pointer stands for\<close>

text \<open>The \<open>prev\<close> fields of \<open>xs\<close>, with \<open>q\<close> before the first node.\<close>

primrec backs :: "('a \<Rightarrow> 'a option) \<Rightarrow> 'a option \<Rightarrow> 'a list \<Rightarrow> bool" where
  "backs prv q [] = True"
| "backs prv q (x # xs) = (prv x = q \<and> backs prv (Some x) xs)"

definition dl_repr :: "'a dlist \<Rightarrow> 'a list \<Rightarrow> bool" where
  "dl_repr d xs \<longleftrightarrow> ll_path (dl_next d) (dl_head d) xs None \<and> backs (dl_prev d) (Some (last xs)) xs"

lemma backs_append [simp]: "backs prv q (xs @ ys) \<longleftrightarrow> backs prv q xs \<and> backs prv (if xs = [] then q else Some (last xs)) ys"
  by (induction xs arbitrary: q) auto

lemma backs_upd [simp]: "x \<notin> set xs \<Longrightarrow> backs (prv(x := v)) q xs = backs prv q xs"
  by (induction xs arbitrary: q) auto

lemma dl_repr_forward: "dl_repr d xs \<Longrightarrow> ll_repr (dl_forward d) xs"
  by (simp add: dl_repr_def ll_repr_def dl_forward_def)

lemma dl_repr_distinct: "dl_repr d xs \<Longrightarrow> distinct xs"
  using dl_repr_forward ll_repr_distinct by blast

section \<open>The macros refine list operations\<close>

lemma DL_PREPEND_refines:
  assumes "dl_repr d xs" "a \<notin> set xs"
  shows "dl_repr (DL_PREPEND a d) (a # xs)"
  using assms dl_repr_distinct [OF assms(1)] by (cases xs) (auto simp: dl_repr_def DL_PREPEND_def Let_def)

lemma DL_APPEND_refines:
  assumes "dl_repr d xs" "a \<notin> set xs"
  shows "\<exists>d'. DL_APPEND a d = Some d' \<and> dl_repr d' (xs @ [a])"
proof (cases xs rule: rev_cases)
  case Nil
  with assms show ?thesis by (simp add: dl_repr_def DL_APPEND_def)
next
  case (snoc ys t)
  with assms dl_repr_distinct [OF assms(1)] show ?thesis
    by (cases ys) (auto simp: dl_repr_def DL_APPEND_def Let_def)
qed

lemma DL_DELETE_at:
  assumes "dl_repr d (ys @ e # zs)"
  shows "\<exists>d'. DL_DELETE e d = Some d' \<and> dl_repr d' (ys @ zs) \<and> (\<forall>y. y \<notin> set ys \<longrightarrow> dl_next d' y = dl_next d y)"
proof (cases ys rule: rev_cases)
  case Nil
  with assms dl_repr_distinct [OF assms] show ?thesis by (cases zs) (auto simp: dl_repr_def DL_DELETE_def)
next
  case (snoc vs q)
  with assms dl_repr_distinct [OF assms] show ?thesis
    by (cases vs; cases zs) (auto simp: dl_repr_def DL_DELETE_def Let_def)
qed

lemma DL_DELETE_refines:
  assumes "dl_repr d xs" "e \<in> set xs"
  shows "\<exists>d'. DL_DELETE e d = Some d' \<and> dl_repr d' (remove1 e xs)"
proof -
  obtain ys zs where xs: "xs = ys @ e # zs" and "e \<notin> set ys" using split_list_first [OF assms(2)] by auto
  then have "remove1 e xs = ys @ zs" by (simp add: remove1_append)
  with DL_DELETE_at [of d ys e zs] assms(1) xs show ?thesis by auto
qed

lemma DL_FOREACH_SAFE_delete:
  assumes "dl_repr d (ys @ zs)" and "ll_path (dl_next d) el zs None"
  shows "\<exists>d'. DL_FOREACH_SAFE (\<lambda>e d. if P e then DL_DELETE e d else Some d) el d = Some d'
    \<and> dl_repr d' (ys @ filter (\<lambda>x. \<not> P x) zs)"
  using assms
proof (induction zs arbitrary: d ys el)
  case Nil
  then show ?case by (simp add: DL_FOREACH_SAFE.simps)
next
  case (Cons z zs)
  have el: "el = Some z" and rest: "ll_path (dl_next d) (dl_next d z) zs None" using Cons.prems(2) by auto
  have dist: "distinct (ys @ z # zs)" using Cons.prems(1) by (rule dl_repr_distinct)
  show ?case
  proof (cases "P z")
    case False
    with Cons.prems(1) rest Cons.IH [of d "ys @ [z]" "dl_next d z"] show ?thesis
      by (simp add: el DL_FOREACH_SAFE.simps [of _ "Some z"])
  next
    case True
    obtain d' where del: "DL_DELETE z d = Some d'" and r: "dl_repr d' (ys @ zs)" and frame: "\<And>y. y \<notin> set ys \<Longrightarrow> dl_next d' y = dl_next d y"
      using DL_DELETE_at [OF Cons.prems(1)] by auto
    have "dl_next d' x = dl_next d x" if "x \<in> set zs" for x using that frame dist by auto
    then have "ll_path (dl_next d') (dl_next d z) zs None"
      using rest by (subst ll_path_cong [of zs "dl_next d'" "dl_next d"]) auto
    from Cons.IH [OF r this] del True show ?thesis by (simp add: el DL_FOREACH_SAFE.simps [of _ "Some z"])
  qed
qed

lemma dl_sweep_refines:
  assumes "dl_repr d xs"
  shows "\<exists>d'. dl_sweep P d = Some d' \<and> dl_repr d' (filter (\<lambda>x. \<not> P x) xs)"
  using DL_FOREACH_SAFE_delete [of d "[]" xs "dl_head d" P] assms by (simp add: dl_sweep_def dl_repr_def)

definition dl_empty :: "'a dlist" where
  "dl_empty = \<lparr>dl_head = None, dl_next = (\<lambda>_. None), dl_prev = (\<lambda>_. None)\<rparr>"

interpretation dl: linked_list dl_empty DL_APPEND DL_DELETE dl_sweep dl_repr
proof unfold_locales
  show "dl_repr dl_empty []" by (simp add: dl_repr_def dl_empty_def)
qed (blast intro: DL_APPEND_refines DL_DELETE_refines dl_sweep_refines dl_repr_distinct)+

text \<open>The second list of a concatenation is a list in the same memory.\<close>

lemma DL_CONCAT_refines:
  assumes "dl_repr d xs" "dl_repr (d\<lparr>dl_head := head2\<rparr>) ys" "set xs \<inter> set ys = {}"
  shows "\<exists>d'. DL_CONCAT d head2 = Some d' \<and> dl_repr d' (xs @ ys)"
proof (cases ys)
  case Nil
  with assms show ?thesis by (auto simp: DL_CONCAT_def dl_repr_def)
next
  case ys: (Cons h2 ys')
  show ?thesis
  proof (cases xs rule: rev_cases)
    case Nil
    with assms ys show ?thesis by (auto simp: DL_CONCAT_def dl_repr_def)
  next
    case (snoc vs t)
    with assms ys dl_repr_distinct [OF assms(1)] dl_repr_distinct [OF assms(2)] show ?thesis
      by (cases vs) (auto simp: DL_CONCAT_def dl_repr_def Let_def)
  qed
qed

lemma DL_APPEND_ELEM_refines:
  assumes "dl_repr d (ys @ e # zs)" "a \<notin> set (ys @ e # zs)"
  shows "\<exists>d'. DL_APPEND_ELEM (Some e) a d = Some d' \<and> dl_repr d' (ys @ e # a # zs)"
  using assms dl_repr_distinct [OF assms(1)]
  by (cases ys; cases zs) (auto simp: DL_APPEND_ELEM_def dl_repr_def Let_def)

lemma DL_PREPEND_ELEM_refines:
  assumes "dl_repr d (ys @ e # zs)" "a \<notin> set (ys @ e # zs)"
  shows "\<exists>d'. DL_PREPEND_ELEM (Some e) a d = Some d' \<and> dl_repr d' (ys @ a # e # zs)"
proof (cases ys rule: rev_cases)
  case Nil
  with assms dl_repr_distinct [OF assms(1)] show ?thesis
    by (auto simp: DL_PREPEND_ELEM_def dl_repr_def Let_def)
next
  case (snoc vs q)
  with assms dl_repr_distinct [OF assms(1)] show ?thesis
    by (cases vs) (auto simp: DL_PREPEND_ELEM_def dl_repr_def Let_def)
qed

lemma DL_REPLACE_ELEM_refines:
  assumes "dl_repr d (ys @ e # zs)" "a \<notin> set (ys @ e # zs)"
  shows "\<exists>d'. DL_REPLACE_ELEM e a d = Some d' \<and> dl_repr d' (ys @ a # zs)"
proof (cases ys rule: rev_cases)
  case Nil
  with assms dl_repr_distinct [OF assms(1)] show ?thesis
    by (cases zs) (auto simp: DL_REPLACE_ELEM_def dl_repr_def Let_def)
next
  case (snoc vs q)
  with assms dl_repr_distinct [OF assms(1)] show ?thesis
    by (cases vs; cases zs) (auto simp: DL_REPLACE_ELEM_def dl_repr_def Let_def)
qed

lemma DL_INSERT_INORDER_refines:
  assumes "dl_repr d xs" "a \<notin> set xs"
  shows "\<exists>d'. DL_INSERT_INORDER cmp a d = Some d'
    \<and> dl_repr d' (takeWhile (\<lambda>x. cmp x a < 0) xs @ a # dropWhile (\<lambda>x. cmp x a < 0) xs)"
proof (cases "takeWhile (\<lambda>x. cmp x a < 0) xs" rule: rev_cases)
  case Nil
  then have "dropWhile (\<lambda>x. cmp x a < 0) xs = xs" by (metis append_Nil takeWhile_dropWhile_id)
  with Nil assms DL_PREPEND_refines [OF assms] LL_LOWER_BOUND_refines [OF dl_repr_forward [OF assms(1)], of cmp a] show ?thesis
    by (cases xs) (auto simp: DL_INSERT_INORDER_def DL_LOWER_BOUND_def DL_APPEND_ELEM_def dl_repr_def)
next
  case (snoc ys e)
  let ?zs = "dropWhile (\<lambda>x. cmp x a < 0) xs"
  have xs: "ys @ e # ?zs = xs" using snoc takeWhile_dropWhile_id [of "\<lambda>x. cmp x a < 0" xs] by simp
  have "dl_repr d (ys @ e # ?zs)" "a \<notin> set (ys @ e # ?zs)" using assms unfolding xs .
  from DL_APPEND_ELEM_refines [OF this] obtain d' where "DL_APPEND_ELEM (Some e) a d = Some d'" "dl_repr d' (ys @ e # a # ?zs)" by blast
  moreover have "dl_head d \<noteq> None" using assms(1) xs by (cases xs) (auto simp: dl_repr_def)
  ultimately show ?thesis using LL_LOWER_BOUND_refines [OF dl_repr_forward [OF assms(1)], of cmp a] snoc
    by (auto simp: DL_INSERT_INORDER_def DL_LOWER_BOUND_def)
qed

text \<open>The loops that only read visit the nodes in their order.\<close>

lemma DL_FOREACH_path:
  assumes "ll_path (dl_next d) p xs None" "\<And>e s. body e (d, s) = Some (brk e, d, f e s)"
  shows "DL_FOREACH body p (d, s) =
    Some (find brk xs, d, fold f (takeWhile (\<lambda>e. \<not> brk e) xs @ (case find brk xs of None \<Rightarrow> [] | Some e \<Rightarrow> [e])) s)"
  using assms(1)
proof (induction xs arbitrary: p s)
  case Nil
  then show ?case by (simp add: DL_FOREACH.simps)
next
  case (Cons x xs)
  then show ?case by (auto simp: DL_FOREACH.simps [of body "Some x"] assms(2))
qed

lemma DL_COUNT_refines:
  assumes "dl_repr d xs"
  shows "DL_COUNT d = (Some (of_nat (length xs)) :: 'c::semiring_1 option)"
  using DL_FOREACH_path [of d "dl_head d" xs "\<lambda>e (d, c). Some (False, d, c + 1)" "\<lambda>_. False" "\<lambda>e c. c + 1" "0 :: 'c"] assms
  by (simp add: DL_COUNT_def dl_repr_def fold_count)

lemma DL_SEARCH_refines:
  assumes "dl_repr d xs"
  shows "DL_SEARCH cmp elt d = Some (find (\<lambda>x. cmp x elt = 0) xs)"
    and "DL_SEARCH_SCALAR fld val d = Some (find (\<lambda>x. fld x = val) xs)"
  using LL_SEARCH_refines [OF dl_repr_forward [OF assms]] by (simp_all add: DL_SEARCH_def DL_SEARCH_SCALAR_def)

section \<open>\<open>DL_SORT\<close>\<close>

record 'a dsort = "'a lsort" +
  ls_prev :: "'a \<Rightarrow> 'a option"

text \<open>A node that is moved also gets its \<open>prev\<close>: \<open>e->prev = tail\<close>, before \<open>tail = e\<close>.\<close>

definition dl_emit :: "'a \<Rightarrow> ('a, 'b) dsort_scheme \<Rightarrow> ('a, 'b) dsort_scheme" where
  "dl_emit e st = (ll_emit e st)\<lparr>ls_prev := (ls_prev st)(e := ls_tail st)\<rparr>"

text \<open>\<open>list->prev = tail; tail->next = NULL;\<close>\<close>

definition dl_finish :: "('a, 'b) dsort_scheme \<Rightarrow> ('a, 'b) dsort_scheme option" where
  "dl_finish st =
     (case (ls_list st, ls_tail st) of
        (Some h, Some t) \<Rightarrow> Some (st\<lparr>ls_prev := (ls_prev st)(h := Some t), ls_next := (ls_next st)(t := None)\<rparr>)
      | _ \<Rightarrow> None)"

definition DL_SORT :: "('a \<Rightarrow> 'a \<Rightarrow> int) \<Rightarrow> 'a dlist \<Rightarrow> 'a dlist option" where
  "DL_SORT cmp d =
     (if dl_head d = None then Some d
      else map_option (\<lambda>st. \<lparr>dl_head = ls_list st, dl_next = ls_next st, dl_prev = ls_prev st\<rparr>)
        (sort_passes ls_next dl_emit ls_list ll_start dl_finish cmp 1
          \<lparr>ls_next = dl_next d, ls_list = dl_head d, ls_tail = None, ls_prev = dl_prev d\<rparr>))"

definition dl_stands :: "('a, 'b) dsort_scheme \<Rightarrow> 'a list \<Rightarrow> bool" where
  "dl_stands st xs \<longleftrightarrow> ll_stands st xs \<and> backs (ls_prev st) (Some (last xs)) xs"

definition dl_building :: "'a list \<Rightarrow> ('a, 'b) dsort_scheme \<Rightarrow> bool" where
  "dl_building ys st \<longleftrightarrow> ll_building ys st \<and> backs (ls_prev st) None ys"

lemma lsort_prev [simp]:
  "ll_building ys (st\<lparr>ls_prev := p\<rparr>) = ll_building ys st" "ls_prev (ll_emit e st) = ls_prev st" "ls_prev (ll_start st) = ls_prev st"
  by (auto simp: ll_building_def ll_emit_def ll_start_def split: option.splits)

lemma dl_sort_emitted:
  assumes "dl_building ys st" "e \<notin> set ys" "distinct ys"
  shows "dl_building (ys @ [e]) (dl_emit e st) \<and> (\<forall>x. x \<notin> set ys \<longrightarrow> ls_next (dl_emit e st) x = ls_next st x)"
proof -
  have "ll_building ys st" using assms(1) by (simp add: dl_building_def)
  note E = ll_emit_path [OF this assms(2,3)]
  have "ls_tail st = (if ys = [] then None else Some (last ys))" using assms(1) by (auto simp: dl_building_def ll_building_def)
  with E assms show ?thesis by (auto simp: dl_building_def dl_emit_def)
qed

lemma building_head:
  assumes "ll_building ys st" "ys \<noteq> []"
  shows "ls_list st = Some (hd ys)" "ls_tail st = Some (last ys)"
proof -
  show "ls_tail st = Some (last ys)" using assms by (simp add: ll_building_def)
  show "ls_list st = Some (hd ys)"
  proof (cases ys)
    case (Cons y zs)
    with assms show ?thesis by (cases "zs = []") (auto simp: ll_building_def)
  qed (use assms in simp)
qed

lemma dl_sort_finished:
  assumes "dl_building ys st" "ys \<noteq> []" "distinct ys"
  shows "\<exists>st'. dl_finish st = Some st' \<and> dl_stands st' ys"
proof -
  have b: "ll_building ys st" using assms(1) by (simp add: dl_building_def)
  have "backs ((ls_prev st)(hd ys := q)) q ys" for q using assms by (cases ys) (auto simp: dl_building_def)
  with building_head [OF b assms(2)] ll_building_close [OF b assms(2,3), of None] show ?thesis
    by (simp add: dl_finish_def dl_stands_def ll_stands_def)
qed

lemma dl_sort_started: "dl_stands st xs \<Longrightarrow> dl_building [] (ll_start st) \<and> ll_path (ls_next (ll_start st)) (ls_list st) xs None"
  using ll_sort_started [of st xs] by (simp add: dl_stands_def dl_building_def)

interpretation dl_sort: sort_store ls_next dl_emit ls_list ll_start dl_finish dl_stands dl_building
  by unfold_locales (simp_all add: dl_sort_started dl_sort_emitted dl_sort_finished)

lemma DL_SORT_refines:
  assumes "orders cmp" "dl_repr d xs" "length xs \<le> 2 ^ 30"
  shows "\<exists>d' ys. DL_SORT cmp d = Some d' \<and> dl_repr d' ys \<and> stable_sort cmp xs ys"
proof (cases xs)
  case Nil
  with assms(2) show ?thesis by (auto simp: DL_SORT_def dl_repr_def stable_sort_def)
next
  case (Cons x zs)
  let ?st = "\<lparr>ls_next = dl_next d, ls_list = dl_head d, ls_tail = None, ls_prev = dl_prev d\<rparr>"
  have "dl_stands ?st xs" "xs \<noteq> []" "dl_head d \<noteq> None" using assms(2) Cons by (auto simp: dl_stands_def ll_stands_def dl_repr_def)
  with dl_sort.sorts [OF assms(1) _ _ dl_repr_distinct [OF assms(2)] assms(3), of ?st] show ?thesis
    by (auto simp: DL_SORT_def dl_repr_def dl_stands_def ll_stands_def)
qed

end
