(* ===== verification/Utlist_CDL.thy ===== *)
theory Utlist_CDL
  imports Utlist_DL
begin

text \<open>
  The macros for circular doubly linked lists of \<open>src/src/utlist.h\<close>: the \<open>next\<close> of the last node is the head. They refine the same list operations and
  interpret the same contracts.
\<close>

section \<open>The macros\<close>

definition CDL_APPEND :: "'a \<Rightarrow> 'a dlist \<Rightarrow> 'a dlist option" where
  "CDL_APPEND add d =
     (case dl_head d of
        Some h \<Rightarrow>
          (let prv = (dl_prev d)(add := dl_prev d h, h := Some add); nxt = (dl_next d)(add := Some h) in
           case prv add of
             None \<Rightarrow> None
           | Some t \<Rightarrow> Some (d\<lparr>dl_next := nxt(t := Some add), dl_prev := prv\<rparr>))
      | None \<Rightarrow> Some (d\<lparr>dl_head := Some add, dl_next := (dl_next d)(add := Some add), dl_prev := (dl_prev d)(add := Some add)\<rparr>))"

definition CDL_PREPEND :: "'a \<Rightarrow> 'a dlist \<Rightarrow> 'a dlist option" where
  "CDL_PREPEND add d =
     (case dl_head d of
        Some h \<Rightarrow>
          (let prv = (dl_prev d)(add := dl_prev d h, h := Some add); nxt = (dl_next d)(add := Some h) in
           case prv add of
             None \<Rightarrow> None
           | Some t \<Rightarrow> Some (d\<lparr>dl_next := nxt(t := Some add), dl_prev := prv, dl_head := Some add\<rparr>))
      | None \<Rightarrow> Some (d\<lparr>dl_head := Some add, dl_next := (dl_next d)(add := Some add), dl_prev := (dl_prev d)(add := Some add)\<rparr>))"

text \<open>The loop of \<open>CDL_LOWER_BOUND\<close>; a NULL successor is handed to the comparison.\<close>

partial_function (option) cdl_bound :: "('a \<Rightarrow> 'a option) \<Rightarrow> ('a \<Rightarrow> 'a \<Rightarrow> int) \<Rightarrow> 'a \<Rightarrow> 'a \<Rightarrow> 'a \<Rightarrow> 'a option" where
  "cdl_bound nxt cmp like head elt =
     (case nxt elt of
        None \<Rightarrow> None
      | Some q \<Rightarrow> if q = head then Some elt else if 0 \<le> cmp q like then Some elt else cdl_bound nxt cmp like head q)"

definition CDL_LOWER_BOUND :: "('a \<Rightarrow> 'a \<Rightarrow> int) \<Rightarrow> 'a \<Rightarrow> 'a dlist \<Rightarrow> 'a option option" where
  "CDL_LOWER_BOUND cmp like d =
     (case dl_head d of
        None \<Rightarrow> Some None
      | Some h \<Rightarrow> if 0 \<le> cmp h like then Some None else map_option Some (cdl_bound (dl_next d) cmp like h h))"

definition CDL_DELETE :: "'a \<Rightarrow> 'a dlist \<Rightarrow> 'a dlist option" where
  "CDL_DELETE del d =
     (if dl_head d = Some del \<and> dl_next d del = dl_head d then Some (d\<lparr>dl_head := None\<rparr>)
      else
        (case dl_next d del of
           None \<Rightarrow> None
         | Some n \<Rightarrow>
             (let prv = (dl_prev d)(n := dl_prev d del) in
              case prv del of
                None \<Rightarrow> None
              | Some q \<Rightarrow>
                  (let nxt = (dl_next d)(q := dl_next d del) in
                   Some (d\<lparr>dl_next := nxt, dl_prev := prv, dl_head := (if Some del = dl_head d then nxt del else dl_head d)\<rparr>)))))"

text \<open>The successor is read, and compared with the head, after the body has run.\<close>

partial_function (option) CDL_FOREACH ::
  "('a \<Rightarrow> 'a dlist \<times> 's \<Rightarrow> (bool \<times> 'a dlist \<times> 's) option) \<Rightarrow> 'a option \<Rightarrow> 'a dlist \<times> 's \<Rightarrow> ('a option \<times> 'a dlist \<times> 's) option" where
  "CDL_FOREACH body el st =
     (case el of
        None \<Rightarrow> Some (None, st)
      | Some e \<Rightarrow> Option.bind (body e st) (\<lambda>(brk, st).
          if brk then Some (Some e, st)
          else CDL_FOREACH body (if dl_next (fst st) e = dl_head (fst st) then None else dl_next (fst st) e) st))"

definition CDL_COUNT :: "'a dlist \<Rightarrow> 'c::semiring_1 option" where
  "CDL_COUNT d = map_option (\<lambda>(_, _, c). c) (CDL_FOREACH (\<lambda>e (d, c). Some (False, d, c + 1)) (dl_head d) (d, 0))"

definition CDL_SEARCH :: "('a \<Rightarrow> 'a \<Rightarrow> int) \<Rightarrow> 'a \<Rightarrow> 'a dlist \<Rightarrow> 'a option option" where
  "CDL_SEARCH cmp elt d = map_option fst (CDL_FOREACH (\<lambda>out (d, u). Some (cmp out elt = 0, d, u)) (dl_head d) (d, ()))"

definition CDL_SEARCH_SCALAR :: "('a \<Rightarrow> 'v) \<Rightarrow> 'v \<Rightarrow> 'a dlist \<Rightarrow> 'a option option" where
  "CDL_SEARCH_SCALAR fld val d = map_option fst (CDL_FOREACH (\<lambda>out (d, u). Some (fld out = val, d, u)) (dl_head d) (d, ()))"

text \<open>\<open>tmp1\<close> is the last node when the loop starts.\<close>

partial_function (option) CDL_FOREACH_SAFE ::
  "('a \<Rightarrow> 'a dlist \<Rightarrow> 'a dlist option) \<Rightarrow> 'a option \<Rightarrow> 'a option \<Rightarrow> 'a dlist \<Rightarrow> 'a dlist option" where
  "CDL_FOREACH_SAFE body el tmp1 d =
     (case el of
        None \<Rightarrow> Some d
      | Some e \<Rightarrow> (let tmp2 = dl_next d e in
          Option.bind (body e d) (\<lambda>d'. CDL_FOREACH_SAFE body (if el = tmp1 then None else tmp2) tmp1 d')))"

definition cdl_sweep :: "('a \<Rightarrow> bool) \<Rightarrow> 'a dlist \<Rightarrow> 'a dlist option" where
  "cdl_sweep P d = CDL_FOREACH_SAFE (\<lambda>e d. if P e then CDL_DELETE e d else Some d) (dl_head d)
     (case dl_head d of None \<Rightarrow> None | Some h \<Rightarrow> dl_prev d h) d"

definition CDL_REPLACE_ELEM :: "'a \<Rightarrow> 'a \<Rightarrow> 'a dlist \<Rightarrow> 'a dlist option" where
  "CDL_REPLACE_ELEM el add d =
     (if dl_head d = None then None
      else if dl_next d el = Some el
      then Some (d\<lparr>dl_head := Some add, dl_next := (dl_next d)(add := Some add), dl_prev := (dl_prev d)(add := Some add)\<rparr>)
      else
        (let nxt = (dl_next d)(add := dl_next d el); prv = (dl_prev d)(add := dl_prev d el) in
         case nxt add of
           None \<Rightarrow> None
         | Some n \<Rightarrow>
             (let prv = prv(n := Some add) in
              case prv add of
                None \<Rightarrow> None
              | Some q \<Rightarrow> Some (d\<lparr>dl_next := nxt(q := Some add), dl_prev := prv,
                  dl_head := (if dl_head d = Some el then Some add else dl_head d)\<rparr>))))"

definition CDL_PREPEND_ELEM :: "'a option \<Rightarrow> 'a \<Rightarrow> 'a dlist \<Rightarrow> 'a dlist option" where
  "CDL_PREPEND_ELEM el add d =
     (case el of
        None \<Rightarrow> CDL_APPEND add d
      | Some e \<Rightarrow>
          (if dl_head d = None then None
           else
             (let nxt = (dl_next d)(add := Some e); prv = (dl_prev d)(add := dl_prev d e, e := Some add) in
              case prv add of
                None \<Rightarrow> None
              | Some q \<Rightarrow> Some (d\<lparr>dl_next := nxt(q := Some add), dl_prev := prv,
                  dl_head := (if dl_head d = Some e then Some add else dl_head d)\<rparr>))))"

definition CDL_APPEND_ELEM :: "'a option \<Rightarrow> 'a \<Rightarrow> 'a dlist \<Rightarrow> 'a dlist option" where
  "CDL_APPEND_ELEM el add d =
     (case el of
        None \<Rightarrow> CDL_PREPEND add d
      | Some e \<Rightarrow>
          (if dl_head d = None then None
           else
             (let nxt = (dl_next d)(add := dl_next d e, e := Some add); prv = (dl_prev d)(add := Some e) in
              case nxt add of
                None \<Rightarrow> None
              | Some n \<Rightarrow> Some (d\<lparr>dl_next := nxt, dl_prev := prv(n := Some add)\<rparr>))))"

definition CDL_INSERT_INORDER :: "('a \<Rightarrow> 'a \<Rightarrow> int) \<Rightarrow> 'a \<Rightarrow> 'a dlist \<Rightarrow> 'a dlist option" where
  "CDL_INSERT_INORDER cmp add d =
     (case dl_head d of
        Some _ \<Rightarrow> Option.bind (CDL_LOWER_BOUND cmp add d) (\<lambda>tmp. CDL_APPEND_ELEM tmp add d)
      | None \<Rightarrow> Some (d\<lparr>dl_head := Some add, dl_next := (dl_next d)(add := Some add), dl_prev := (dl_prev d)(add := Some add)\<rparr>))"

section \<open>Which list a head pointer stands for\<close>

definition cdl_repr :: "'a dlist \<Rightarrow> 'a list \<Rightarrow> bool" where
  "cdl_repr d xs \<longleftrightarrow> distinct xs \<and> backs (dl_prev d) (Some (last xs)) xs
     \<and> (if xs = [] then dl_head d = None else ll_path (dl_next d) (dl_head d) xs (dl_head d))"

section \<open>The macros refine list operations\<close>

lemma CDL_APPEND_refines:
  assumes "cdl_repr d xs" "a \<notin> set xs"
  shows "\<exists>d'. CDL_APPEND a d = Some d' \<and> cdl_repr d' (xs @ [a])"
proof (cases xs rule: rev_cases)
  case Nil
  with assms show ?thesis by (simp add: cdl_repr_def CDL_APPEND_def)
next
  case (snoc ys t)
  with assms show ?thesis by (cases ys) (auto simp: cdl_repr_def CDL_APPEND_def Let_def)
qed

lemma CDL_PREPEND_refines:
  assumes "cdl_repr d xs" "a \<notin> set xs"
  shows "\<exists>d'. CDL_PREPEND a d = Some d' \<and> cdl_repr d' (a # xs)"
proof (cases xs rule: rev_cases)
  case Nil
  with assms show ?thesis by (simp add: cdl_repr_def CDL_PREPEND_def)
next
  case (snoc ys t)
  with assms show ?thesis by (cases ys) (auto simp: cdl_repr_def CDL_PREPEND_def Let_def)
qed

lemma CDL_DELETE_at:
  assumes "cdl_repr d (ys @ e # zs)"
  shows "\<exists>d'. CDL_DELETE e d = Some d' \<and> cdl_repr d' (ys @ zs)"
proof (cases ys rule: rev_cases)
  case Nil
  show ?thesis
  proof (cases zs rule: rev_cases)
    case Nil
    with assms \<open>ys = []\<close> show ?thesis by (auto simp: cdl_repr_def CDL_DELETE_def)
  next
    case (snoc vs t)
    with assms \<open>ys = []\<close> show ?thesis by (cases vs) (auto simp: cdl_repr_def CDL_DELETE_def Let_def)
  qed
next
  case (snoc vs q)
  with assms show ?thesis
    by (cases vs; cases zs) (auto simp: cdl_repr_def CDL_DELETE_def Let_def)
qed

lemma CDL_DELETE_refines:
  assumes "cdl_repr d xs" "e \<in> set xs"
  shows "\<exists>d'. CDL_DELETE e d = Some d' \<and> cdl_repr d' (remove1 e xs)"
proof -
  obtain ys zs where xs: "xs = ys @ e # zs" and "e \<notin> set ys" using split_list_first [OF assms(2)] by auto
  then have "remove1 e xs = ys @ zs" by (simp add: remove1_append)
  with CDL_DELETE_at [of d ys e zs] assms(1) xs show ?thesis by auto
qed

text \<open>The successor of a node that is not the last one.\<close>

lemma cdl_next: "cdl_repr d (ys @ x # y # zs) \<Longrightarrow> dl_next d x = Some y"
  by (cases ys) (auto simp: cdl_repr_def)

lemma CDL_FOREACH_SAFE_delete:
  assumes "cdl_repr d (ys @ z # zs)"
  shows "\<exists>d'. CDL_FOREACH_SAFE (\<lambda>e d. if P e then CDL_DELETE e d else Some d) (Some z) (Some (last (z # zs))) d = Some d'
    \<and> cdl_repr d' (ys @ filter (\<lambda>x. \<not> P x) (z # zs))"
  using assms
proof (induction zs arbitrary: d ys z)
  case Nil
  then show ?case using CDL_DELETE_at [OF Nil] by (auto simp: CDL_FOREACH_SAFE.simps)
next
  case (Cons y zs)
  have nx: "dl_next d z = Some y" by (rule cdl_next [OF Cons.prems])
  have last: "last (z # y # zs) \<noteq> z" using Cons.prems last_in_set [of "y # zs"] by (auto simp: cdl_repr_def)
  obtain d' where d': "(if P z then CDL_DELETE z d else Some d) = Some d'" "cdl_repr d' ((if P z then ys else ys @ [z]) @ y # zs)"
    using CDL_DELETE_at [OF Cons.prems] Cons.prems by (cases "P z") auto
  from Cons.IH [OF d'(2)] d'(1) nx last show ?case
    by (auto simp: CDL_FOREACH_SAFE.simps [of _ "Some z"] Let_def)
qed

lemma cdl_sweep_refines:
  assumes "cdl_repr d xs"
  shows "\<exists>d'. cdl_sweep P d = Some d' \<and> cdl_repr d' (filter (\<lambda>x. \<not> P x) xs)"
proof (cases xs)
  case Nil
  with assms show ?thesis by (simp add: cdl_sweep_def cdl_repr_def CDL_FOREACH_SAFE.simps)
next
  case (Cons z zs)
  then have "dl_head d = Some z" "dl_prev d z = Some (last (z # zs))" using assms by (auto simp: cdl_repr_def)
  with CDL_FOREACH_SAFE_delete [of d "[]" z zs P] assms Cons show ?thesis by (simp add: cdl_sweep_def)
qed

interpretation cdl: linked_list dl_empty CDL_APPEND CDL_DELETE cdl_sweep cdl_repr
proof unfold_locales
  show "cdl_repr dl_empty []" by (simp add: cdl_repr_def dl_empty_def)
  show "distinct xs" if "cdl_repr l xs" for l :: "'a dlist" and xs using that by (simp add: cdl_repr_def)
qed (blast intro: CDL_APPEND_refines CDL_DELETE_refines cdl_sweep_refines)+

lemma CDL_APPEND_ELEM_refines:
  assumes "cdl_repr d (ys @ e # zs)" "a \<notin> set (ys @ e # zs)"
  shows "\<exists>d'. CDL_APPEND_ELEM (Some e) a d = Some d' \<and> cdl_repr d' (ys @ e # a # zs)"
  using assms by (cases ys; cases zs) (auto simp: CDL_APPEND_ELEM_def cdl_repr_def Let_def)

lemma CDL_PREPEND_ELEM_refines:
  assumes "cdl_repr d (ys @ e # zs)" "a \<notin> set (ys @ e # zs)"
  shows "\<exists>d'. CDL_PREPEND_ELEM (Some e) a d = Some d' \<and> cdl_repr d' (ys @ a # e # zs)"
proof (cases ys rule: rev_cases)
  case Nil
  with assms show ?thesis by (cases zs rule: rev_cases) (auto simp: CDL_PREPEND_ELEM_def cdl_repr_def Let_def)
next
  case (snoc vs q)
  with assms show ?thesis by (cases vs) (auto simp: CDL_PREPEND_ELEM_def cdl_repr_def Let_def)
qed

lemma CDL_REPLACE_ELEM_refines:
  assumes "cdl_repr d (ys @ e # zs)" "a \<notin> set (ys @ e # zs)"
  shows "\<exists>d'. CDL_REPLACE_ELEM e a d = Some d' \<and> cdl_repr d' (ys @ a # zs)"
proof (cases ys rule: rev_cases)
  case Nil
  show ?thesis
  proof (cases zs rule: rev_cases)
    case (snoc vs t)
    with assms \<open>ys = []\<close> show ?thesis by (cases vs) (auto simp: CDL_REPLACE_ELEM_def cdl_repr_def Let_def)
  qed (use assms \<open>ys = []\<close> in \<open>auto simp: CDL_REPLACE_ELEM_def cdl_repr_def\<close>)
next
  case (snoc vs q)
  with assms show ?thesis by (cases vs; cases zs) (auto simp: CDL_REPLACE_ELEM_def cdl_repr_def Let_def)
qed

lemma cdl_bound_path:
  "ll_path nxt (Some p) (p # xs) (Some h) \<Longrightarrow> h \<notin> set xs \<Longrightarrow>
   cdl_bound nxt cmp like h p = Some (last (p # takeWhile (\<lambda>x. cmp x like < 0) xs))"
proof (induction xs arbitrary: p)
  case Nil
  then show ?case by (simp add: cdl_bound.simps)
next
  case (Cons x xs)
  then show ?case by (auto simp: cdl_bound.simps [of nxt cmp like h p])
qed

lemma CDL_LOWER_BOUND_refines:
  assumes "cdl_repr d xs"
  shows "CDL_LOWER_BOUND cmp like d =
    (let small = takeWhile (\<lambda>x. cmp x like < 0) xs in Some (if small = [] then None else Some (last small)))"
  using assms cdl_bound_path [of "dl_next d" _ _ _ cmp like]
  by (cases xs) (auto simp: CDL_LOWER_BOUND_def cdl_repr_def Let_def)

lemma CDL_INSERT_INORDER_refines:
  assumes "cdl_repr d xs" "a \<notin> set xs"
  shows "\<exists>d'. CDL_INSERT_INORDER cmp a d = Some d'
    \<and> cdl_repr d' (takeWhile (\<lambda>x. cmp x a < 0) xs @ a # dropWhile (\<lambda>x. cmp x a < 0) xs)"
proof (cases "takeWhile (\<lambda>x. cmp x a < 0) xs" rule: rev_cases)
  case Nil
  then have "dropWhile (\<lambda>x. cmp x a < 0) xs = xs" by (metis append_Nil takeWhile_dropWhile_id)
  with Nil assms CDL_PREPEND_refines [OF assms] CDL_LOWER_BOUND_refines [OF assms(1), of cmp a] show ?thesis
    by (cases xs) (auto simp: CDL_INSERT_INORDER_def CDL_APPEND_ELEM_def cdl_repr_def)
next
  case (snoc ys e)
  let ?zs = "dropWhile (\<lambda>x. cmp x a < 0) xs"
  have xs: "ys @ e # ?zs = xs" using snoc takeWhile_dropWhile_id [of "\<lambda>x. cmp x a < 0" xs] by simp
  have "cdl_repr d (ys @ e # ?zs)" "a \<notin> set (ys @ e # ?zs)" using assms unfolding xs .
  from CDL_APPEND_ELEM_refines [OF this] obtain d' where "CDL_APPEND_ELEM (Some e) a d = Some d'" "cdl_repr d' (ys @ e # a # ?zs)" by blast
  moreover have "dl_head d \<noteq> None" using assms(1) xs by (cases xs) (auto simp: cdl_repr_def)
  ultimately show ?thesis using CDL_LOWER_BOUND_refines [OF assms(1), of cmp a] snoc
    by (auto simp: CDL_INSERT_INORDER_def)
qed

lemma CDL_FOREACH_path:
  assumes "ll_path (dl_next d) (Some x) (x # xs) (dl_head d)" "dl_head d = Some h" "h \<notin> set xs" "\<And>e s. body e (d, s) = Some (brk e, d, f e s)"
  shows "CDL_FOREACH body (Some x) (d, s) =
    Some (find brk (x # xs), d, fold f (takeWhile (\<lambda>e. \<not> brk e) (x # xs) @ (case find brk (x # xs) of None \<Rightarrow> [] | Some e \<Rightarrow> [e])) s)"
  using assms(1,3)
proof (induction xs arbitrary: x s)
  case Nil
  then show ?case using assms(2) by (simp add: CDL_FOREACH.simps [of body "Some x"] CDL_FOREACH.simps [of body None] assms(4))
next
  case (Cons y xs)
  then show ?case using assms(2) by (auto simp: CDL_FOREACH.simps [of body "Some x"] assms(4))
qed

lemma CDL_FOREACH_repr:
  assumes "cdl_repr d xs" "\<And>e s. body e (d, s) = Some (brk e, d, f e s)"
  shows "CDL_FOREACH body (dl_head d) (d, s) =
    Some (find brk xs, d, fold f (takeWhile (\<lambda>e. \<not> brk e) xs @ (case find brk xs of None \<Rightarrow> [] | Some e \<Rightarrow> [e])) s)"
proof (cases xs)
  case Nil
  with assms(1) show ?thesis by (simp add: cdl_repr_def CDL_FOREACH.simps)
next
  case (Cons x zs)
  then have h: "dl_head d = Some x" "x \<notin> set zs" "ll_path (dl_next d) (Some x) (x # zs) (dl_head d)"
    using assms(1) by (auto simp: cdl_repr_def)
  from CDL_FOREACH_path [OF h(3,1,2), where body = body and brk = brk and f = f and s = s] assms(2) show ?thesis
    unfolding h(1) Cons by simp
qed

lemma CDL_COUNT_refines:
  assumes "cdl_repr d xs"
  shows "CDL_COUNT d = (Some (of_nat (length xs)) :: 'c::semiring_1 option)"
  using CDL_FOREACH_repr [OF assms, of "\<lambda>e (d, c). Some (False, d, c + 1)" "\<lambda>_. False" "\<lambda>e c. c + 1" "0 :: 'c"]
  by (simp add: CDL_COUNT_def fold_count)

lemma CDL_SEARCH_refines:
  assumes "cdl_repr d xs"
  shows "CDL_SEARCH cmp elt d = Some (find (\<lambda>x. cmp x elt = 0) xs)"
    and "CDL_SEARCH_SCALAR fld val d = Some (find (\<lambda>x. fld x = val) xs)"
  using CDL_FOREACH_repr [OF assms, of "\<lambda>out (d, u). Some (cmp out elt = 0, d, u)" "\<lambda>x. cmp x elt = 0" "\<lambda>_ u. u" "()"]
    CDL_FOREACH_repr [OF assms, of "\<lambda>out (d, u). Some (fld out = val, d, u)" "\<lambda>x. fld x = val" "\<lambda>_ u. u" "()"]
  by (simp_all add: CDL_SEARCH_def CDL_SEARCH_SCALAR_def)

section \<open>\<open>CDL_SORT\<close>\<close>

record 'a csort = "'a dsort" +
  ls_oldhead :: "'a option"

text \<open>A successor is read as NULL if it is the head that the list had before the pass.\<close>

definition cdl_nx :: "'a csort \<Rightarrow> 'a \<Rightarrow> 'a option" where
  "cdl_nx st e = (if ls_next st e = ls_oldhead st then None else ls_next st e)"

definition cdl_start :: "'a csort \<Rightarrow> 'a csort" where
  "cdl_start st = (ll_start st)\<lparr>ls_oldhead := ls_list st\<rparr>"

text \<open>\<open>list->prev = tail; _tmp = list; tail->next = _tmp;\<close>\<close>

definition cdl_finish :: "'a csort \<Rightarrow> 'a csort option" where
  "cdl_finish st =
     (case (ls_list st, ls_tail st) of
        (Some h, Some t) \<Rightarrow> Some (st\<lparr>ls_prev := (ls_prev st)(h := Some t), ls_next := (ls_next st)(t := Some h)\<rparr>)
      | _ \<Rightarrow> None)"

definition CDL_SORT :: "('a \<Rightarrow> 'a \<Rightarrow> int) \<Rightarrow> 'a dlist \<Rightarrow> 'a dlist option" where
  "CDL_SORT cmp d =
     (if dl_head d = None then Some d
      else map_option (\<lambda>st. \<lparr>dl_head = ls_list st, dl_next = ls_next st, dl_prev = ls_prev st\<rparr>)
        (sort_passes cdl_nx dl_emit ls_list cdl_start cdl_finish cmp 1
          \<lparr>ls_next = dl_next d, ls_list = dl_head d, ls_tail = None, ls_prev = dl_prev d, ls_oldhead = None\<rparr>))"

definition cdl_stands :: "'a csort \<Rightarrow> 'a list \<Rightarrow> bool" where
  "cdl_stands st xs \<longleftrightarrow> cdl_repr \<lparr>dl_head = ls_list st, dl_next = ls_next st, dl_prev = ls_prev st\<rparr> xs"

lemma ll_path_cut:
  "ll_path nxt p xs (Some h) \<Longrightarrow> xs \<noteq> [] \<Longrightarrow> h \<notin> set (tl xs) \<Longrightarrow> ll_path (\<lambda>x. if nxt x = Some h then None else nxt x) p xs None"
proof (induction xs arbitrary: p)
  case (Cons x xs)
  show ?case
  proof (cases xs)
    case Nil
    with Cons show ?thesis by simp
  next
    case (Cons y ys)
    with Cons.prems Cons.IH [of "nxt x"] show ?thesis by auto
  qed
qed simp

lemma cdl_sort_started:
  assumes "cdl_stands st xs" "xs \<noteq> []"
  shows "dl_building [] (cdl_start st) \<and> ll_path (cdl_nx (cdl_start st)) (ls_list st) xs None"
proof -
  obtain x zs where xs: "xs = x # zs" using assms(2) by (cases xs) auto
  then have h: "ls_list st = Some x" "x \<notin> set zs" "ll_path (ls_next st) (ls_list st) xs (Some x)"
    using assms(1) by (auto simp: cdl_stands_def cdl_repr_def)
  have "cdl_nx (cdl_start st) = (\<lambda>y. if ls_next st y = Some x then None else ls_next st y)"
    using h(1) by (auto simp: cdl_nx_def cdl_start_def ll_start_def)
  with ll_path_cut [OF h(3)] h(2) xs show ?thesis
    by (simp add: dl_building_def ll_building_def cdl_start_def ll_start_def)
qed

lemma cdl_sort_emitted:
  assumes "dl_building ys st" "e \<notin> set ys" "distinct ys"
  shows "dl_building (ys @ [e]) (dl_emit e st) \<and> (\<forall>x. x \<notin> set ys \<longrightarrow> cdl_nx (dl_emit e st) x = cdl_nx st x)"
proof -
  have "ls_oldhead (dl_emit e st) = ls_oldhead st" by (simp add: dl_emit_def ll_emit_def split: option.splits)
  with dl_sort_emitted [OF assms] show ?thesis by (simp add: cdl_nx_def)
qed

lemma cdl_sort_finished:
  assumes "dl_building ys st" "ys \<noteq> []" "distinct ys"
  shows "\<exists>st'. cdl_finish st = Some st' \<and> cdl_stands st' ys"
proof -
  have b: "ll_building ys st" using assms(1) by (simp add: dl_building_def)
  have "backs ((ls_prev st)(hd ys := q)) q ys" for q using assms by (cases ys) (auto simp: dl_building_def)
  with building_head [OF b assms(2)] ll_building_close [OF b assms(2,3), of "Some (hd ys)"] assms(2,3) show ?thesis
    by (simp add: cdl_finish_def cdl_stands_def cdl_repr_def)
qed

interpretation cdl_sort: sort_store cdl_nx dl_emit ls_list cdl_start cdl_finish cdl_stands dl_building
  by unfold_locales (simp_all add: cdl_sort_started cdl_sort_emitted cdl_sort_finished)

lemma CDL_SORT_refines:
  assumes "orders cmp" "cdl_repr d xs" "length xs \<le> 2 ^ 30"
  shows "\<exists>d' ys. CDL_SORT cmp d = Some d' \<and> cdl_repr d' ys \<and> stable_sort cmp xs ys"
proof (cases xs)
  case Nil
  with assms(2) show ?thesis by (auto simp: CDL_SORT_def cdl_repr_def stable_sort_def)
next
  case (Cons x zs)
  let ?st = "\<lparr>ls_next = dl_next d, ls_list = dl_head d, ls_tail = None, ls_prev = dl_prev d, ls_oldhead = None\<rparr>"
  have "cdl_stands ?st xs" "xs \<noteq> []" "dl_head d \<noteq> None" "distinct xs" using assms(2) Cons by (auto simp: cdl_stands_def cdl_repr_def)
  with cdl_sort.sorts [OF assms(1) _ _ _ assms(3), of ?st] show ?thesis
    by (auto simp: CDL_SORT_def cdl_stands_def)
qed

end
