(* ===== verification/Utlist_ND.thy ===== *)
theory Utlist_ND
  imports Utlist_CDL
begin

text \<open>
  The replacements of some list macros for compilers without \<open>decltype\<close> (\<open>NO_DECLTYPE\<close> in \<open>src/src/utlist.h\<close>). They cannot declare a pointer of the
  element type, so they walk with the head variable itself, which they save and restore, or with the \<open>next\<close> field of the new element. On every
  well-linked list they leave exactly the memory that the usual definitions leave.
\<close>

section \<open>The macros\<close>

text \<open>\<open>while ((head)->next) { (head) = (head)->next; }\<close>\<close>

partial_function (option) nd_last :: "'a llist \<Rightarrow> 'a llist option" where
  "nd_last l =
     (case ll_head l of
        None \<Rightarrow> None
      | Some h \<Rightarrow> (case ll_next l h of None \<Rightarrow> Some l | Some q \<Rightarrow> nd_last (l\<lparr>ll_head := Some q\<rparr>)))"

text \<open>An assignment to the \<open>next\<close> of the node that the head variable points to, and the restored head.\<close>

definition nd_link :: "'a option \<Rightarrow> 'a option \<Rightarrow> 'a llist \<Rightarrow> 'a llist option" where
  "nd_link saved q l =
     (case ll_head l of None \<Rightarrow> None | Some h \<Rightarrow> Some (l\<lparr>ll_next := (ll_next l)(h := q), ll_head := saved\<rparr>))"

definition ND_LL_CONCAT :: "'a llist \<Rightarrow> 'a option \<Rightarrow> 'a llist option" where
  "ND_LL_CONCAT l head2 =
     (case ll_head l of
        Some _ \<Rightarrow> Option.bind (nd_last l) (nd_link (ll_head l) head2)
      | None \<Rightarrow> Some (l\<lparr>ll_head := head2\<rparr>))"

text \<open>\<open>while ((add)->next->next) { (add)->next = (add)->next->next; }\<close>\<close>

partial_function (option) nd_chase :: "'a \<Rightarrow> ('a \<Rightarrow> 'a option) \<Rightarrow> ('a \<Rightarrow> 'a option) option" where
  "nd_chase add nxt =
     (case nxt add of
        None \<Rightarrow> None
      | Some t \<Rightarrow> (case nxt t of None \<Rightarrow> Some nxt | Some q \<Rightarrow> nd_chase add (nxt(add := Some q))))"

definition ND_LL_APPEND :: "'a \<Rightarrow> 'a llist \<Rightarrow> 'a llist option" where
  "ND_LL_APPEND add l =
     (case ll_head l of
        Some h \<Rightarrow>
          Option.bind (nd_chase add ((ll_next l)(add := Some h))) (\<lambda>nxt.
            case nxt add of None \<Rightarrow> None | Some t \<Rightarrow> Some (l\<lparr>ll_next := nxt(t := Some add, add := None)\<rparr>))
      | None \<Rightarrow> Some (l\<lparr>ll_head := Some add, ll_next := (ll_next l)(add := None)\<rparr>))"

text \<open>\<open>while ((head)->next != NULL && (cmp((head)->next, add)) < 0) { (head) = (head)->next; }\<close>\<close>

partial_function (option) nd_bound :: "('a \<Rightarrow> 'a \<Rightarrow> int) \<Rightarrow> 'a \<Rightarrow> 'a llist \<Rightarrow> 'a llist option" where
  "nd_bound cmp add l =
     (case ll_head l of
        None \<Rightarrow> None
      | Some h \<Rightarrow> (case ll_next l h of
          None \<Rightarrow> Some l
        | Some q \<Rightarrow> if cmp q add < 0 then nd_bound cmp add (l\<lparr>ll_head := Some q\<rparr>) else Some l))"

definition ND_LL_INSERT_INORDER :: "('a \<Rightarrow> 'a \<Rightarrow> int) \<Rightarrow> 'a \<Rightarrow> 'a llist \<Rightarrow> 'a llist option" where
  "ND_LL_INSERT_INORDER cmp add l =
     (if (case ll_head l of None \<Rightarrow> True | Some h \<Rightarrow> 0 \<le> cmp h add)
      then Some (l\<lparr>ll_next := (ll_next l)(add := ll_head l), ll_head := Some add\<rparr>)
      else Option.bind (nd_bound cmp add l) (\<lambda>m.
        case ll_head m of
          None \<Rightarrow> None
        | Some h \<Rightarrow> nd_link (ll_head l) (Some add) (m\<lparr>ll_next := (ll_next m)(add := ll_next m h)\<rparr>)))"

text \<open>\<open>while ((head)->next && ((head)->next != (del))) { (head) = (head)->next; }\<close>\<close>

partial_function (option) nd_seek :: "'a \<Rightarrow> 'a llist \<Rightarrow> 'a llist option" where
  "nd_seek del l =
     (case ll_head l of
        None \<Rightarrow> None
      | Some h \<Rightarrow> (case ll_next l h of
          None \<Rightarrow> Some l
        | Some q \<Rightarrow> if q \<noteq> del then nd_seek del (l\<lparr>ll_head := Some q\<rparr>) else Some l))"

definition ND_LL_DELETE :: "'a \<Rightarrow> 'a llist \<Rightarrow> 'a llist option" where
  "ND_LL_DELETE del l =
     (if ll_head l = Some del then Some (l\<lparr>ll_head := ll_next l del\<rparr>)
      else Option.bind (nd_seek del l) (\<lambda>m.
        case ll_head m of
          None \<Rightarrow> None
        | Some h \<Rightarrow> if ll_next m h = None then Some (m\<lparr>ll_head := ll_head l\<rparr>) else nd_link (ll_head l) (ll_next m del) m))"

text \<open>\<open>while ((add)->next->next && ((add)->next->next != (el))) { (add)->next = (add)->next->next; }\<close>\<close>

partial_function (option) nd_chase_to :: "'a \<Rightarrow> 'a \<Rightarrow> ('a \<Rightarrow> 'a option) \<Rightarrow> ('a \<Rightarrow> 'a option) option" where
  "nd_chase_to el add nxt =
     (case nxt add of
        None \<Rightarrow> None
      | Some t \<Rightarrow> (case nxt t of
          None \<Rightarrow> Some nxt
        | Some q \<Rightarrow> if q \<noteq> el then nd_chase_to el add (nxt(add := Some q)) else Some nxt))"

text \<open>The common part of \<open>LL_REPLACE_ELEM2\<close> and \<open>LL_PREPEND_ELEM2\<close>: the node before \<open>el\<close> gets the successor \<open>add\<close>.\<close>

definition nd_relink :: "'a \<Rightarrow> 'a \<Rightarrow> 'a llist \<Rightarrow> 'a llist option" where
  "nd_relink el add l =
     (case ll_head l of
        None \<Rightarrow> None
      | Some h \<Rightarrow>
          (if h = el then Some (l\<lparr>ll_head := Some add\<rparr>)
           else Option.bind (nd_chase_to el add ((ll_next l)(add := Some h))) (\<lambda>nxt.
             case nxt add of
               None \<Rightarrow> None
             | Some t \<Rightarrow> Some (l\<lparr>ll_next := (if nxt t = None then nxt else nxt(t := Some add))\<rparr>))))"

definition ND_LL_REPLACE_ELEM :: "'a \<Rightarrow> 'a \<Rightarrow> 'a llist \<Rightarrow> 'a llist option" where
  "ND_LL_REPLACE_ELEM el add l =
     map_option (\<lambda>l. l\<lparr>ll_next := (ll_next l)(add := ll_next l el)\<rparr>) (nd_relink el add l)"

definition ND_LL_PREPEND_ELEM :: "'a option \<Rightarrow> 'a \<Rightarrow> 'a llist \<Rightarrow> 'a llist option" where
  "ND_LL_PREPEND_ELEM el add l =
     (case el of
        Some e \<Rightarrow> map_option (\<lambda>l. l\<lparr>ll_next := (ll_next l)(add := Some e)\<rparr>) (nd_relink e add l)
      | None \<Rightarrow> ND_LL_APPEND add l)"

text \<open>The doubly linked list: the same walk, with the new node linked in both directions.\<close>

definition nd_dl_bound :: "('a \<Rightarrow> 'a \<Rightarrow> int) \<Rightarrow> 'a \<Rightarrow> 'a dlist \<Rightarrow> 'a option" where
  "nd_dl_bound cmp add d = Option.bind (nd_bound cmp add (dl_forward d)) ll_head"

definition ND_DL_INSERT_INORDER :: "('a \<Rightarrow> 'a \<Rightarrow> int) \<Rightarrow> 'a \<Rightarrow> 'a dlist \<Rightarrow> 'a dlist option" where
  "ND_DL_INSERT_INORDER cmp add d =
     (case dl_head d of
        None \<Rightarrow> Some (d\<lparr>dl_prev := (dl_prev d)(add := Some add), dl_next := (dl_next d)(add := None), dl_head := Some add\<rparr>)
      | Some tmp \<Rightarrow>
          (if 0 \<le> cmp tmp add
           then Some (d\<lparr>dl_prev := (dl_prev d)(add := dl_prev d tmp, tmp := Some add), dl_next := (dl_next d)(add := Some tmp),
             dl_head := Some add\<rparr>)
           else Option.bind (nd_dl_bound cmp add d) (\<lambda>h.
             let prv = (dl_prev d)(add := Some h); nxt = (dl_next d)(add := dl_next d h, h := Some add) in
             Some (d\<lparr>dl_next := nxt,
               dl_prev := (case nxt add of Some n \<Rightarrow> prv(n := Some add) | None \<Rightarrow> prv(tmp := Some add))\<rparr>))))"

text \<open>The circular list: \<open>while ((char*)(head)->next != _tmp && (cmp((head)->next, add)) < 0) { (head) = (head)->next; }\<close>\<close>

partial_function (option) nd_cdl_bound :: "('a \<Rightarrow> 'a \<Rightarrow> int) \<Rightarrow> 'a \<Rightarrow> 'a \<Rightarrow> 'a dlist \<Rightarrow> 'a dlist option" where
  "nd_cdl_bound cmp add tmp d =
     (case dl_head d of
        None \<Rightarrow> None
      | Some h \<Rightarrow> (case dl_next d h of
          None \<Rightarrow> None
        | Some q \<Rightarrow> if q \<noteq> tmp \<and> cmp q add < 0 then nd_cdl_bound cmp add tmp (d\<lparr>dl_head := Some q\<rparr>) else Some d))"

definition ND_CDL_INSERT_INORDER :: "('a \<Rightarrow> 'a \<Rightarrow> int) \<Rightarrow> 'a \<Rightarrow> 'a dlist \<Rightarrow> 'a dlist option" where
  "ND_CDL_INSERT_INORDER cmp add d =
     (case dl_head d of
        None \<Rightarrow> Some (d\<lparr>dl_prev := (dl_prev d)(add := Some add), dl_next := (dl_next d)(add := Some add), dl_head := Some add\<rparr>)
      | Some tmp \<Rightarrow>
          (if 0 \<le> cmp tmp add
           then
             (let prv = (dl_prev d)(add := dl_prev d tmp); nxt = (dl_next d)(add := Some tmp) in
              case prv add of
                None \<Rightarrow> None
              | Some t \<Rightarrow> Some (d\<lparr>dl_next := nxt(t := Some add), dl_prev := prv(tmp := Some add), dl_head := Some add\<rparr>))
           else Option.bind (nd_cdl_bound cmp add tmp d) (\<lambda>m.
             case dl_head m of
               None \<Rightarrow> None
             | Some h \<Rightarrow>
                 (let prv = (dl_prev m)(add := Some h); nxt = (dl_next m)(add := dl_next m h) in
                  case nxt add of
                    None \<Rightarrow> None
                  | Some n \<Rightarrow> Some (m\<lparr>dl_next := nxt(h := Some add), dl_prev := prv(n := Some add), dl_head := Some tmp\<rparr>)))))"

section \<open>The walks\<close>

lemma nd_last_eq: "ll_path (ll_next l) (Some h) xs None \<Longrightarrow> ll_head l = Some h \<Longrightarrow> nd_last l = Some (l\<lparr>ll_head := Some (last xs)\<rparr>)"
proof (induction xs arbitrary: l h)
  case (Cons x xs)
  show ?case
  proof (cases xs)
    case Nil
    with Cons.prems show ?thesis by (subst nd_last.simps) (cases l, simp)
  next
    case (Cons y ys)
    with Cons.prems Cons.IH [of "l\<lparr>ll_head := Some y\<rparr>" y] show ?thesis by (subst nd_last.simps) auto
  qed
qed simp

lemma nd_chase_eq:
  "ll_path nxt (Some h) xs None \<Longrightarrow> a \<notin> set xs \<Longrightarrow> nd_chase a (nxt(a := Some h)) = Some (nxt(a := Some (last xs)))"
proof (induction xs arbitrary: h)
  case (Cons x xs)
  show ?case
  proof (cases xs)
    case Nil
    with Cons.prems show ?thesis by (subst nd_chase.simps) auto
  next
    case (Cons y ys)
    with Cons.prems Cons.IH [of y] show ?thesis
      by (subst nd_chase.simps) (auto simp del: fun_upd_apply simp: fun_upd_same fun_upd_other)
  qed
qed simp

lemma nd_bound_eq:
  "ll_path (ll_next l) (Some p) (p # xs) None \<Longrightarrow> ll_head l = Some p \<Longrightarrow>
   nd_bound cmp a l = Some (l\<lparr>ll_head := Some (last (p # takeWhile (\<lambda>x. cmp x a < 0) xs))\<rparr>)"
proof (induction xs arbitrary: l p)
  case Nil
  then show ?case by (subst nd_bound.simps) (cases l, simp)
next
  case (Cons x xs)
  with Cons.IH [of "l\<lparr>ll_head := Some x\<rparr>" x] show ?case by (subst nd_bound.simps) (cases l, auto)
qed

lemma nd_seek_eq:
  "ll_path (ll_next l) (Some p) (ys @ d # zs) None \<Longrightarrow> ll_head l = Some p \<Longrightarrow> d \<noteq> p \<Longrightarrow> d \<notin> set ys \<Longrightarrow>
   nd_seek d l = Some (l\<lparr>ll_head := Some (last ys)\<rparr>)"
proof (induction ys arbitrary: l p)
  case (Cons y ys)
  show ?case
  proof (cases ys)
    case Nil
    with Cons.prems show ?thesis by (subst nd_seek.simps) (cases l, auto)
  next
    case (Cons v vs)
    with Cons.prems Cons.IH [of "l\<lparr>ll_head := Some v\<rparr>" v] show ?thesis by (subst nd_seek.simps) auto
  qed
qed simp

lemma nd_chase_to_eq:
  "ll_path nxt (Some p) (ys @ e # zs) None \<Longrightarrow> e \<noteq> p \<Longrightarrow> e \<notin> set ys \<Longrightarrow> a \<notin> set (ys @ e # zs) \<Longrightarrow>
   nd_chase_to e a (nxt(a := Some p)) = Some (nxt(a := Some (last ys)))"
proof (induction ys arbitrary: p)
  case (Cons y ys)
  show ?case
  proof (cases ys)
    case Nil
    with Cons.prems show ?thesis by (subst nd_chase_to.simps) auto
  next
    case (Cons v vs)
    with Cons.prems Cons.IH [of v] show ?thesis
      by (subst nd_chase_to.simps) (auto simp del: fun_upd_apply simp: fun_upd_same fun_upd_other)
  qed
qed simp

lemma nd_cdl_bound_eq:
  "ll_path (dl_next d) (Some p) (p # xs) (Some t) \<Longrightarrow> t \<notin> set xs \<Longrightarrow> dl_head d = Some p \<Longrightarrow>
   nd_cdl_bound cmp a t d = Some (d\<lparr>dl_head := Some (last (p # takeWhile (\<lambda>x. cmp x a < 0) xs))\<rparr>)"
proof (induction xs arbitrary: d p)
  case Nil
  then show ?case by (subst nd_cdl_bound.simps) (cases d, simp)
next
  case (Cons x xs)
  with Cons.IH [of "d\<lparr>dl_head := Some x\<rparr>" x] show ?case by (subst nd_cdl_bound.simps) (cases d, auto)
qed

section \<open>They leave the same memory as the usual definitions\<close>

lemma ll_repr_cases:
  assumes "ll_repr l xs"
  obtains "xs = []" "ll_head l = None" | h ts where "xs = h # ts" "ll_head l = Some h" "ll_path (ll_next l) (Some h) xs None"
  using assms by (cases xs) (auto simp: ll_repr_def)

lemma ND_LL_CONCAT_eq:
  assumes "ll_repr l xs"
  shows "ND_LL_CONCAT l head2 = LL_CONCAT l head2"
  using assms
proof (cases rule: ll_repr_cases)
  case (2 h ts)
  then have "nd_last l = Some (l\<lparr>ll_head := Some (last xs)\<rparr>)" "ll_last (ll_next l) h = Some (last xs)"
    using nd_last_eq [of l h xs] ll_last_path [of "ll_next l" h xs] by auto
  with 2 show ?thesis by (cases l) (simp add: ND_LL_CONCAT_def LL_CONCAT_def nd_link_def)
qed (simp add: ND_LL_CONCAT_def LL_CONCAT_def)

lemma ND_LL_APPEND_eq:
  assumes "ll_repr l xs" "a \<notin> set xs"
  shows "ND_LL_APPEND a l = LL_APPEND a l"
  using assms(1)
proof (cases rule: ll_repr_cases)
  case (2 h ts)
  then have "nd_chase a ((ll_next l)(a := Some h)) = Some ((ll_next l)(a := Some (last xs)))"
    "ll_last ((ll_next l)(a := None)) h = Some (last xs)" "last xs \<noteq> a"
    using nd_chase_eq [of "ll_next l" h xs a] ll_last_path [of "(ll_next l)(a := None)" h xs] assms(2) last_in_set [of xs] by auto
  with 2 show ?thesis by (simp add: ND_LL_APPEND_def LL_APPEND_def fun_upd_twist)
qed (simp add: ND_LL_APPEND_def LL_APPEND_def)

lemma ND_LL_INSERT_INORDER_eq:
  assumes "ll_repr l xs" "a \<notin> set xs"
  shows "ND_LL_INSERT_INORDER cmp a l = LL_INSERT_INORDER cmp a l"
  using assms(1)
proof (cases rule: ll_repr_cases)
  case (2 h ts)
  let ?e = "last (h # takeWhile (\<lambda>x. cmp x a < 0) ts)"
  have "nd_bound cmp a l = Some (l\<lparr>ll_head := Some ?e\<rparr>)" "ll_bound (ll_next l) cmp a h = Some ?e"
    using 2 nd_bound_eq [of l h ts cmp a] ll_bound_path [of "ll_next l" h ts cmp a] by auto
  with 2 show ?thesis
    by (cases l) (simp add: ND_LL_INSERT_INORDER_def LL_INSERT_INORDER_def LL_LOWER_BOUND_def LL_APPEND_ELEM_def LL_PREPEND_def nd_link_def)
qed (simp add: ND_LL_INSERT_INORDER_def LL_INSERT_INORDER_def)

text \<open>What the searches for the node before \<open>e\<close> find.\<close>

lemma nd_before:
  assumes "ll_repr l (ys @ e # zs)" "ys \<noteq> []"
  obtains h where "ll_head l = Some h" "e \<noteq> h" "ll_path (ll_next l) (Some h) (ys @ e # zs) None" "e \<notin> set ys" "e \<noteq> last ys"
    "ll_next l (last ys) = Some e"
proof -
  have d: "distinct (ys @ e # zs)" using ll_repr_distinct [OF assms(1)] .
  obtain h ts where ys: "ys = h # ts" using assms(2) by (cases ys) auto
  have e: "e \<notin> set ys" "e \<noteq> last ys" using d assms(2) last_in_set [of ys] by auto
  have "ll_path (ll_next l) (ll_head l) ((butlast ys @ [last ys]) @ e # zs) None" using assms by (simp add: ll_repr_def)
  then have "ll_next l (last ys) = Some e" by auto
  with e that [of h] assms(1) ys d show ?thesis by (auto simp: ll_repr_def)
qed

lemma ND_LL_DELETE_eq:
  assumes "ll_repr l (ys @ e # zs)"
  shows "ND_LL_DELETE e l = LL_DELETE e l"
proof (cases "ys = []")
  case True
  with assms show ?thesis by (simp add: ND_LL_DELETE_def LL_DELETE_def ll_repr_def)
next
  case False
  from assms this obtain h where h: "ll_head l = Some h" "e \<noteq> h" "ll_path (ll_next l) (Some h) (ys @ e # zs) None" "e \<notin> set ys"
    by (rule nd_before)
  then have "nd_seek e l = Some (l\<lparr>ll_head := Some (last ys)\<rparr>)" "ll_seek (ll_next l) e h = Some (last ys)"
    using nd_seek_eq [of l h ys e zs] ll_seek_path [of "ll_next l" h ys e zs] by auto
  with h show ?thesis by (cases l) (simp add: ND_LL_DELETE_def LL_DELETE_def nd_link_def)
qed

lemma nd_relink_eq:
  assumes "ll_repr l (ys @ e # zs)" "a \<notin> set (ys @ e # zs)"
  shows "map_option (\<lambda>l. l\<lparr>ll_next := (ll_next l)(a := f (ll_next l e))\<rparr>) (nd_relink e a l) =
    ll_relink e a (l\<lparr>ll_next := (ll_next l)(a := f (ll_next l e))\<rparr>)"
proof (cases "ys = []")
  case True
  with assms show ?thesis by (simp add: nd_relink_def ll_relink_def ll_repr_def)
next
  case False
  from assms(1) this obtain h where h: "ll_head l = Some h" "e \<noteq> h" "ll_path (ll_next l) (Some h) (ys @ e # zs) None" "e \<notin> set ys"
    "e \<noteq> last ys" "ll_next l (last ys) = Some e"
    by (rule nd_before)
  have a: "a \<noteq> last ys" "a \<noteq> e" using assms(2) False last_in_set [of ys] by auto
  have "ll_path ((ll_next l)(a := f (ll_next l e))) (Some h) (ys @ e # zs) None"
    using h(3) assms(2) by (simp del: ll_path_append)
  then have "ll_seek ((ll_next l)(a := f (ll_next l e))) e h = Some (last ys)" using h(2,4) by (intro ll_seek_path)
  moreover have "nd_chase_to e a ((ll_next l)(a := Some h)) = Some ((ll_next l)(a := Some (last ys)))"
    using h assms(2) by (intro nd_chase_to_eq)
  ultimately show ?thesis using h a by (simp add: nd_relink_def ll_relink_def fun_upd_twist)
qed

lemma ND_LL_REPLACE_ELEM_eq:
  assumes "ll_repr l (ys @ e # zs)" "a \<notin> set (ys @ e # zs)"
  shows "ND_LL_REPLACE_ELEM e a l = LL_REPLACE_ELEM e a l"
  using nd_relink_eq [OF assms, of "\<lambda>x. x"] by (simp add: ND_LL_REPLACE_ELEM_def LL_REPLACE_ELEM_def)

lemma ND_LL_PREPEND_ELEM_eq:
  assumes "ll_repr l (ys @ e # zs)" "a \<notin> set (ys @ e # zs)"
  shows "ND_LL_PREPEND_ELEM (Some e) a l = LL_PREPEND_ELEM (Some e) a l"
  using nd_relink_eq [OF assms, of "\<lambda>_. Some e"] by (simp add: ND_LL_PREPEND_ELEM_def LL_PREPEND_ELEM_def)

lemma ND_DL_INSERT_INORDER_eq:
  assumes "dl_repr d xs" "a \<notin> set xs"
  shows "ND_DL_INSERT_INORDER cmp a d = DL_INSERT_INORDER cmp a d"
  using dl_repr_forward [OF assms(1)]
proof (cases rule: ll_repr_cases)
  case 1
  then show ?thesis by (simp add: ND_DL_INSERT_INORDER_def DL_INSERT_INORDER_def dl_forward_def)
next
  case (2 h ts)
  let ?e = "last (h # takeWhile (\<lambda>x. cmp x a < 0) ts)"
  have "nd_bound cmp a (dl_forward d) = Some ((dl_forward d)\<lparr>ll_head := Some ?e\<rparr>)" "ll_bound (dl_next d) cmp a h = Some ?e"
    using 2 nd_bound_eq [of "dl_forward d" h ts cmp a] ll_bound_path [of "dl_next d" h ts cmp a] by (auto simp: dl_forward_def)
  with 2 show ?thesis
    by (simp add: ND_DL_INSERT_INORDER_def DL_INSERT_INORDER_def DL_LOWER_BOUND_def LL_LOWER_BOUND_def DL_APPEND_ELEM_def DL_PREPEND_def
      nd_dl_bound_def dl_forward_def)
qed

lemma ND_CDL_INSERT_INORDER_eq:
  assumes "cdl_repr d xs" "a \<notin> set xs"
  shows "ND_CDL_INSERT_INORDER cmp a d = CDL_INSERT_INORDER cmp a d"
proof (cases xs)
  case Nil
  with assms show ?thesis by (simp add: ND_CDL_INSERT_INORDER_def CDL_INSERT_INORDER_def cdl_repr_def)
next
  case (Cons h ts)
  then have h: "dl_head d = Some h" "ll_path (dl_next d) (Some h) (h # ts) (Some h)" "h \<notin> set ts" "h \<noteq> a"
    using assms by (auto simp: cdl_repr_def)
  let ?e = "last (h # takeWhile (\<lambda>x. cmp x a < 0) ts)"
  have "?e \<in> set (h # ts)" using last_in_set [of "h # takeWhile (\<lambda>x. cmp x a < 0) ts"] by (auto dest: set_takeWhileD)
  then have "?e \<noteq> a" using assms(2) Cons by auto
  moreover have "nd_cdl_bound cmp a h d = Some (d\<lparr>dl_head := Some ?e\<rparr>)" "cdl_bound (dl_next d) cmp a h h = Some ?e"
    using h nd_cdl_bound_eq [of d h ts h cmp a] cdl_bound_path [of "dl_next d" h ts h cmp a] by auto
  ultimately show ?thesis using h
    by (cases d) (simp add: ND_CDL_INSERT_INORDER_def CDL_INSERT_INORDER_def CDL_LOWER_BOUND_def CDL_APPEND_ELEM_def CDL_PREPEND_def
      split: option.split)
qed

section \<open>The steps of the sorts\<close>

text \<open>
  Without \<open>decltype\<close> the variables of the sorts are \<open>char*\<close>, which cannot be dereferenced. To reach a field of a node the list variable
  is set to the node (\<open>UTLIST_SV\<close> keeps the old value), used, and restored.
\<close>

definition UTLIST_SV :: "'a option \<Rightarrow> ('a, 'b) lsort_scheme \<Rightarrow> 'a option \<times> ('a, 'b) lsort_scheme" where
  "UTLIST_SV elt st = (ls_list st, st\<lparr>ls_list := elt\<rparr>)"

definition UTLIST_RS :: "'a option \<Rightarrow> ('a, 'b) lsort_scheme \<Rightarrow> ('a, 'b) lsort_scheme" where
  "UTLIST_RS tmp st = st\<lparr>ls_list := tmp\<rparr>"

definition UTLIST_NEXT :: "('a, 'b) lsort_scheme \<Rightarrow> 'a option option" where
  "UTLIST_NEXT st = (case ls_list st of None \<Rightarrow> None | Some h \<Rightarrow> Some (ls_next st h))"

definition UTLIST_NEXTASGN :: "'a option \<Rightarrow> ('a, 'b) lsort_scheme \<Rightarrow> ('a, 'b) lsort_scheme option" where
  "UTLIST_NEXTASGN q st = (case ls_list st of None \<Rightarrow> None | Some h \<Rightarrow> Some (st\<lparr>ls_next := (ls_next st)(h := q)\<rparr>))"

definition UTLIST_PREVASGN :: "'a option \<Rightarrow> ('a, 'b) dsort_scheme \<Rightarrow> ('a, 'b) dsort_scheme option" where
  "UTLIST_PREVASGN q st = (case ls_list st of None \<Rightarrow> None | Some h \<Rightarrow> Some (st\<lparr>ls_prev := (ls_prev st)(h := q)\<rparr>))"

text \<open>\<open>UTLIST_SV(e,list); e = UTLIST_NEXT(e,list,next); UTLIST_RS(list)\<close>, and what the sorts write when a node is moved.\<close>

definition nd_read :: "'a option \<Rightarrow> ('a, 'b) lsort_scheme \<Rightarrow> ('a option \<times> ('a, 'b) lsort_scheme) option" where
  "nd_read e st = (case UTLIST_SV e st of (tmp, st) \<Rightarrow> map_option (\<lambda>q. (q, UTLIST_RS tmp st)) (UTLIST_NEXT st))"

definition nd_ll_emit :: "'a \<Rightarrow> ('a, 'b) lsort_scheme \<Rightarrow> ('a, 'b) lsort_scheme option" where
  "nd_ll_emit e st =
     map_option (\<lambda>st. st\<lparr>ls_tail := Some e\<rparr>)
       (if ls_tail st \<noteq> None
        then (case UTLIST_SV (ls_tail st) st of (tmp, st) \<Rightarrow> map_option (UTLIST_RS tmp) (UTLIST_NEXTASGN (Some e) st))
        else Some (st\<lparr>ls_list := Some e\<rparr>))"

definition nd_dl_emit :: "'a \<Rightarrow> ('a, 'b) dsort_scheme \<Rightarrow> ('a, 'b) dsort_scheme option" where
  "nd_dl_emit e st =
     Option.bind
       (if ls_tail st \<noteq> None
        then (case UTLIST_SV (ls_tail st) st of (tmp, st) \<Rightarrow> map_option (UTLIST_RS tmp) (UTLIST_NEXTASGN (Some e) st))
        else Some (st\<lparr>ls_list := Some e\<rparr>)) (\<lambda>st.
     case UTLIST_SV (Some e) st of (tmp, st) \<Rightarrow>
       map_option (\<lambda>st. (UTLIST_RS tmp st)\<lparr>ls_tail := Some e\<rparr>) (UTLIST_PREVASGN (ls_tail st) st))"

definition nd_dl_finish :: "('a, 'b) dsort_scheme \<Rightarrow> ('a, 'b) dsort_scheme option" where
  "nd_dl_finish st =
     Option.bind (UTLIST_PREVASGN (ls_tail st) st) (\<lambda>st.
     case UTLIST_SV (ls_tail st) st of (tmp, st) \<Rightarrow> map_option (UTLIST_RS tmp) (UTLIST_NEXTASGN None st))"

lemmas utlist_defs = UTLIST_SV_def UTLIST_RS_def UTLIST_NEXT_def UTLIST_NEXTASGN_def UTLIST_PREVASGN_def

lemma nd_read_eq: "nd_read (Some e) st = Some (ls_next st e, st)"
  by (cases st) (simp add: nd_read_def utlist_defs)

lemma nd_ll_emit_eq: "nd_ll_emit e st = Some (ll_emit e st)"
  by (cases st) (auto simp: nd_ll_emit_def ll_emit_def utlist_defs)

lemma nd_dl_emit_eq: "nd_dl_emit e st = Some (dl_emit e st)"
  by (cases st) (auto simp: nd_dl_emit_def dl_emit_def ll_emit_def utlist_defs)

lemma nd_dl_finish_eq: "nd_dl_finish st = dl_finish st"
  by (cases st) (auto simp: nd_dl_finish_def dl_finish_def utlist_defs split: option.splits)

end
