(* ===== verification/Utlist_Props.thy ===== *)
theory Utlist_Props
  imports Utlist_ND
begin

text \<open>
  Properties of the list macros of \<open>src/src/utlist.h\<close> beyond those that the other components use: the sorts, the operations of the
  three kinds of list, and the definitions for compilers without \<open>decltype\<close>.
\<close>

text \<open>Lists to apply the properties to.\<close>

lemma some_lists:
  assumes "distinct xs"
  obtains l d c where "ll_repr l xs" "dl_repr d xs" "cdl_repr c xs"
  using ll.append_all [OF ll.repr_nil, of xs] dl.append_all [OF dl.repr_nil, of xs] cdl.append_all [OF cdl.repr_nil, of xs] assms by auto

text \<open>A macro returns, and leaves a well-linked list of the given nodes.\<close>

definition leaves :: "('l \<Rightarrow> 'a list \<Rightarrow> bool) \<Rightarrow> 'l option \<Rightarrow> 'a list \<Rightarrow> bool" where
  "leaves repr m xs \<longleftrightarrow> (\<exists>l. m = Some l \<and> repr l xs)"

text \<open>Ordered insertion: before the first element that is not less.\<close>

definition inserted :: "('a \<Rightarrow> 'a \<Rightarrow> int) \<Rightarrow> 'a \<Rightarrow> 'a list \<Rightarrow> 'a list" where
  "inserted cmp a xs = takeWhile (\<lambda>x. cmp x a < 0) xs @ a # dropWhile (\<lambda>x. cmp x a < 0) xs"

section \<open>The sorts\<close>

text \<open>
  C18: \<open>LL_SORT\<close>, \<open>DL_SORT\<close> and \<open>CDL_SORT\<close> return on every well-linked list of at most 2^30 nodes (so that the doubling of the \<open>int\<close>
  \<open>_ls_insize\<close> does not overflow) if the comparison function orders the nodes, and they leave a well-linked list of the same nodes in
  ascending order, in which nodes that compare equal keep the order they had.
\<close>

theorem list_sorts_return_sorted:
  assumes "orders cmp" "length xs \<le> 2 ^ 30"
    and "ll_repr l xs" "dl_repr d xs" "cdl_repr c xs"
  shows "(\<exists>ys. leaves ll_repr (LL_SORT cmp l) ys \<and> stable_sort cmp xs ys)
    \<and> (\<exists>ys. leaves dl_repr (DL_SORT cmp d) ys \<and> stable_sort cmp xs ys)
    \<and> (\<exists>ys. leaves cdl_repr (CDL_SORT cmp c) ys \<and> stable_sort cmp xs ys)"
  using LL_SORT_refines [OF assms(1,3,2)] DL_SORT_refines [OF assms(1,4,2)] CDL_SORT_refines [OF assms(1,5,2)]
  unfolding leaves_def by blast

lemma stable_sort_ints: "stable_sort (\<lambda>x y. x - y) xs ys \<Longrightarrow> ys = sort xs" for xs :: "int list"
  by (auto simp: stable_sort_def intro: properties_for_sort [symmetric])

theorem list_sorts_return_sorted_witness:
  "\<exists>l d c :: int dlist. ll_repr l [3, 1, 2 :: int] \<and> dl_repr d [3, 1, 2] \<and> cdl_repr c [3, 1, 2]
    \<and> leaves ll_repr (LL_SORT (\<lambda>x y. x - y) l) [1, 2, 3] \<and> leaves dl_repr (DL_SORT (\<lambda>x y. x - y) d) [1, 2, 3]
    \<and> leaves cdl_repr (CDL_SORT (\<lambda>x y. x - y) c) [1, 2, 3]"
proof -
  obtain l d c where r: "ll_repr l [3, 1, 2 :: int]" "dl_repr d [3, 1, 2 :: int]" "cdl_repr c [3, 1, 2 :: int]"
    by (rule some_lists [of "[3, 1, 2]"]) auto
  have "orders (\<lambda>x y :: int. x - y)" by (auto simp: orders_def)
  from list_sorts_return_sorted [OF this _ r] have "leaves ll_repr (LL_SORT (\<lambda>x y. x - y) l) [1, 2, 3]"
    "leaves dl_repr (DL_SORT (\<lambda>x y. x - y) d) [1, 2, 3]" "leaves cdl_repr (CDL_SORT (\<lambda>x y. x - y) c) [1, 2, 3]"
    by (auto dest!: stable_sort_ints)
  with r show ?thesis by blast
qed

section \<open>The operations\<close>

text \<open>
  C17: On the three kinds of list, singly linked, doubly linked and circular, the macros return and do the same to the list of nodes: a new node is appended;
  a loop that deletes some nodes keeps the others in their order; a node is taken out, replaced, and a new one is put before or after it; an ordered insertion puts a new node before the first that is not less; counting gives the
  number of nodes and a search the first node that compares equal, or NULL.
\<close>

theorem list_macros_agree:
  assumes "ll_repr l xs" "dl_repr d xs" "cdl_repr c xs" "xs = ys @ e # zs" "a \<notin> set xs"
  shows "leaves ll_repr (LL_APPEND a l) (xs @ [a]) \<and> leaves dl_repr (DL_APPEND a d) (xs @ [a]) \<and> leaves cdl_repr (CDL_APPEND a c) (xs @ [a])
    \<and> leaves ll_repr (ll_sweep P l) (filter (\<lambda>x. \<not> P x) xs) \<and> leaves dl_repr (dl_sweep P d) (filter (\<lambda>x. \<not> P x) xs)
    \<and> leaves cdl_repr (cdl_sweep P c) (filter (\<lambda>x. \<not> P x) xs)
    \<and> leaves ll_repr (LL_DELETE e l) (ys @ zs) \<and> leaves dl_repr (DL_DELETE e d) (ys @ zs) \<and> leaves cdl_repr (CDL_DELETE e c) (ys @ zs)
    \<and> leaves ll_repr (LL_REPLACE_ELEM e a l) (ys @ a # zs) \<and> leaves dl_repr (DL_REPLACE_ELEM e a d) (ys @ a # zs)
    \<and> leaves cdl_repr (CDL_REPLACE_ELEM e a c) (ys @ a # zs)
    \<and> leaves ll_repr (LL_PREPEND_ELEM (Some e) a l) (ys @ a # e # zs) \<and> leaves dl_repr (DL_PREPEND_ELEM (Some e) a d) (ys @ a # e # zs)
    \<and> leaves cdl_repr (CDL_PREPEND_ELEM (Some e) a c) (ys @ a # e # zs)
    \<and> leaves ll_repr (LL_APPEND_ELEM (Some e) a l) (ys @ e # a # zs) \<and> leaves dl_repr (DL_APPEND_ELEM (Some e) a d) (ys @ e # a # zs)
    \<and> leaves cdl_repr (CDL_APPEND_ELEM (Some e) a c) (ys @ e # a # zs)
    \<and> leaves ll_repr (LL_INSERT_INORDER cmp a l) (inserted cmp a xs) \<and> leaves dl_repr (DL_INSERT_INORDER cmp a d) (inserted cmp a xs)
    \<and> leaves cdl_repr (CDL_INSERT_INORDER cmp a c) (inserted cmp a xs)
    \<and> LL_COUNT l = Some (length xs) \<and> DL_COUNT d = Some (length xs) \<and> CDL_COUNT c = Some (length xs)
    \<and> LL_SEARCH cmp v l = Some (find (\<lambda>x. cmp x v = 0) xs) \<and> DL_SEARCH cmp v d = Some (find (\<lambda>x. cmp x v = 0) xs)
    \<and> CDL_SEARCH cmp v c = Some (find (\<lambda>x. cmp x v = 0) xs)"
proof -
  note l = assms(1) [unfolded assms(4)] and d = assms(2) [unfolded assms(4)] and c = assms(3) [unfolded assms(4)] and a = assms(5) [unfolded assms(4)]
  show ?thesis
    using ll.repr_append [OF assms(1,5)] dl.repr_append [OF assms(2,5)] cdl.repr_append [OF assms(3,5)]
      ll.repr_sweep [OF assms(1), of P] dl.repr_sweep [OF assms(2), of P] cdl.repr_sweep [OF assms(3), of P]
      LL_DELETE_at [OF l] DL_DELETE_at [OF d] CDL_DELETE_at [OF c]
      LL_REPLACE_ELEM_refines [OF l a] DL_REPLACE_ELEM_refines [OF d a] CDL_REPLACE_ELEM_refines [OF c a]
      LL_PREPEND_ELEM_refines [OF l a] DL_PREPEND_ELEM_refines [OF d a] CDL_PREPEND_ELEM_refines [OF c a]
      LL_APPEND_ELEM_refines [OF l a] DL_APPEND_ELEM_refines [OF d a] CDL_APPEND_ELEM_refines [OF c a]
      LL_INSERT_INORDER_refines [OF assms(1,5), of cmp] DL_INSERT_INORDER_refines [OF assms(2,5), of cmp]
      CDL_INSERT_INORDER_refines [OF assms(3,5), of cmp]
      LL_COUNT_refines [OF assms(1), where 'c = nat] DL_COUNT_refines [OF assms(2), where 'c = nat] CDL_COUNT_refines [OF assms(3), where 'c = nat]
      LL_SEARCH_refines(1) [OF assms(1)] DL_SEARCH_refines(1) [OF assms(2)] CDL_SEARCH_refines(1) [OF assms(3)]
    unfolding leaves_def inserted_def of_nat_id by (intro conjI) (assumption | blast)+
qed

theorem list_macros_agree_witness:
  "\<exists>l c. ll_repr l [1, 3, 5 :: int] \<and> cdl_repr c [1, 3, 5 :: int] \<and> leaves ll_repr (LL_DELETE 3 l) [1, 5]
    \<and> leaves cdl_repr (CDL_INSERT_INORDER (\<lambda>x y. x - y) 4 c) [1, 3, 4, 5]"
proof -
  obtain l d c where r: "ll_repr l [1, 3, 5 :: int]" "dl_repr d [1, 3, 5 :: int]" "cdl_repr c [1, 3, 5 :: int]"
    by (rule some_lists [of "[1, 3, 5]"]) auto
  from list_macros_agree [OF r, of "[1]" 3 "[5]" 4 _ "\<lambda>x y. x - y"] r show ?thesis by (auto simp: inserted_def)
qed

section \<open>Without \<open>decltype\<close>\<close>

text \<open>
  C19: The definitions that replace list macros for compilers without \<open>decltype\<close> walk with the head variable or with the \<open>next\<close> field of the new
  node; on every well-linked list and for a node that is not in it they return, and leave the head and every field, as the usual
  definitions do. Those of the steps of the three sorts, which set the list variable to a node and restore it, are in every
  state equal to the usual ones.
\<close>

theorem macros_without_decltype_equal:
  assumes "ll_repr l (ys @ e # zs)" "dl_repr d (ys @ e # zs)" "cdl_repr c (ys @ e # zs)" "a \<notin> set (ys @ e # zs)"
  shows "ND_LL_CONCAT l q = LL_CONCAT l q \<and> ND_LL_APPEND a l = LL_APPEND a l \<and> ND_LL_DELETE e l = LL_DELETE e l
    \<and> ND_LL_REPLACE_ELEM e a l = LL_REPLACE_ELEM e a l \<and> ND_LL_PREPEND_ELEM (Some e) a l = LL_PREPEND_ELEM (Some e) a l
    \<and> ND_LL_INSERT_INORDER cmp a l = LL_INSERT_INORDER cmp a l \<and> ND_DL_INSERT_INORDER cmp a d = DL_INSERT_INORDER cmp a d
    \<and> ND_CDL_INSERT_INORDER cmp a c = CDL_INSERT_INORDER cmp a c
    \<and> nd_read (Some n) st = Some (ls_next st n, st) \<and> nd_ll_emit n st = Some (ll_emit n st)
    \<and> nd_dl_emit n t = Some (dl_emit n t) \<and> nd_dl_finish t = dl_finish t"
  by (intro conjI ND_LL_CONCAT_eq [OF assms(1)] ND_LL_APPEND_eq [OF assms(1,4)] ND_LL_DELETE_eq [OF assms(1)] ND_LL_REPLACE_ELEM_eq [OF assms(1,4)]
      ND_LL_PREPEND_ELEM_eq [OF assms(1,4)] ND_LL_INSERT_INORDER_eq [OF assms(1,4)] ND_DL_INSERT_INORDER_eq [OF assms(2,4)]
      ND_CDL_INSERT_INORDER_eq [OF assms(3,4)] nd_read_eq nd_ll_emit_eq nd_dl_emit_eq nd_dl_finish_eq)

theorem macros_without_decltype_equal_witness:
  "\<exists>l. ll_repr l [1, 3, 5 :: int] \<and> ND_LL_DELETE 3 l = LL_DELETE 3 l \<and> ND_LL_APPEND 4 l = LL_APPEND 4 l"
proof -
  obtain l d c where r: "ll_repr l ([1] @ 3 # [5 :: int])" "dl_repr d ([1] @ 3 # [5 :: int])" "cdl_repr c ([1] @ 3 # [5 :: int])"
    by (rule some_lists [of "[1] @ 3 # [5]"]) auto
  have "4 \<notin> set ([1] @ 3 # [5 :: int])" by simp
  from macros_without_decltype_equal [OF r this, of None "\<lambda>x y. x - y" 3 "\<lparr>ls_next = ll_next l, ls_list = None, ls_tail = None\<rparr>"
      "\<lparr>ls_next = ll_next l, ls_list = None, ls_tail = None, ls_prev = ll_next l\<rparr>"] r(1) show ?thesis by (intro exI [of _ l]) simp
qed

end
