(* ===== verification/Xopt_Alloc.thy ===== *)
theory Xopt_Alloc
  imports Xopt
begin

text \<open>
  The option parser of \<open>src/src/xopt.c\<close> with its memory: the context, the array of extra arguments, which grows by ten places, and the list of
  required options. Each call of \<open>malloc\<close> and \<open>realloc\<close> takes one answer of the environment, whether it succeeds. Memory that is freed twice is the
  fault \<open>UseAfterFree\<close>. An error leaves the parser by \<open>longjmp\<close> to the label \<open>end\<close>, whatever the parser was doing, also if it had already
  reached \<open>end\<close>. While allocations succeed, the parser is the one of theory \<open>Xopt\<close>.
\<close>

section \<open>Memory\<close>

text \<open>\<open>ctx->required\<close>, which \<open>xopt_parse\<close> frees but does not reset; the array of extra arguments, with \<open>None\<close> for NULL, and its capacity.\<close>

datatype block = Null | Live | Freed

record xheap =
  h_allocs :: "bool list"
  h_required :: block
  h_extras :: "string list option"
  h_capac :: nat

definition EXTRAS_INIT :: nat where
  "EXTRAS_INIT = 10"

definition alloc :: "xheap \<Rightarrow> (bool \<times> xheap) res" where
  "alloc h = (case h_allocs h of [] \<Rightarrow> Inl Blocked | ok # allocs \<Rightarrow> Inr (ok, h\<lparr>h_allocs := allocs\<rparr>))"

text \<open>\<open>_xopt_assert_increment\<close> makes room for one more element; the flag says whether that worked.\<close>

definition xopt_assert_increment :: "xheap \<Rightarrow> (bool \<times> xheap) res" where
  "xopt_assert_increment h =
     (case h_extras h of
        None \<Rightarrow> Inl NullDeref
      | Some extras \<Rightarrow>
          (if length extras = h_capac h
           then bindR (alloc (h\<lparr>h_capac := h_capac h + EXTRAS_INIT\<rparr>)) (\<lambda>(ok, h). Inr (ok, if ok then h else h\<lparr>h_extras := None\<rparr>))
           else Inr (True, h)))"

text \<open>An assignment to the element behind the last one; \<open>None\<close> is the NULL that ends the array.\<close>

definition store_extra :: "string option \<Rightarrow> xheap \<Rightarrow> xheap res" where
  "store_extra x h =
     (case h_extras h of
        None \<Rightarrow> Inl NullDeref
      | Some extras \<Rightarrow>
          (if length extras < h_capac h then Inr (case x of None \<Rightarrow> h | Some a \<Rightarrow> h\<lparr>h_extras := Some (extras @ [a])\<rparr>)
           else Inl OutOfBounds))"

definition free_required :: "xheap \<Rightarrow> xheap res" where
  "free_required h =
     (case h_required h of Freed \<Rightarrow> Inl UseAfterFree | Live \<Rightarrow> Inr (h\<lparr>h_required := Freed\<rparr>) | Null \<Rightarrow> Inr h)"

section \<open>\<open>_xopt_parse_impl\<close>\<close>

text \<open>\<open>_xopt_set_err\<close> with a context: the message in \<open>err\<close>, and the jump.\<close>

definition xopt_jump :: "xerr \<Rightarrow> xstate \<Rightarrow> xheap \<Rightarrow> (string option \<times> xstate \<times> xheap) res" where
  "xopt_jump e s h = (case e of XFault f \<Rightarrow> Inl f | XErr msg data \<Rightarrow> Inr (Some msg, s\<lparr>xs_data := data\<rparr>, h))"

text \<open>The loop over the arguments, up to the label \<open>end\<close>: the error, if any, the state and the memory.\<close>

function xopt_loop_mem :: "(string \<Rightarrow> nat) \<Rightarrow> xctx \<Rightarrow> string list \<Rightarrow> nat \<Rightarrow> xstate \<Rightarrow> xheap \<Rightarrow> (string option \<times> xstate \<times> xheap) res" where
  "xopt_loop_mem strtod ctx argv argi s h =
     (if argi < length argv then
        (case xopt_parse_arg strtod ctx argv argi s of
           Inl e \<Rightarrow> xopt_jump e s h
         | Inr (r, j, s) \<Rightarrow>
             if r = 0 then
               (if POSIXMEHARDER (xc_flags ctx) \<and> h_extras h \<noteq> Some []
                then xopt_jump (xopt_set_err (xs_data s) ''options cannot be specified after arguments: %s'' [a_str (argv ! j)]) s h
                else xopt_loop_mem strtod ctx argv (Suc j) s h)
             else if r = 1 then
               bindR (xopt_assert_increment h) (\<lambda>(ok, h).
                 if ok then bindR (store_extra (Some (argv ! j)) h) (\<lambda>h. xopt_loop_mem strtod ctx argv (Suc j) s h)
                 else xopt_jump (xopt_set_err (xs_data s) ''could not realloc arguments array'' []) s h)
             else xopt_loop_mem strtod ctx argv (Suc j) s h)
      else Inr (None, s, h))"
  by pat_completeness auto
termination
  by (relation "measure (\<lambda>(_, _, argv, argi, _, _). length argv - argi)") (auto dest!: xopt_parse_arg_mono)

declare xopt_loop_mem.simps [simp del]

text \<open>The label \<open>end\<close> with an error, and without one. The result has the error, the number of extra arguments and \<open>*inextras\<close>.\<close>

definition xopt_fail :: "string option \<times> xstate \<times> xheap \<Rightarrow> (string option \<times> string list option \<times> xstate \<times> xheap) res" where
  "xopt_fail = (\<lambda>(er, s, h). bindR (free_required h) (\<lambda>h. Inr (er, None, s, h\<lparr>h_extras := None\<rparr>)))"

definition xopt_end :: "xctx \<Rightarrow> string option \<times> xstate \<times> xheap \<Rightarrow> (string option \<times> string list option \<times> xstate \<times> xheap) res" where
  "xopt_end ctx = (\<lambda>(er, s, h).
     if er \<noteq> None then xopt_fail (er, s, h)
     else case xopt_missing (xs_data s) (xc_options ctx) (xs_required s) of
       Some e \<Rightarrow> bindR (xopt_jump e s h) xopt_fail
     | None \<Rightarrow>
         bindR (free_required h) (\<lambda>h.
         bindR (xopt_assert_increment h) (\<lambda>(ok, h).
           if ok then bindR (store_extra None h) (\<lambda>h. Inr (None, h_extras h, s, h))
           else bindR (xopt_jump (xopt_set_err (xs_data s) ''could not realloc arguments array'' []) s h) xopt_fail)))"

text \<open>\<open>doubledash\<close> is the flag of the context, which is not reset either.\<close>

definition xopt_parse_mem ::
  "(string \<Rightarrow> nat) \<Rightarrow> xctx \<Rightarrow> string list \<Rightarrow> bool \<Rightarrow> xstore \<Rightarrow> xheap \<Rightarrow> (string option \<times> string list option \<times> xstate \<times> xheap) res" where
  "xopt_parse_mem strtod ctx argv doubledash data h =
     (let s = \<lparr>xs_doubledash = doubledash, xs_required = map x_required (xc_options ctx), xs_data = data\<rparr> in
      bindR (alloc h) (\<lambda>(ok, h).
        let h = h\<lparr>h_capac := EXTRAS_INIT, h_extras := (if ok then Some [] else None)\<rparr> in
        if \<not> ok then bindR (xopt_jump (xopt_set_err data ''could not allocate extras array'' []) s h) (xopt_end ctx)
        else bindR (alloc h) (\<lambda>(ok, h).
          if \<not> ok \<and> xc_options ctx \<noteq> [] then Inl NullDeref
          else bindR (xopt_loop_mem strtod ctx argv (if KEEPFIRST (xc_flags ctx) then 0 else 1) s
                        (h\<lparr>h_required := (if ok then Live else Null)\<rparr>))
                 (xopt_end ctx))))"

section \<open>\<open>XOPT_SIMPLE_PARSE\<close>\<close>

text \<open>
  How the macro ends: with a jump to the label of the caller after printing the help text, or behind the macro. \<open>extras\<close> is what \<open>*extrav_ptr\<close> was set to, if it was
  set. The caller's structure has a field \<open>help\<close>, read by \<open>help_of\<close>.
\<close>

record simple_result =
  sr_help :: "string option"
  sr_err :: "string option"
  sr_extras :: "string list option option"
  sr_data :: xstore

definition simple_flags :: "xopt_flags \<Rightarrow> xopt_flags" where
  "simple_flags flags = flags\<lparr>POSIXMEHARDER := \<not> POSIXMEHARDER flags, STRICT := \<not> STRICT flags\<rparr>"

definition XOPT_SIMPLE_PARSE ::
  "(string \<Rightarrow> nat) \<Rightarrow> (xstore \<Rightarrow> bool) \<Rightarrow> string \<Rightarrow> xopt_flags \<Rightarrow> xopt_option list \<Rightarrow> string list \<Rightarrow> xstore \<Rightarrow> autohelp_options \<Rightarrow> xheap
    \<Rightarrow> simple_result res" where
  "XOPT_SIMPLE_PARSE strtod help_of name flags options argv data autohelp h =
     bindR (alloc h) (\<lambda>(ok, h).
       if \<not> ok then
         (case xopt_set_err data ''could not allocate context'' [] of
            XFault f \<Rightarrow> Inl f
          | XErr msg _ \<Rightarrow> Inr \<lparr>sr_help = None, sr_err = Some msg, sr_extras = None, sr_data = data\<rparr>)
       else
         (let ctx = xopt_context name options (simple_flags flags) in
          bindR (xopt_parse_mem strtod ctx argv False data (h\<lparr>h_required := Null\<rparr>)) (\<lambda>(er, extras, s, h).
            if help_of (xs_data s)
            then Inr \<lparr>sr_help = Some (xopt_autohelp ctx (Some autohelp)), sr_err = None, sr_extras = Some extras, sr_data = xs_data s\<rparr>
            else Inr \<lparr>sr_help = None, sr_err = er, sr_extras = Some extras, sr_data = xs_data s\<rparr>)))"

section \<open>While memory suffices, the parser is that of theory \<open>Xopt\<close>\<close>

lemma xopt_loop_next:
  assumes "xopt_loop strtod ctx argv argi xs s = Inr (extras, s')" "argi < length argv"
  obtains r j s1 where "xopt_parse_arg strtod ctx argv argi s = Inr (r, j, s1)" "\<not> (r = 0 \<and> POSIXMEHARDER (xc_flags ctx) \<and> xs \<noteq> [])"
    "xopt_loop strtod ctx argv (Suc j) (if r = 1 then xs @ [argv ! j] else xs) s1 = Inr (extras, s')"
  using assms by (subst (asm) xopt_loop.simps) (auto simp: bindX_Inr_iff split: if_splits)

lemma xopt_loop_grows: "xopt_loop strtod ctx argv argi xs s = Inr (extras, s') \<Longrightarrow> length xs \<le> length extras"
proof (induction strtod ctx argv argi xs s rule: xopt_loop.induct)
  case (1 strtod ctx argv argi xs s)
  from 1(2) show ?case
    by (subst (asm) xopt_loop.simps) (fastforce simp: bindX_Inr_iff split: if_splits dest: 1(1))
qed

lemma xopt_loop_bound: "xopt_loop strtod ctx argv argi xs s = Inr (extras, s') \<Longrightarrow> length extras \<le> length xs + (length argv - argi)"
proof (induction strtod ctx argv argi xs s rule: xopt_loop.induct)
  case (1 strtod ctx argv argi xs s)
  show ?case
  proof (cases "argi < length argv")
    case False
    with 1(2) show ?thesis by (simp add: xopt_loop.simps)
  next
    case True
    with 1(2) obtain r j s1 where p: "xopt_parse_arg strtod ctx argv argi s = Inr (r, j, s1)"
      and ok: "\<not> (r = 0 \<and> POSIXMEHARDER (xc_flags ctx) \<and> xs \<noteq> [])"
      and l: "xopt_loop strtod ctx argv (Suc j) (if r = 1 then xs @ [argv ! j] else xs) s1 = Inr (extras, s')"
      by (rule xopt_loop_next)
    from 1(1) [OF True p refl refl ok l] xopt_parse_arg_mono [OF p] True show ?thesis by (auto split: if_splits)
  qed
qed

text \<open>The memory after one more extra argument \<open>x\<close>, for which there is room or one allocation.\<close>

definition grown :: "string list \<Rightarrow> string \<Rightarrow> xheap \<Rightarrow> xheap" where
  "grown xs x h =
     (if length xs = h_capac h then h\<lparr>h_capac := h_capac h + 10, h_allocs := tl (h_allocs h)\<rparr> else h)\<lparr>h_extras := Some (xs @ [x])\<rparr>"

lemma xopt_loop_mem_next:
  assumes "argi < length argv" "xopt_parse_arg strtod ctx argv argi s = Inr (r, j, s')" "\<not> (r = 0 \<and> POSIXMEHARDER (xc_flags ctx) \<and> xs \<noteq> [])"
    and "h_extras h = Some xs" "length xs \<le> h_capac h" "r = 1 \<and> length xs = h_capac h \<longrightarrow> h_allocs h \<noteq> [] \<and> hd (h_allocs h)"
  shows "xopt_loop_mem strtod ctx argv argi s h = xopt_loop_mem strtod ctx argv (Suc j) s' (if r = 1 then grown xs (argv ! j) h else h)"
  using assms by (subst xopt_loop_mem.simps, cases "h_allocs h")
    (auto simp: xopt_assert_increment_def store_extra_def alloc_def grown_def EXTRAS_INIT_def)

lemma grown_sel [simp]:
  "h_extras (grown xs x h) = Some (xs @ [x])" "h_required (grown xs x h) = h_required h"
  "h_capac (grown xs x h) = (if length xs = h_capac h then h_capac h + 10 else h_capac h)"
  "h_allocs (grown xs x h) = (if length xs = h_capac h then tl (h_allocs h) else h_allocs h)"
  by (simp_all add: grown_def)

text \<open>The places that are needed for the extra arguments are there or can be allocated; each allocation was necessary.\<close>

lemma xopt_loop_mem_ok:
  "xopt_loop strtod ctx argv argi xs s = Inr (extras, s') \<Longrightarrow> h_extras h = Some xs \<Longrightarrow> length xs \<le> h_capac h \<Longrightarrow>
   h_allocs h = replicate n True @ rest \<Longrightarrow> length extras \<le> h_capac h + 10 * n \<Longrightarrow>
   \<exists>u h'. xopt_loop_mem strtod ctx argv argi s h = Inr (None, s', h') \<and> u \<le> n
     \<and> h_extras h' = Some extras \<and> h_capac h' = h_capac h + 10 * u \<and> h_allocs h' = replicate (n - u) True @ rest \<and> h_required h' = h_required h
     \<and> length extras \<le> h_capac h' \<and> (0 < u \<longrightarrow> h_capac h' < length extras + 10)"
proof (induction strtod ctx argv argi xs s arbitrary: h n rule: xopt_loop.induct)
  case (1 strtod ctx argv argi xs s)
  show ?case
  proof (cases "argi < length argv")
    case False
    with 1(2-6) show ?thesis
      by (intro exI [of _ 0]) (auto simp: xopt_loop.simps [of strtod ctx argv argi] xopt_loop_mem.simps [of strtod ctx argv argi])
  next
    case True
    with 1(2) obtain r j s1 where p: "xopt_parse_arg strtod ctx argv argi s = Inr (r, j, s1)"
      and ok: "\<not> (r = 0 \<and> POSIXMEHARDER (xc_flags ctx) \<and> xs \<noteq> [])"
      and l: "xopt_loop strtod ctx argv (Suc j) (if r = 1 then xs @ [argv ! j] else xs) s1 = Inr (extras, s')"
      by (rule xopt_loop_next)
    note IH = 1(1) [OF True p refl refl ok l]
    show ?thesis
    proof (cases "r = 1 \<and> length xs = h_capac h")
      case False
      then have "xopt_loop_mem strtod ctx argv argi s h = xopt_loop_mem strtod ctx argv (Suc j) s1 (if r = 1 then grown xs (argv ! j) h else h)"
        using 1(3,4) by (intro xopt_loop_mem_next [OF True p ok]) auto
      with IH [of "if r = 1 then grown xs (argv ! j) h else h" n] False 1(3-6) show ?thesis by auto
    next
      case full: True
      obtain m where n: "n = Suc m" using xopt_loop_grows [OF l] full 1(6) by (cases n) auto
      have "xopt_loop_mem strtod ctx argv argi s h = xopt_loop_mem strtod ctx argv (Suc j) s1 (if r = 1 then grown xs (argv ! j) h else h)"
        using 1(3-5) n by (intro xopt_loop_mem_next [OF True p ok]) auto
      with IH [of "grown xs (argv ! j) h" m] full 1(5,6) n obtain u h' where "xopt_loop_mem strtod ctx argv argi s h = Inr (None, s', h')" "u \<le> m"
        "h_extras h' = Some extras" "h_capac h' = h_capac h + 10 + 10 * u" "h_allocs h' = replicate (m - u) True @ rest" "h_required h' = h_required h"
        "length extras \<le> h_capac h'" "0 < u \<longrightarrow> h_capac h' < length extras + 10"
        by auto
      with n full xopt_loop_grows [OF l] show ?thesis by (intro exI [of _ "Suc u"]) auto
    qed
  qed
qed

lemma xopt_loop_mem_error:
  "xopt_loop strtod ctx argv argi xs s = Inl e \<Longrightarrow> h_extras h = Some xs \<Longrightarrow> length xs \<le> h_capac h \<Longrightarrow>
   h_allocs h = replicate n True @ rest \<Longrightarrow> length argv - argi \<le> n \<Longrightarrow>
   \<exists>s' h'. xopt_loop_mem strtod ctx argv argi s h = xopt_jump e s' h' \<and> h_required h' = h_required h"
proof (induction strtod ctx argv argi xs s arbitrary: h n rule: xopt_loop.induct)
  case (1 strtod ctx argv argi xs s)
  have lt: "argi < length argv" using 1(2) by (subst (asm) xopt_loop.simps) (auto split: if_splits)
  show ?case
  proof (cases "xopt_parse_arg strtod ctx argv argi s")
    case (Inl d)
    with 1(2) lt have "d = e" by (subst (asm) xopt_loop.simps) auto
    with Inl lt show ?thesis by (subst xopt_loop_mem.simps) auto
  next
    case (Inr q)
    then obtain r j s1 where p: "xopt_parse_arg strtod ctx argv argi s = Inr (r, j, s1)" by (cases q) auto
    have j: "argi \<le> j" using xopt_parse_arg_mono [OF p] .
    show ?thesis
    proof (cases "r = 0 \<and> POSIXMEHARDER (xc_flags ctx) \<and> xs \<noteq> []")
      case True
      with p lt 1(2,3) show ?thesis by (subst (asm) xopt_loop.simps) (subst xopt_loop_mem.simps, auto)
    next
      case ok: False
      with p lt 1(2) have l: "xopt_loop strtod ctx argv (Suc j) (if r = 1 then xs @ [argv ! j] else xs) s1 = Inl e"
        by (subst (asm) xopt_loop.simps) auto
      obtain m where n: "n = Suc m" using 1(6) lt by (cases n) auto
      have "xopt_loop_mem strtod ctx argv argi s h = xopt_loop_mem strtod ctx argv (Suc j) s1 (if r = 1 then grown xs (argv ! j) h else h)"
        using 1(3-5) n by (intro xopt_loop_mem_next [OF lt p ok]) auto
      with 1(1) [OF lt p refl refl ok l, of "if r = 1 then grown xs (argv ! j) h else h" "if r = 1 \<and> length xs = h_capac h then m else n"]
        1(3-6) j lt n show ?thesis by (cases "length xs = h_capac h") auto
    qed
  qed
qed

end
