(* ===== verification/Xopt_Props.thy ===== *)
theory Xopt_Props
  imports Xopt_Alloc Cli_Props
begin

text \<open>
  Properties of the option parser with its memory: while allocations succeed it is the parser of theory \<open>Xopt\<close>, and what happens when one fails.
\<close>

lemma set_err_lit:
  assumes "NUL \<notin> set lit" "CHR ''%'' \<notin> set lit" "length lit \<le> 4095"
  shows "xopt_set_err data lit [] = XErr lit data"
proof -
  have "xopt_set_err data lit [] = XErr (take 4095 lit) data"
    using assms vsn_lit [of lit ERRBUF_SIZE _ no_float "[]" "[]" "[]"] by (intro set_err_run) (auto simp: vsn_Nil INT_MAX_def)
  with assms(3) show ?thesis by simp
qed

text \<open>What a caller of \<open>xopt_parse\<close> sees: \<open>*err\<close>, \<open>*inextras\<close> and its data.\<close>

definition seen_by_caller :: "(string option \<times> string list option \<times> xstate \<times> xheap) res \<Rightarrow> (string option \<times> string list option \<times> xstore) res" where
  "seen_by_caller m = bindR m (\<lambda>(er, extras, s, h). Inr (er, extras, xs_data s))"

definition parse_result :: "(string list \<times> xstore) xres \<Rightarrow> (string option \<times> string list option \<times> xstore) res" where
  "parse_result m =
     (case m of
        Inl (XFault f) \<Rightarrow> Inl f
      | Inl (XErr msg data) \<Rightarrow> Inr (Some msg, None, data)
      | Inr (extras, data) \<Rightarrow> Inr (None, Some extras, data))"

lemma xopt_fail_jump:
  assumes "h_required h = Live"
  shows "seen_by_caller (bindR (xopt_jump e s h) xopt_fail) = parse_result (Inl e)" "seen_by_caller (bindR (xopt_jump e s h) (xopt_end ctx)) = parse_result (Inl e)"
  using assms by (cases e; simp add: xopt_jump_def xopt_fail_def xopt_end_def free_required_def seen_by_caller_def parse_result_def)+

lemma xopt_end_ok:
  assumes "h_required h = Live" "h_extras h = Some extras" "length extras \<le> h_capac h" "h_allocs h = replicate n True @ rest" "0 < n"
  shows "seen_by_caller (xopt_end ctx (None, s, h)) = parse_result (case xopt_missing (xs_data s) (xc_options ctx) (xs_required s) of
      Some e \<Rightarrow> Inl e | None \<Rightarrow> Inr (extras, xs_data s))"
proof (cases "xopt_missing (xs_data s) (xc_options ctx) (xs_required s)")
  case None
  obtain m where "n = Suc m" using assms(5) by (cases n) auto
  with None assms show ?thesis
    by (auto simp: xopt_end_def free_required_def xopt_assert_increment_def store_extra_def alloc_def EXTRAS_INIT_def seen_by_caller_def parse_result_def)
next
  case (Some e)
  with xopt_fail_jump(1) [OF assms(1), of e s] show ?thesis by (simp add: xopt_end_def)
qed

section \<open>While allocations succeed\<close>

definition first_arg :: "xctx \<Rightarrow> nat" where
  "first_arg ctx = (if KEEPFIRST (xc_flags ctx) then 0 else 1)"

definition fresh_state :: "xctx \<Rightarrow> xstore \<Rightarrow> xstate" where
  "fresh_state ctx data = \<lparr>xs_doubledash = False, xs_required = map x_required (xc_options ctx), xs_data = data\<rparr>"

lemma xopt_parse_mem_start:
  assumes "h_allocs h = True # True # allocs"
  shows "xopt_parse_mem strtod ctx argv False data h =
    bindR (xopt_loop_mem strtod ctx argv (first_arg ctx) (fresh_state ctx data)
      (h\<lparr>h_allocs := allocs, h_capac := 10, h_extras := Some [], h_required := Live\<rparr>)) (xopt_end ctx)"
  using assms by (cases h) (simp add: xopt_parse_mem_def alloc_def EXTRAS_INIT_def Let_def first_arg_def fresh_state_def)

lemma xopt_parse_start:
  "xopt_parse strtod ctx argv data =
    bindX (xopt_loop strtod ctx argv (first_arg ctx) [] (fresh_state ctx data)) (\<lambda>(extras, s).
       case xopt_missing (xs_data s) (xc_options ctx) (xs_required s) of Some e \<Rightarrow> Inl e | None \<Rightarrow> Inr (extras, xs_data s))"
  by (simp add: xopt_parse_def first_arg_def fresh_state_def)

lemma xopt_parse_mem_result:
  assumes "h_allocs h = replicate n True @ rest" "length argv + 3 \<le> n"
  shows "seen_by_caller (xopt_parse_mem strtod ctx argv False data h) = parse_result (xopt_parse strtod ctx argv data)"
proof -
  obtain m where n: "n = Suc (Suc m)" "length argv < m" using assms(2) by (cases n; cases "n - 1") auto
  let ?s = "fresh_state ctx data" and ?argi = "first_arg ctx"
  let ?h = "h\<lparr>h_allocs := replicate m True @ rest, h_capac := 10, h_extras := Some [], h_required := Live\<rparr>"
  have start: "xopt_parse_mem strtod ctx argv False data h = bindR (xopt_loop_mem strtod ctx argv ?argi ?s ?h) (xopt_end ctx)"
    using assms(1) n by (intro xopt_parse_mem_start) simp
  show ?thesis
  proof (cases "xopt_loop strtod ctx argv ?argi [] ?s")
    case (Inl e)
    have "length argv - ?argi \<le> m" using n by simp
    with xopt_loop_mem_error [OF Inl, of ?h m rest] obtain s' h' where
      "xopt_loop_mem strtod ctx argv ?argi ?s ?h = xopt_jump e s' h'" "h_required h' = Live" by auto
    with start Inl xopt_fail_jump(2) show ?thesis by (simp add: xopt_parse_start)
  next
    case (Inr q)
    then obtain extras s' where l: "xopt_loop strtod ctx argv ?argi [] ?s = Inr (extras, s')" by (cases q) auto
    have len: "length extras \<le> length argv" using xopt_loop_bound [OF l] by simp
    with n xopt_loop_mem_ok [OF l, of ?h m rest] obtain u h' where run: "xopt_loop_mem strtod ctx argv ?argi ?s ?h = Inr (None, s', h')"
      and h': "h_extras h' = Some extras" "h_allocs h' = replicate (m - u) True @ rest" "h_required h' = Live" "length extras \<le> h_capac h'"
        "h_capac h' = 10 + 10 * u" "0 < u \<longrightarrow> h_capac h' < length extras + 10"
      by auto
    then have "0 < m - u" using n len by (cases u) auto
    with xopt_end_ok [OF h'(3,1,4,2), of ctx s'] start run l show ?thesis by (simp add: xopt_parse_start)
  qed
qed

text \<open>
  C33: As long as no allocation fails, \<open>xopt_parse\<close> with its growing array, in a context that has not seen a double dash before, is the parser on lists: the caller gets the
  same error message or the same extra arguments, and the same data; the parser writes no element outside of the array and frees nothing twice.
\<close>

theorem parser_memory_refines:
  assumes "h_allocs h = replicate n True @ rest" "length argv + 3 \<le> n"
  shows "seen_by_caller (xopt_parse_mem strtod ctx argv False data h) = parse_result (xopt_parse strtod ctx argv data)"
  by (rule xopt_parse_mem_result [OF assms])

theorem parser_memory_refines_witness:
  "seen_by_caller (xopt_parse_mem length cli_ctx [''nvsharectl'', ''--'', ''a'', ''b''] False Map.empty
      \<lparr>h_allocs = replicate 7 True, h_required = Null, h_extras = None, h_capac = 0\<rparr>) = Inr (None, Some [''a'', ''b''], Map.empty)"
proof -
  have "xopt_parse length cli_ctx [''nvsharectl'', ''--'', ''a'', ''b''] Map.empty = Inr ([''a'', ''b''], Map.empty)"
    by (simp add: xopt_parse_def xopt_loop.simps xopt_parse_arg_def xopt_get_size_def cli_options_def)
  then show ?thesis
    using parser_memory_refines [of "\<lparr>h_allocs = replicate 7 True, h_required = Null, h_extras = None, h_capac = 0\<rparr>" 7 "[]"
      "[''nvsharectl'', ''--'', ''a'', ''b'']" length cli_ctx Map.empty]
    by (simp add: parse_result_def)
qed

section \<open>When an allocation fails\<close>

lemma first_malloc_fails:
  assumes "h_allocs h = False # rest"
  shows "seen_by_caller (xopt_parse_mem strtod ctx argv dd data h) =
    (if h_required h = Freed then Inl UseAfterFree else Inr (Some ''could not allocate extras array'', None, data))"
  using assms set_err_lit [of "''could not allocate extras array''" data]
  by (auto simp: xopt_parse_mem_def alloc_def Let_def xopt_jump_def xopt_end_def xopt_fail_def free_required_def seen_by_caller_def split: block.splits)

text \<open>
  C37: If the number of extra arguments is a multiple of ten and the last \<open>realloc\<close>, which makes room for the NULL at the end, fails, then \<open>xopt_parse\<close> frees the
  list of required options twice: the error jumps back to the label \<open>end\<close>, behind which the list has been freed already.
\<close>

theorem failed_realloc_frees_twice:
  assumes "xopt_parse strtod ctx argv data = Inr (extras, data')" "length extras = 10 * Suc k"
    and "h_allocs h = replicate (k + 2) True @ False # rest"
  shows "xopt_parse_mem strtod ctx argv False data h = Inl UseAfterFree"
proof -
  let ?s = "fresh_state ctx data" and ?argi = "first_arg ctx"
  let ?h = "h\<lparr>h_allocs := replicate k True @ False # rest, h_capac := 10, h_extras := Some [], h_required := Live\<rparr>"
  obtain s' where l: "xopt_loop strtod ctx argv ?argi [] ?s = Inr (extras, s')"
    and m: "xopt_missing (xs_data s') (xc_options ctx) (xs_required s') = None"
    using assms(1) by (auto simp: xopt_parse_start bindX_Inr_iff split: option.splits)
  from xopt_loop_mem_ok [OF l, of ?h k "False # rest"] assms(2) obtain u h' where
    run: "xopt_loop_mem strtod ctx argv ?argi ?s ?h = Inr (None, s', h')" "u \<le> k" "h_extras h' = Some extras" "h_required h' = Live"
      "h_allocs h' = replicate (k - u) True @ False # rest" "length extras \<le> h_capac h'" "h_capac h' = 10 + 10 * u"
    by auto
  moreover from this assms(2) have "u = k" by simp
  ultimately have "xopt_end ctx (None, s', h') = Inl UseAfterFree"
    using m assms(2) set_err_lit [of "''could not realloc arguments array''" "xs_data s'"]
    by (simp add: xopt_end_def free_required_def xopt_assert_increment_def alloc_def EXTRAS_INIT_def xopt_jump_def xopt_fail_def)
  with run(1) xopt_parse_mem_start [of h "replicate k True @ False # rest"] assms(3) show ?thesis by (simp add: numeral_2_eq_2)
qed

theorem failed_realloc_frees_twice_witness:
  "xopt_parse_mem length cli_ctx (''nvsharectl'' # ''--'' # replicate 10 ''x'') False Map.empty
     \<lparr>h_allocs = [True, True, False], h_required = Null, h_extras = None, h_capac = 0\<rparr> = Inl UseAfterFree"
proof -
  have "xopt_parse length cli_ctx (''nvsharectl'' # ''--'' # replicate 10 ''x'') Map.empty = Inr (replicate 10 ''x'', Map.empty)"
    by (simp add: xopt_parse_def xopt_loop.simps xopt_parse_arg_def xopt_get_size_def cli_options_def numeral_eq_Suc)
  from failed_realloc_frees_twice [OF this, of 0] show ?thesis by (simp add: numeral_eq_Suc)
qed

section \<open>\<open>XOPT_SIMPLE_PARSE\<close>\<close>

text \<open>
  With enough memory, the macro parses in the flags \<open>simple_flags\<close>. If the caller's structure asks for help, the error of the parser, if there was one, is lost.
\<close>

lemma simple_parse_result:
  assumes "h_allocs h = replicate n True @ rest" "length argv + 4 \<le> n" "ctx = xopt_context name opts (simple_flags flags)"
  shows "XOPT_SIMPLE_PARSE strtod help_of name flags opts argv data autohelp h =
    bindR (parse_result (xopt_parse strtod ctx argv data)) (\<lambda>(er, extras, data).
      Inr (if help_of data then \<lparr>sr_help = Some (xopt_autohelp ctx (Some autohelp)), sr_err = None, sr_extras = Some extras, sr_data = data\<rparr>
           else \<lparr>sr_help = None, sr_err = er, sr_extras = Some extras, sr_data = data\<rparr>))"
proof -
  obtain m where n: "n = Suc m" "length argv + 3 \<le> m" using assms(2) by (cases n) auto
  have "seen_by_caller (xopt_parse_mem strtod ctx argv False data (h\<lparr>h_allocs := replicate m True @ rest, h_required := Null\<rparr>)) =
      parse_result (xopt_parse strtod ctx argv data)"
    using n by (intro xopt_parse_mem_result) auto
  then show ?thesis using assms(1) n unfolding XOPT_SIMPLE_PARSE_def assms(3) [symmetric]
    by (cases "xopt_parse_mem strtod ctx argv False data (h\<lparr>h_allocs := replicate m True @ rest, h_required := Null\<rparr>)")
      (auto simp: alloc_def seen_by_caller_def Let_def dest!: sym [of _ "parse_result _"])
qed

text \<open>A caller that asks for strict parsing gets the opposite: the flags are combined by exclusive or.\<close>

lemma simple_parse_strict: "STRICT (simple_flags flags) \<longleftrightarrow> \<not> STRICT flags"
  by (simp add: simple_flags_def)

end
