(* ===== verification/Spec2Isabelle.thy ===== *)
theory Spec2Isabelle
  imports Clock Starvation Gate Hook_Props Cli_Props Toggle_Props Gen_Props Base_Props Utlist_Props Xopt_Props
begin

text \<open>
  nvshare lets several CUDA applications share one GPU, each as if it had the GPU and its memory to itself. The parts of the program and
  how they interact:

  \<^item> the scheduler (\<open>src/src/scheduler.c\<close>), one process per node. It listens on a UNIX socket, keeps a list of clients and a first-come first-served queue
    of requests for the GPU lock, sends LOCK_OK to the client at the head, and, from a second thread, DROP_LOCK when a holder has had the
    lock for a time quantum and the round has not ended;
  \<^item> the client library, loaded into every application: \<open>src/src/hook.c\<close> interposes functions of the CUDA driver, so that every piece of
    GPU work first passes through \<open>continue_with_lock\<close> of \<open>src/src/client.c\<close>, which waits for the lock; a client thread answers the scheduler, and
    another thread gives the lock back early when the GPU is idle;
  \<^item> the command line tool (\<open>src/src/cli.c\<close>), which changes the time quantum and switches the scheduler on and off, with its option parser
    (\<open>src/src/xopt.c\<close>) and a replacement of \<open>vsnprintf\<close> (\<open>src/src/snprintf.c\<close>);
  \<^item> shared code: messages and sockets (\<open>src/src/comm.c\<close>), utilities (\<open>src/src/common.c\<close>) and linked lists (\<open>src/src/utlist.h\<close>).

  \<^bold>\<open>Modelling.\<close> A C function is a HOL function from the state it reads to the state it leaves; \<open>'a res\<close> (theory \<open>Prelude\<close>) is the sum of a fault and a result.
  Faults are \<open>Exit\<close> (\<open>log_fatal\<close> and \<open>true_or_exit\<close>), \<open>Blocked\<close> (a system call that has not answered) and undefined behaviour of C: freed or null
  pointers, accesses out of bounds, mismatched \<open>va_arg\<close>, signed overflow. System calls, the CUDA driver, NVML, the dynamic linker, \<open>malloc\<close> and
  \<open>rand\<close> are environments: lists of arbitrary answers, with a log of the calls made. They are no stock fixed at the start: in the systems of several processes a
  step of the environment (\<open>refill\<close>) puts other answers in their place at any time, so runs are as long as they like. A thread that owns a mutex runs atomically
  up to the next point where it gives the mutex up; there is one function for each such stretch, and the interleavings are the steps of an inductive relation.
  Integers keep their width where it matters: identifiers and sizes are words, \<open>int\<close> casts are \<open>to_int32\<close>.

  \<^bold>\<open>Theories, bottom up.\<close>
  \<^item> \<open>Prelude\<close>: faults, weakest preconditions (\<open>wp\<close>) and partial correctness (\<open>post\<close>) with their rule collections, system calls, strings.
    \<open>Cstd\<close>: the functions of the C library the sources call to print and read numbers, and that reading inverts printing.
  \<^item> \<open>Utlist\<close>: the list macros on an explicit store of pointers; the locale \<open>linked_list\<close> is their contract, interpreted on the macros, and the
    ground for modelling the lists of the other components as lists. \<open>Utlist_LL\<close>, \<open>Utlist_DL\<close>, \<open>Utlist_CDL\<close>: the other macros for singly linked,
    doubly linked and circular lists, as refinements of list operations; both other kinds of list interpret \<open>linked_list\<close> too. \<open>Utlist_Sort\<close>: the loops of the
    merge sort, once, over the locale \<open>sort_store\<close> of stores they can sort, interpreted on the three kinds of list. \<open>Utlist_ND\<close>: the replacements for compilers
    without \<open>decltype\<close>, and the steps of the sorts there. \<open>Utlist_Props\<close>: the operations agree, the sorts return a stably sorted list, the replacements leave the same memory.
  \<^item> \<open>Common\<close>, \<open>Comm\<close>: \<open>strlcpy\<close>, \<open>write_whole\<close>, \<open>read_whole\<close>, \<open>RETRY_INTR\<close>; the packed \<open>struct message\<close> and its bytes, identifiers, socket
    wrappers. \<open>Base_Props\<close> has their properties: the wire format is a bijection, messages survive fragmentation, the list macros refine lists, the search
    for an identifier ends.
  \<^item> \<open>Scheduler\<close>: the state (\<open>sched\<close>) and every operation of the main thread, from \<open>send_message\<close> to \<open>main\<close>. \<open>Scheduler_Inv\<close>: the
    invariants \<open>mem_inv\<close> and \<open>sched_inv\<close> and their preservation. \<open>Scheduler_Lock\<close>: handing out the lock, broadcasts, registration.
    \<open>Scheduler_Spec\<close>: the abstract lock manager \<open>lm_step\<close> and the proof that every event the main thread handles is a step of it;
    the locale \<open>fcfs_lock\<close> is what such a manager guarantees, \<open>lm_refinement\<close> (a \<^theory_text>\<open>sublocale\<close> of it) what an implementation has to show, and the scheduler
    is an interpretation. \<open>Scheduler_Props\<close>: refinement, no overtaking, no preemption, the GPU is not left idle, registration, broadcasts, and the faults.
    \<open>Scheduler_Freed\<close>: freed memory is read only if the event frees a client.
  \<^item> \<open>Timer\<close>: the timer thread. \<open>Clock\<close>: both threads under every interleaving with a clock; DROP_LOCK comes neither too early nor
    twice, and the race that loses a reset.
  \<^item> \<open>Client\<close>, \<open>Client_Props\<close>: the three kinds of threads of the client as refinements of the automaton \<open>lc\<close>; synchronisation before release; early release.
  \<^item> \<open>Hook\<close>, \<open>Hook_Props\<close>: every interposed function, the symbol dispatchers, the bootstrap; every wrapper checks the lock before its call of the driver, accounting of memory, the kernel window.
    There a wrapper runs without interruption; \<open>Gate\<close> has all threads of an application with their mutex as one step relation (\<open>proc_step\<close>), of which the runs of the wrappers are runs, and in
    which the lock can be lost between its check and the call of the driver.
  \<^item> \<open>Scheduler_Sent\<close>, \<open>System\<close>, \<open>System_Props\<close>: scheduler, timer, any number of applications and the messages under way between them, as one transition
    system (\<open>world_step\<close>); mutual exclusion, and no request is forgotten, in every reachable world. \<open>Progress\<close>: infinite runs; a rank for waiting applications
    that falls on the way to the lock. \<open>Starvation\<close>: nobody starves when messages are read and the quantum of an owner ends, and a run without end, in which two applications contend for ever, to which this applies.
  \<^item> \<open>Toggle\<close>, \<open>Toggle_Run\<close>, \<open>Toggle_Props\<close>: the same system when the tool also switches the scheduler off and on (\<open>full_step\<close>). The status spreads to every
    application and no request is forgotten; mutual exclusion can be lost, shown by a run of the code that is composed from a script of steps.
  \<^item> \<open>Snprintf\<close>: the formatter as the automaton the source writes, one function per state. \<open>Snprintf_Props\<close>: its text does not depend on the buffer
    (the collections \<open>emits\<close> and \<open>yields\<close>), hence the contract of \<open>vsnprintf\<close>; agreement with the functions of \<open>Cstd\<close>. \<open>Float_Props\<close>, \<open>Sci_Props\<close>, \<open>Gen_Props\<close>:
    \<open>%f\<close>, \<open>%e\<close> and \<open>%g\<close> are correctly rounded in exact arithmetic, except that the carry into a third digit of the exponent is lost.
  \<^item> \<open>Xopt\<close>, \<open>Cli\<close>, \<open>Cli_Props\<close>: the option parser with the messages it formats, the tool, and the way of a time quantum from the command line into
    the scheduler. \<open>Xopt_Alloc\<close>, \<open>Xopt_Props\<close>: the parser with allocations that may fail, the growing array of extra arguments and the jumps of its errors; it
    refines the parser on lists while memory suffices, and frees memory twice when one allocation fails.

  \<^bold>\<open>Termination and bounds.\<close> Loops over input end because the input shrinks: \<open>retry_intr\<close>, \<open>write_loop\<close>, \<open>read_loop\<close>, \<open>nvshare_connect\<close> and \<open>pick_id\<close> use up
  answers of the environment, and running out of answers is \<open>Blocked\<close>, not a result. The pointer loops of the list macros are partial functions, and their theorems state
  that they return; the sorts double an \<open>int\<close> in every pass, which does not overflow up to 2^30 nodes, more than fit into memory in practice. The format automaton ends by the measure \<open>vsn_measure\<close>; the loops of \<open>getexponent\<close> carry the bound 99 of the source. Sizes are those
  of x86-64: \<open>int\<close> 32 bits, \<open>long\<close> and \<open>size_t\<close> 64. The round counter of the scheduler is 32 bits wide, and the theorem about DROP_LOCK excludes that it wraps around
  during one wait of the timer.

  \<^bold>\<open>Assumptions.\<close> \<open>event_ok\<close> is what the scheduler needs of an event: \<open>malloc\<close> succeeds for a new connection, the object of a client's event is live, and the text in a message
  ends within it; the code checks none of the three. \<open>stale_harmless\<close>, a part of the invariant, is an assumption about the memory manager: the loop of \<open>delete_client\<close> reads the client it has
  freed, undefined behaviour that the model records in \<open>uaf\<close> and continues with any value but the descriptor of a live client; \<open>stale_read_frees_another\<close> shows
  what such a value does. The bytes of a message are the memory image of the packed structure; the source has no codec, and \<open>wire_format\<close> gives the place of every field.

  \<^bold>\<open>Not modelled.\<close> Logging and its macros; creation of threads, mutexes and condition variables, signal masks, and failing pthread calls; the test program and the locale-dependent
  configurations of \<open>snprintf.c\<close>, whose arithmetic of \<open>double\<close> is a parameter; the CUDA driver, NVML, the kernel and the C library beyond the functions
  of \<open>Cstd\<close>; the linker script, and the Kubernetes device plugin (Go) and deployment files around the program. The worlds assume that all applications run
  the client library; those of \<open>System\<close> also that nobody switches the scheduler off.
\<close>

end
